(* ===== verification/Prelude.thy ===== *)
theory Prelude
  imports Main
begin

section \<open>Prelude: loops over arrays and short-circuit conjunction\<close>

text \<open>
  What the component theories share: C \<open>for\<close> loops over an index as folds
  (\<open>for_up\<close>, \<open>for_down\<close>), the array idioms of the program (shift a suffix right by one,
  copy a block, build a temporary array with one element inserted, fill a block) with the
  list each of them computes, \<open>chain\<close>, the \<open>&&\<close> of fallible calls, the early returns, and
  the end of a step relation whose runs are bounded.
  Arrays are lists of the declared length, \<open>a[i := x]\<close> is the store \<open>a[i] = x\<close>.
\<close>

named_theorems array_simps \<open>what the array loops compute, as lists\<close>
named_theorems call_simps \<open>effects of calls on the environment record\<close>

subsection \<open>Step relations whose runs are bounded\<close>

lemma bounded_run_ends:
  assumes "\<And>k y. (R ^^ k) x y \<Longrightarrow> k \<le> (n :: nat)"
  shows "\<exists>k y. (R ^^ k) x y \<and> (\<nexists>z. R y z)"
proof (rule ccontr)
  assume no: "\<not> ?thesis"
  have "\<exists>y. (R ^^ k) x y" for k
  proof (induction k)
    case (Suc k)
    then obtain y z where "(R ^^ k) x y" "R y z" using no by blast
    then have "(R ^^ Suc k) x z" by auto
    then show ?case by blast
  qed simp
  then obtain y where "(R ^^ Suc n) x y" by blast
  from assms [OF this] show False by simp
qed

subsection \<open>Counted loops\<close>

text \<open>\<open>for (i = lo; i < hi; i++)\<close> and \<open>for (i = hi; i > lo; i--)\<close>.\<close>

definition for_up :: "nat \<Rightarrow> nat \<Rightarrow> (nat \<Rightarrow> 's \<Rightarrow> 's) \<Rightarrow> 's \<Rightarrow> 's" where
  "for_up lo hi body s = fold body [lo..<hi] s"

definition for_down :: "nat \<Rightarrow> nat \<Rightarrow> (nat \<Rightarrow> 's \<Rightarrow> 's) \<Rightarrow> 's \<Rightarrow> 's" where
  "for_down hi lo body s = fold body (rev [Suc lo..<Suc hi]) s"

lemma for_up_same [simp]: "hi \<le> lo \<Longrightarrow> for_up lo hi body s = s"
  by (simp add: for_up_def)

lemma for_up_Suc: "lo \<le> hi \<Longrightarrow> for_up lo (Suc hi) body s = body hi (for_up lo hi body s)"
  by (simp add: for_up_def)

lemma for_down_same [simp]: "hi \<le> lo \<Longrightarrow> for_down hi lo body s = s"
  by (simp add: for_down_def)

lemma for_down_Suc: "lo \<le> hi \<Longrightarrow> for_down (Suc hi) lo body s = for_down hi lo body (body (Suc hi) s)"
  by (simp add: for_down_def)

subsection \<open>Array idioms\<close>

lemma drop_take_Cons:
  "i < n \<Longrightarrow> n \<le> length xs \<Longrightarrow> drop i (take n xs) = xs ! i # drop (Suc i) (take n xs)"
  by (subst Cons_nth_drop_Suc [symmetric]) auto

definition ins_at :: "nat \<Rightarrow> 'a \<Rightarrow> 'a list \<Rightarrow> 'a list" where
  "ins_at p x xs = take p xs @ x # drop p xs"

lemma length_ins_at [simp]: "length (ins_at p x xs) = Suc (length xs)"
  by (simp add: ins_at_def)

lemma set_ins_at [simp]: "set (ins_at p x xs) = insert x (set xs)"
  by (metis append_take_drop_id ins_at_def list.simps(15) set_append Un_insert_right)

lemma nth_ins_at:
  "p \<le> length xs \<Longrightarrow> ins_at p x xs ! i =
     (if i < p then xs ! i else if i = p then x else xs ! (i - 1))"
  by (auto simp: ins_at_def nth_append nth_Cons' min_def)

lemma map_ins_at: "map f (ins_at p x xs) = ins_at p (f x) (map f xs)"
  by (simp add: ins_at_def take_map drop_map)

lemma zip_ins_at:
  "length xs = length ys \<Longrightarrow> zip (ins_at p x xs) (ins_at p y ys) = ins_at p (x, y) (zip xs ys)"
  by (simp add: ins_at_def take_zip drop_zip)

text \<open>\<open>for (i = n; i > pos; i--) a[i] = a[i - 1];\<close>\<close>

definition shift_right :: "nat \<Rightarrow> nat \<Rightarrow> 'a list \<Rightarrow> 'a list" where
  "shift_right n pos xs = for_down n pos (\<lambda>i a. a[i := a ! (i - 1)]) xs"

lemma length_shift_right [simp]: "length (shift_right n pos xs) = length xs"
proof -
  have "length (fold (\<lambda>i a. a[i := a ! (i - 1)]) is a) = length a" for "is" :: "nat list" and a :: "'a list"
    by (induction "is" arbitrary: a) auto
  then show ?thesis by (simp add: shift_right_def for_down_def)
qed

lemma nth_shift_right:
  "pos \<le> n \<Longrightarrow> n < length xs \<Longrightarrow> j < length xs \<Longrightarrow>
   shift_right n pos xs ! j = (if pos < j \<and> j \<le> n then xs ! (j - 1) else xs ! j)"
proof (induction "n - pos" arbitrary: n xs)
  case 0
  then show ?case by (auto simp: shift_right_def)
next
  case (Suc m)
  then obtain n' where n: "n = Suc n'" "pos \<le> n'" "m = n' - pos"
    by (cases n) auto
  have "shift_right n pos xs ! j = shift_right n' pos (xs[n := xs ! n']) ! j"
    using n by (simp add: shift_right_def for_down_Suc)
  also have "\<dots> = (if pos < j \<and> j \<le> n' then xs[n := xs ! n'] ! (j - 1) else xs[n := xs ! n'] ! j)"
    by (rule Suc.hyps(1)) (use Suc.prems n in auto)
  also have "\<dots> = (if pos < j \<and> j \<le> n then xs ! (j - 1) else xs ! j)"
    using n Suc.prems by (auto simp: nth_list_update)
  finally show ?case .
qed

lemma shift_right_store [array_simps]:
  assumes "pos \<le> n" "n < length xs"
  shows "(shift_right n pos xs)[pos := x] =
    take pos xs @ x # take (n - pos) (drop pos xs) @ drop (Suc n) xs"
  by (rule nth_equalityI)
    (use assms in \<open>auto simp: nth_shift_right nth_list_update nth_append nth_Cons' min_def\<close>)

lemma take_shift_right_store [array_simps]:
  assumes "pos \<le> n" "n < length xs"
  shows "take (Suc n) ((shift_right n pos xs)[pos := x]) = ins_at pos x (take n xs)"
  using assms by (auto simp: shift_right_store ins_at_def drop_take Suc_diff_le min_def)

lemma drop_shift_right [array_simps]:
  "pos \<le> n \<Longrightarrow> n < length xs \<Longrightarrow> drop (Suc n) (shift_right n pos xs) = drop (Suc n) xs"
  by (rule nth_equalityI) (auto simp: nth_shift_right)

text \<open>\<open>for (i = 0; i < n; i++) dst[i] = src[off + i];\<close>\<close>

definition copy_block :: "'a list \<Rightarrow> 'a list \<Rightarrow> nat \<Rightarrow> nat \<Rightarrow> 'a list" where
  "copy_block dst src off n = for_up 0 n (\<lambda>i a. a[i := src ! (off + i)]) dst"

lemma copy_block_eq [array_simps]:
  "n \<le> length dst \<Longrightarrow> off + n \<le> length src \<Longrightarrow>
   copy_block dst src off n = take n (drop off src) @ drop n dst"
proof (induction n)
  case 0
  then show ?case by (simp add: copy_block_def)
next
  case (Suc n)
  then have "copy_block dst src off (Suc n) =
      (take n (drop off src) @ drop n dst)[n := src ! (off + n)]"
    by (simp add: copy_block_def for_up_Suc)
  also have "\<dots> = take (Suc n) (drop off src) @ drop (Suc n) dst"
  proof -
    have "length (take n (drop off src)) = n" using Suc.prems by simp
    moreover have "take (Suc n) (drop off src) = take n (drop off src) @ [src ! (off + n)]"
      using Suc.prems by (simp add: take_Suc_conv_app_nth)
    moreover have "drop n dst = dst ! n # drop (Suc n) dst"
      using Suc.prems by (simp add: Cons_nth_drop_Suc)
    ultimately show ?thesis by (simp add: list_update_append)
  qed
  finally show ?case .
qed

text \<open>
  \<open>for (i = 0, j = 0; i < tot; i++) if (i == pos) t[i] = x; else t[i] = a[j++];\<close>
  (the initial contents of the local array are never read).
\<close>

definition build_temp :: "'a list \<Rightarrow> 'a list \<Rightarrow> 'a \<Rightarrow> nat \<Rightarrow> nat \<Rightarrow> 'a list" where
  "build_temp temp a x pos tot =
     fst (for_up 0 tot
       (\<lambda>i (t, j). if i = pos then (t[i := x], j) else (t[i := a ! j], Suc j)) (temp, 0))"

lemma build_temp_loop:
  assumes "pos \<le> length a" "i \<le> Suc (length a)" "length temp = Suc (length a)"
  shows "for_up 0 i (\<lambda>i (t, j). if i = pos then (t[i := x], j) else (t[i := a ! j], Suc j)) (temp, 0)
    = (take i (ins_at pos x a) @ drop i temp, if i \<le> pos then i else i - 1)"
  using assms(2)
proof (induction i)
  case 0
  then show ?case by simp
next
  case (Suc i)
  let ?I = "ins_at pos x a"
  have upd: "(take i ?I @ drop i temp)[i := ?I ! i] = take (Suc i) ?I @ drop (Suc i) temp"
    using Suc.prems assms(3)
    by (auto intro!: nth_equalityI simp: nth_list_update nth_append min_def not_less less_Suc_eq)
  show ?case
    using Suc assms(1) upd by (auto simp: for_up_Suc nth_ins_at split: if_splits)
qed

lemma build_temp_eq [array_simps]:
  "pos \<le> length a \<Longrightarrow> length temp = Suc (length a) \<Longrightarrow> tot = Suc (length a) \<Longrightarrow>
   build_temp temp a x pos tot = ins_at pos x a"
  by (simp add: build_temp_def build_temp_loop)

text \<open>\<open>for (i = lo; i < hi; i++) a[i] = x;\<close>\<close>

definition fill_block :: "'a list \<Rightarrow> 'a \<Rightarrow> nat \<Rightarrow> nat \<Rightarrow> 'a list" where
  "fill_block a x lo hi = for_up lo hi (\<lambda>i a. a[i := x]) a"

lemma fill_block_eq [array_simps]:
  "lo \<le> hi \<Longrightarrow> hi \<le> length a \<Longrightarrow> fill_block a x lo hi = take lo a @ replicate (hi - lo) x @ drop hi a"
proof (induction hi rule: dec_induct)
  case base
  then show ?case by (simp add: fill_block_def)
next
  case (step hi)
  then have "fill_block a x lo (Suc hi) = (take lo a @ replicate (hi - lo) x @ drop hi a)[hi := x]"
    by (simp add: fill_block_def for_up_Suc)
  also have "\<dots> = take lo a @ replicate (Suc hi - lo) x @ drop (Suc hi) a"
    using step.hyps step.prems
    by (auto intro!: nth_equalityI simp: nth_list_update nth_append nth_Cons' min_def not_less less_Suc_eq)
  finally show ?case .
qed

subsection \<open>Short-circuit conjunction of fallible calls\<close>

text \<open>
  \<open>f(builder) && g(builder) && ...\<close>: a call maps a state to a success flag and a new state, or to
  \<open>None\<close> (undefined behaviour); the first call that fails ends the chain.
\<close>

fun chain :: "('s \<Rightarrow> (bool \<times> 's) option) list \<Rightarrow> 's \<Rightarrow> (bool \<times> 's) option" where
  "chain [] s = Some (True, s)"
| "chain (f # fs) s =
     (case f s of None \<Rightarrow> None | Some (ok, s') \<Rightarrow> if ok then chain fs s' else Some (False, s'))"

subsection \<open>Errors\<close>

text \<open>
  \<open>if (!step) { set_err(err, err_size, msg); return 0; }\<close> before the rest of a function: the
  result of a fallible function is \<open>Inl\<close> of the message or \<open>Inr\<close> of its outputs. All messages
  are shorter than the error buffers of the callers, so \<open>set_err\<close> never truncates them.
\<close>

definition need :: "'e \<Rightarrow> 'a option \<Rightarrow> ('a \<Rightarrow> 'e + 'b) \<Rightarrow> 'e + 'b" where
  "need msg r k = (case r of None \<Rightarrow> Inl msg | Some x \<Rightarrow> k x)"

definition check :: "'e \<Rightarrow> bool \<Rightarrow> ('e + 'b) \<Rightarrow> 'e + 'b" where
  "check msg ok k = (if ok then k else Inl msg)"

text \<open>\<open>if (!f(...)) return 0;\<close> where \<open>f\<close> has stored the message itself.\<close>

definition ok_then :: "'e + 'a \<Rightarrow> ('a \<Rightarrow> 'e + 'b) \<Rightarrow> 'e + 'b" where
  "ok_then r k = (case r of Inl e \<Rightarrow> Inl e | Inr x \<Rightarrow> k x)"

lemma ok_then_simps [simp]: "ok_then (Inl e) k = Inl e" "ok_then (Inr x) k = k x"
  by (simp_all add: ok_then_def)

lemma ok_then_Inr: "ok_then r k = Inr y \<longleftrightarrow> (\<exists>x. r = Inr x \<and> k x = Inr y)"
  by (cases r) auto

lemma need_simps [simp]: "need msg None k = Inl msg" "need msg (Some x) k = k x"
  by (simp_all add: need_def)

lemma need_Inr: "need msg r k = Inr y \<longleftrightarrow> (\<exists>x. r = Some x \<and> k x = Inr y)"
  by (cases r) (auto simp: need_def)

lemma check_simps [simp]: "check msg True k = k" "check msg False k = Inl msg"
  by (simp_all add: check_def)

lemma check_Inr: "check msg ok k = Inr y \<longleftrightarrow> ok \<and> k = Inr y"
  by (auto simp: check_def)

end
