(* ===== verification/CString.thy ===== *)
theory CString
  imports Prelude
begin

section \<open>C strings: character classes, comparison, numbers\<close>

text \<open>
  What the program uses of \<open>ctype.h\<close>, \<open>string.h\<close>, \<open>strings.h\<close> and \<open>stdlib.h\<close> in the C locale. A
  C string is the list of its bytes before the terminating NUL; a pointer into one is the suffix
  it points at, so \<open>*p == 0\<close> is \<open>p = []\<close> and \<open>p + 1\<close> is the tail.
\<close>

abbreviation code :: "char \<Rightarrow> nat" where
  "code c \<equiv> of_char c"

abbreviation BACKSLASH :: char where
  "BACKSLASH \<equiv> CHR 0x5C"

abbreviation DQUOTE :: char where
  "DQUOTE \<equiv> CHR 0x22"

definition isspace :: "char \<Rightarrow> bool" where
  "isspace c \<longleftrightarrow> code c = 32 \<or> 9 \<le> code c \<and> code c \<le> 13"

definition isdigit :: "char \<Rightarrow> bool" where
  "isdigit c \<longleftrightarrow> 48 \<le> code c \<and> code c \<le> 57"

definition isupper :: "char \<Rightarrow> bool" where
  "isupper c \<longleftrightarrow> 65 \<le> code c \<and> code c \<le> 90"

definition islower :: "char \<Rightarrow> bool" where
  "islower c \<longleftrightarrow> 97 \<le> code c \<and> code c \<le> 122"

definition isalpha :: "char \<Rightarrow> bool" where
  "isalpha c \<longleftrightarrow> isupper c \<or> islower c"

definition isalnum :: "char \<Rightarrow> bool" where
  "isalnum c \<longleftrightarrow> isalpha c \<or> isdigit c"

definition tolower :: "char \<Rightarrow> char" where
  "tolower c = (if isupper c then char_of (code c + 32) else c)"

lemmas ctype_defs = isspace_def isdigit_def isupper_def islower_def isalpha_def isalnum_def

lemma isdigit_not_space: "isdigit c \<Longrightarrow> \<not> isspace c"
  by (auto simp: ctype_defs)

lemma isalpha_not_space: "isalpha c \<Longrightarrow> \<not> isspace c"
  by (auto simp: ctype_defs)

lemma isalpha_not_digit: "isalpha c \<Longrightarrow> \<not> isdigit c"
  by (auto simp: ctype_defs)

text \<open>\<open>strcasecmp(s, t) == 0\<close> and \<open>strncasecmp(s, t, n) == 0\<close>.\<close>

definition strcasecmp_eq :: "string \<Rightarrow> string \<Rightarrow> bool" where
  "strcasecmp_eq s t \<longleftrightarrow> map tolower s = map tolower t"

definition strncasecmp_eq :: "string \<Rightarrow> string \<Rightarrow> nat \<Rightarrow> bool" where
  "strncasecmp_eq s t n \<longleftrightarrow> strcasecmp_eq (take n s) (take n t)"

text \<open>\<open>strstr\<close>: the first suffix that starts with the needle.\<close>

fun strstr :: "string \<Rightarrow> string \<Rightarrow> string option" where
  "strstr s needle =
     (if take (length needle) s = needle then Some s
      else case s of [] \<Rightarrow> None | _ # s' \<Rightarrow> strstr s' needle)"

declare strstr.simps [simp del]

lemma strstr_Some:
  "strstr s needle = Some r \<Longrightarrow> \<exists>pre. s = pre @ r \<and> take (length needle) r = needle"
proof (induction s needle rule: strstr.induct)
  case (1 s needle)
  show ?case
  proof (cases "take (length needle) s = needle")
    case True
    then show ?thesis using "1.prems" by (auto simp: strstr.simps [of s])
  next
    case False
    then obtain c s' where s: "s = c # s'" "strstr s' needle = Some r"
      using "1.prems" by (auto simp: strstr.simps [of s] split: list.splits)
    then obtain pre where "s' = pre @ r" "take (length needle) r = needle" using "1.IH" False by blast
    then have "s = (c # pre) @ r" using s by simp
    then show ?thesis using \<open>take (length needle) r = needle\<close> by blast
  qed
qed

lemma strstr_length: "strstr s needle = Some r \<Longrightarrow> length r \<le> length s \<and> length needle \<le> length r"
proof -
  assume "strstr s needle = Some r"
  then obtain pre where p: "s = pre @ r" "take (length needle) r = needle" using strstr_Some by blast
  have "length needle = length (take (length needle) r)" by (simp only: p(2))
  then show ?thesis using p(1) by simp
qed

text \<open>The copy \<open>snprintf(dst, size, "%s", src)\<close> makes into a buffer of \<open>size > 0\<close> bytes.\<close>

definition snprintf_str :: "nat \<Rightarrow> string \<Rightarrow> string" where
  "snprintf_str bytes s = take (bytes - 1) s"

subsection \<open>Decimal numbers\<close>

definition digit_char :: "nat \<Rightarrow> char" where
  "digit_char d = char_of (48 + d)"

definition digit_val :: "char \<Rightarrow> nat" where
  "digit_val c = code c - 48"

fun dec_digits :: "nat \<Rightarrow> string" where
  "dec_digits n = (if n < 10 then [digit_char n] else dec_digits (n div 10) @ [digit_char (n mod 10)])"

declare dec_digits.simps [simp del]

text \<open>What \<open>%d\<close> prints.\<close>

definition dec_int :: "int \<Rightarrow> string" where
  "dec_int z = (if z < 0 then CHR ''-'' # dec_digits (nat (- z)) else dec_digits (nat z))"

definition dec_value :: "string \<Rightarrow> nat" where
  "dec_value ds = foldl (\<lambda>a c. 10 * a + digit_val c) 0 ds"

lemma code_digit_char: "d < 10 \<Longrightarrow> code (digit_char d) = 48 + d"
  by (simp add: digit_char_def of_char_of take_bit_eq_mod)

lemma digit_val_char [simp]: "d < 10 \<Longrightarrow> digit_val (digit_char d) = d"
  by (simp add: digit_val_def code_digit_char)

lemma isdigit_digit_char [simp]: "d < 10 \<Longrightarrow> isdigit (digit_char d)"
  by (simp add: isdigit_def code_digit_char)

lemma dec_digits_digits: "\<forall>c\<in>set (dec_digits n). isdigit c"
proof (induction n rule: dec_digits.induct)
  case (1 n)
  then show ?case by (subst dec_digits.simps) auto
qed

lemma dec_digits_nonempty [simp]: "dec_digits n \<noteq> []"
  by (subst dec_digits.simps) auto

lemma dec_value_append: "dec_value (xs @ [c]) = 10 * dec_value xs + digit_val c"
  by (simp add: dec_value_def)

lemma dec_value_digits [simp]: "dec_value (dec_digits n) = n"
proof (induction n rule: dec_digits.induct)
  case (1 n)
  then show ?case
    by (subst dec_digits.simps) (auto simp: dec_value_append dec_value_def)
qed

lemma length_dec_digits: "n < 10 ^ k \<Longrightarrow> 0 < k \<Longrightarrow> length (dec_digits n) \<le> k"
proof (induction n arbitrary: k rule: dec_digits.induct)
  case (1 n)
  show ?case
  proof (cases "n < 10")
    case True
    then show ?thesis using "1.prems" by (subst dec_digits.simps) auto
  next
    case False
    then obtain m where k: "k = Suc m" "0 < m" using "1.prems" by (cases k; cases "k = 1") auto
    then have "n div 10 < 10 ^ m" using "1.prems" by (simp add: less_mult_imp_div_less)
    then have "length (dec_digits (n div 10)) \<le> m" using "1.IH" False k by blast
    then show ?thesis using False k by (subst dec_digits.simps) auto
  qed
qed

text \<open>A number text: no leading zero unless it is \<open>0\<close> itself; here only what callers need.\<close>

lemma dec_digits_takeWhile:
  "rest = [] \<or> \<not> isdigit (hd rest) \<Longrightarrow> takeWhile isdigit (dec_digits n @ rest) = dec_digits n"
  by (subst takeWhile_append2) (auto simp: dec_digits_digits takeWhile_eq_Nil_iff)

lemma dec_digits_dropWhile:
  "rest = [] \<or> \<not> isdigit (hd rest) \<Longrightarrow> dropWhile isdigit (dec_digits n @ rest) = rest"
  by (subst dropWhile_append2) (auto simp: dec_digits_digits dropWhile_eq_self_iff)

lemma dec_digits_Cons: "\<exists>c cs. dec_digits n = c # cs \<and> isdigit c"
  using dec_digits_digits [of n] by (cases "dec_digits n") auto

subsection \<open>strtol\<close>

definition LONG_MAX :: int where
  "LONG_MAX = 2 ^ 63 - 1"

definition LONG_MIN :: int where
  "LONG_MIN = - (2 ^ 63)"

definition sign_part :: "string \<Rightarrow> bool \<times> string" where
  "sign_part s = (case s of
     [] \<Rightarrow> (False, [])
   | c # cs \<Rightarrow> if c = CHR ''-'' then (True, cs) else if c = CHR ''+'' then (False, cs) else (False, s))"

text \<open>
  \<open>strtol(s, &end, 10)\<close>: the value, saturated, and \<open>end\<close>; with no digits \<open>end\<close> is \<open>s\<close> itself.
\<close>

definition strtol :: "string \<Rightarrow> int \<times> string" where
  "strtol s =
     (let (neg, s2) = sign_part (dropWhile isspace s);
          ds = takeWhile isdigit s2;
          v = (if neg then - int (dec_value ds) else int (dec_value ds))
      in if ds = [] then (0, s)
         else (max LONG_MIN (min LONG_MAX v), dropWhile isdigit s2))"

lemma sign_part_digit: "isdigit c \<Longrightarrow> sign_part (c # cs) = (False, c # cs)"
  by (auto simp: sign_part_def isdigit_def)

lemma strtol_dec:
  assumes "rest = [] \<or> \<not> isdigit (hd rest)" "int n \<le> LONG_MAX"
  shows "strtol (dec_digits n @ rest) = (int n, rest)"
proof -
  obtain c cs where d: "dec_digits n = c # cs" "isdigit c" using dec_digits_Cons by blast
  then have "dropWhile isspace (dec_digits n @ rest) = dec_digits n @ rest"
    by (simp add: isdigit_not_space)
  moreover have "sign_part (dec_digits n @ rest) = (False, dec_digits n @ rest)"
    using d by (simp add: sign_part_digit)
  moreover have "LONG_MIN \<le> int n" by (simp add: LONG_MIN_def)
  ultimately show ?thesis
    using assms by (simp add: strtol_def dec_digits_takeWhile dec_digits_dropWhile)
qed

end
