(* ===== verification/Sql.thy ===== *)
theory Sql
  imports CString
begin

section \<open>The SQL parser of src/sql.c\<close>

text \<open>
  \<open>src/include/sql.h\<close> and \<open>src/src/sql.c\<close>. A \<open>const char **p\<close> argument is the suffix it points
  at, returned updated; a function that returns 0 is \<open>None\<close>, or \<open>Inl\<close> of the message it stores.
  Output buffers are strings; their sizes are the limits the loops check. The contents of
  \<open>stmt\<close> after a failed parse are not modelled (no caller reads them).
\<close>

subsection \<open>Statements\<close>

datatype SqlType = SQL_INSERT | SQL_SELECT
datatype SqlWhereType = SQL_WHERE_NONE | SQL_WHERE_ID | SQL_WHERE_NAME
datatype SqlColumn = SQL_COLUMN_ID | SQL_COLUMN_NAME | SQL_COLUMN_AGE

definition DB_NAME_MAX :: nat where
  [simp]: "DB_NAME_MAX = 128"

definition SQL_MAX_SELECT_COLUMNS :: nat where
  [simp]: "SQL_MAX_SELECT_COLUMNS = 3"

definition INT_MAX :: int where
  "INT_MAX = 2147483647"

record SqlStatement =
  stmt_type :: SqlType
  table :: string
  insert_has_id :: bool
  insert_id :: int
  insert_name :: string
  insert_age :: int
  select_all :: bool
  select_columns :: "SqlColumn list"
  select_column_count :: nat
  where_type :: SqlWhereType
  where_id :: int
  where_name :: string

text \<open>\<open>memset(stmt, 0, sizeof(*stmt))\<close>\<close>

definition zero_stmt :: SqlStatement where
  "zero_stmt = \<lparr>stmt_type = SQL_INSERT, table = [], insert_has_id = False, insert_id = 0,
     insert_name = [], insert_age = 0, select_all = False,
     select_columns = replicate SQL_MAX_SELECT_COLUMNS SQL_COLUMN_ID, select_column_count = 0,
     where_type = SQL_WHERE_NONE, where_id = 0, where_name = []\<rparr>"

subsection \<open>Lexing\<close>

definition skip_ws :: "string \<Rightarrow> string" where
  "skip_ws p = dropWhile isspace p"

definition word_char :: "char \<Rightarrow> bool" where
  "word_char c \<longleftrightarrow> isalnum c \<or> c = CHR ''_''"

fun read_word_loop :: "nat \<Rightarrow> nat \<Rightarrow> string \<Rightarrow> (string \<times> string) option" where
  "read_word_loop out_size len [] = Some ([], [])"
| "read_word_loop out_size len (c # cur) =
     (if word_char c
      then if len + 1 \<ge> out_size then None
           else (case read_word_loop out_size (Suc len) cur of
                   None \<Rightarrow> None
                 | Some (w, rest) \<Rightarrow> Some (c # w, rest))
      else Some ([], c # cur))"

definition read_word :: "nat \<Rightarrow> string \<Rightarrow> (string \<times> string) option" where
  "read_word out_size p =
     (case skip_ws p of
        [] \<Rightarrow> None
      | c # cur \<Rightarrow>
          if \<not> (isalpha c \<or> c = CHR ''_'') then None
          else read_word_loop out_size 0 (c # cur))"

definition expect_keyword :: "string \<Rightarrow> string \<Rightarrow> string option" where
  "expect_keyword keyword p =
     (case read_word 64 p of
        None \<Rightarrow> None
      | Some (word, p1) \<Rightarrow> if strcasecmp_eq word keyword then Some p1 else None)"

definition expect_symbol :: "char \<Rightarrow> string \<Rightarrow> string option" where
  "expect_symbol symbol p =
     (case skip_ws p of
        [] \<Rightarrow> None
      | c # cur \<Rightarrow> if c \<noteq> symbol then None else Some cur)"

definition parse_int_value :: "string \<Rightarrow> (int \<times> string) option" where
  "parse_int_value p =
     (let cur = skip_ws p in
      if cur = [] then None
      else let (v, end_ptr) = strtol cur in
        if end_ptr = cur \<or> v < 0 \<or> v > 2147483647 then None
        else Some (v, end_ptr))"

fun string_literal_loop :: "nat \<Rightarrow> nat \<Rightarrow> string \<Rightarrow> (string \<times> string) option" where
  "string_literal_loop out_size len [] = None"
| "string_literal_loop out_size len (c # cur) =
     (if c = CHR 0x27 then Some ([], cur)
      else if len + 1 \<ge> out_size then None
      else (case string_literal_loop out_size (Suc len) cur of
              None \<Rightarrow> None
            | Some (s, rest) \<Rightarrow> Some (c # s, rest)))"

definition parse_string_literal :: "nat \<Rightarrow> string \<Rightarrow> (string \<times> string) option" where
  "parse_string_literal out_size p =
     (case skip_ws p of
        [] \<Rightarrow> None
      | c # cur \<Rightarrow> if c \<noteq> CHR 0x27 then None else string_literal_loop out_size 0 cur)"

definition at_statement_end :: "string \<Rightarrow> bool" where
  "at_statement_end p =
     (let p1 = skip_ws p;
          p2 = (case p1 of [] \<Rightarrow> p1 | c # cur \<Rightarrow> if c = CHR '';'' then skip_ws cur else p1)
      in p2 = [])"

subsection \<open>Columns\<close>

definition parse_column_name :: "string \<Rightarrow> (SqlColumn \<times> string) option" where
  "parse_column_name p =
     (case read_word 32 p of
        None \<Rightarrow> None
      | Some (word, p1) \<Rightarrow>
          if strcasecmp_eq word ''id'' then Some (SQL_COLUMN_ID, p1)
          else if strcasecmp_eq word ''name'' then Some (SQL_COLUMN_NAME, p1)
          else if strcasecmp_eq word ''age'' then Some (SQL_COLUMN_AGE, p1)
          else None)"

definition column_already_selected :: "SqlStatement \<Rightarrow> SqlColumn \<Rightarrow> bool" where
  "column_already_selected stmt column =
     list_ex (\<lambda>i. select_columns stmt ! i = column) [0..<select_column_count stmt]"

definition add_column :: "SqlStatement \<Rightarrow> SqlColumn \<Rightarrow> SqlStatement" where
  "add_column stmt column = stmt\<lparr>
     select_columns := (select_columns stmt)[select_column_count stmt := column],
     select_column_count := Suc (select_column_count stmt)\<rparr>"

function select_columns_loop :: "SqlStatement \<Rightarrow> string \<Rightarrow> string + SqlStatement \<times> string" where
  "select_columns_loop stmt p =
     (if select_column_count stmt \<ge> SQL_MAX_SELECT_COLUMNS then Inl ''too many SELECT columns''
      else
        case parse_column_name p of
          None \<Rightarrow> Inl ''expected SELECT column: id, name, or age''
        | Some (column, p1) \<Rightarrow>
            if column_already_selected stmt column then Inl ''duplicate SELECT column''
            else
              let stmt1 = add_column stmt column
              in case skip_ws p1 of
                   [] \<Rightarrow> Inr (stmt1, p1)
                 | c # cur \<Rightarrow> if c \<noteq> CHR '','' then Inr (stmt1, p1)
                               else select_columns_loop stmt1 cur)"
  by pat_completeness auto
termination
  by (relation "measure (\<lambda>(stmt, p). SQL_MAX_SELECT_COLUMNS - select_column_count stmt)") (auto simp: add_column_def)

declare select_columns_loop.simps [simp del]

definition parse_select_columns :: "SqlStatement \<Rightarrow> string \<Rightarrow> string + SqlStatement \<times> string" where
  "parse_select_columns stmt p =
     (let stmt0 = stmt\<lparr>select_all := False, select_column_count := 0\<rparr> in
      case skip_ws p of
        c # cur \<Rightarrow> if c = CHR ''*'' then Inr (stmt0\<lparr>select_all := True\<rparr>, cur)
                    else select_columns_loop stmt0 p
      | [] \<Rightarrow> select_columns_loop stmt0 p)"

subsection \<open>Statements\<close>

definition parse_insert_values_with_id :: "SqlStatement \<Rightarrow> string \<Rightarrow> string + SqlStatement" where
  "parse_insert_values_with_id stmt p =
     need ''expected '(' after VALUES'' (expect_symbol CHR ''('' p) (\<lambda>p.
     need ''expected positive id'' (parse_int_value p) (\<lambda>(id, p).
     check ''expected positive id'' (\<not> id \<le> 0) (
     need ''expected comma after id'' (expect_symbol CHR '','' p) (\<lambda>p.
     need ''expected single-quoted name'' (parse_string_literal DB_NAME_MAX p) (\<lambda>(name, p).
     need ''expected comma after name'' (expect_symbol CHR '','' p) (\<lambda>p.
     need ''expected non-negative age'' (parse_int_value p) (\<lambda>(age, p).
     need ''expected ')' after VALUES'' (expect_symbol CHR '')'' p) (\<lambda>p.
     check ''unexpected trailing tokens'' (at_statement_end p) (
     Inr (stmt\<lparr>insert_name := name, insert_age := age, insert_has_id := True, insert_id := id\<rparr>))))))))))"

text \<open>The form \<open>name age VALUES 'x' n\<close>: \<open>parse_insert\<close> from \<open>p = after_table\<close> on.\<close>

definition parse_insert_name_age :: "SqlStatement \<Rightarrow> string \<Rightarrow> string + SqlStatement" where
  "parse_insert_name_age stmt after_table =
     (let msg = ''expected VALUES (id, 'name', age) or columns: name age'' in
      need msg (read_word 32 after_table) (\<lambda>(col1, p).
      need msg (read_word 32 p) (\<lambda>(col2, p).
      check msg (strcasecmp_eq col1 ''name'') (
      check msg (strcasecmp_eq col2 ''age'') (
      need ''expected VALUES'' (expect_keyword ''VALUES'' p) (\<lambda>p.
      need ''expected single-quoted name'' (parse_string_literal DB_NAME_MAX p) (\<lambda>(name, p).
      need ''expected non-negative age'' (parse_int_value p) (\<lambda>(age, p).
      check ''unexpected trailing tokens'' (at_statement_end p) (
      Inr (stmt\<lparr>insert_name := name, insert_age := age, stmt_type := SQL_INSERT,
                 insert_has_id := False, table := ''users''\<rparr>))))))))))"

definition parse_insert :: "string \<Rightarrow> SqlStatement \<Rightarrow> string + SqlStatement" where
  "parse_insert sql stmt =
     need ''expected INSERT INTO'' (expect_keyword ''INSERT'' sql) (\<lambda>p.
     need ''expected INSERT INTO'' (expect_keyword ''INTO'' p) (\<lambda>p.
     need ''only table users is supported'' (read_word 32 p) (\<lambda>(tbl, after_table).
     check ''only table users is supported'' (strcasecmp_eq tbl ''users'') (
     let stmt = stmt\<lparr>table := tbl\<rparr> in
     case expect_keyword ''VALUES'' after_table of
       Some p \<Rightarrow>
         ok_then (parse_insert_values_with_id stmt p) (\<lambda>stmt.
         Inr (stmt\<lparr>stmt_type := SQL_INSERT, table := ''users''\<rparr>))
     | None \<Rightarrow> parse_insert_name_age stmt after_table))))"

text \<open>\<open>parse_select\<close> from \<open>WHERE\<close> on.\<close>

definition parse_where :: "SqlStatement \<Rightarrow> string \<Rightarrow> string + SqlStatement" where
  "parse_where stmt p =
     need ''expected WHERE or statement end'' (expect_keyword ''WHERE'' p) (\<lambda>p.
     need ''expected WHERE column = value'' (read_word 32 p) (\<lambda>(column, p).
     need ''expected WHERE column = value'' (expect_symbol CHR ''='' p) (\<lambda>p.
     if strcasecmp_eq column ''id'' then
       need ''expected numeric id'' (parse_int_value p) (\<lambda>(v, p).
       check ''unexpected trailing tokens'' (at_statement_end p)
         (Inr (stmt\<lparr>where_type := SQL_WHERE_ID, where_id := v\<rparr>)))
     else if strcasecmp_eq column ''name'' then
       need ''expected single-quoted name'' (parse_string_literal DB_NAME_MAX p) (\<lambda>(s, p).
       check ''unexpected trailing tokens'' (at_statement_end p)
         (Inr (stmt\<lparr>where_type := SQL_WHERE_NAME, where_name := s\<rparr>)))
     else Inl ''only WHERE id or WHERE name is supported'')))"

definition parse_select :: "string \<Rightarrow> SqlStatement \<Rightarrow> string + SqlStatement" where
  "parse_select sql stmt =
     need ''expected SELECT'' (expect_keyword ''SELECT'' sql) (\<lambda>p.
     ok_then (parse_select_columns stmt p) (\<lambda>(stmt, p).
     need ''expected FROM'' (expect_keyword ''FROM'' p) (\<lambda>p.
     need ''only table users is supported'' (read_word 32 p) (\<lambda>(tbl, p).
     check ''only table users is supported'' (strcasecmp_eq tbl ''users'') (
     let stmt = stmt\<lparr>stmt_type := SQL_SELECT, where_type := SQL_WHERE_NONE, table := ''users''\<rparr> in
     if at_statement_end p then Inr stmt else parse_where stmt p)))))"

definition sql_parse :: "string \<Rightarrow> string + SqlStatement" where
  "sql_parse sql =
     (let p = skip_ws sql; stmt = zero_stmt in
      if p = [] then Inl ''empty SQL''
      else if strncasecmp_eq p ''INSERT'' 6 then parse_insert p stmt
      else if strncasecmp_eq p ''SELECT'' 6 then parse_select p stmt
      else Inl ''only INSERT and SELECT are supported'')"

end
