(* ===== verification/Libc.thy ===== *)
theory Libc
  imports Main
begin

section \<open>The environment: calls that may fail\<close>

text \<open>
  Every call into the C library or the kernel that the program checks for failure
  (\<open>malloc\<close>, \<open>calloc\<close>, \<open>realloc\<close>, \<open>fopen\<close>, \<open>fprintf\<close>, \<open>fclose\<close>, the lock calls) draws the next
  answer of an oracle: the \<open>n\<close>-th such call of a run succeeds iff \<open>grant n\<close>. Theorems are
  about every oracle; \<open>granted os os'\<close> says that no call between two points of a run failed.
  The record is extensible: components with more environment (a file, a clock) extend it and
  still use the functions that are stated here for any extension.
\<close>

record os =
  calls :: nat
  grant :: "nat \<Rightarrow> bool"

definition sys_call :: "'w os_scheme \<Rightarrow> bool \<times> 'w os_scheme" where
  "sys_call os = (grant os (calls os), os\<lparr>calls := Suc (calls os)\<rparr>)"

text \<open>
  A successful allocation returns a fresh non-NULL address; addresses are the numbers of the
  calls, so two allocations never return the same one (freed memory is not reused: the program
  frees tree nodes only when it destroys the tree). \<open>None\<close> is \<open>NULL\<close>.
\<close>

definition alloc :: "'w os_scheme \<Rightarrow> nat option \<times> 'w os_scheme" where
  "alloc os = (let (ok, os') = sys_call os in (if ok then Some (Suc (calls os)) else None, os'))"

definition granted :: "'w os_scheme \<Rightarrow> 'w os_scheme \<Rightarrow> bool" where
  "granted os os' \<longleftrightarrow> (\<forall>n. calls os \<le> n \<and> n < calls os' \<longrightarrow> grant os n)"

text \<open>The environment in which no call fails.\<close>

definition never_fails :: "'w os_scheme \<Rightarrow> bool" where
  "never_fails os \<longleftrightarrow> grant os = (\<lambda>_. True)"

text \<open>
  \<open>goes_to os os'\<close>: a run can have gone from \<open>os\<close> to \<open>os'\<close>, calls are only added and the
  oracle stays. \<open>runs_to os os'\<close>: moreover nothing else of the environment has changed.
\<close>

definition goes_to :: "'w os_scheme \<Rightarrow> 'w os_scheme \<Rightarrow> bool" where
  "goes_to os os' \<longleftrightarrow> calls os \<le> calls os' \<and> grant os' = grant os"

definition runs_to :: "'w os_scheme \<Rightarrow> 'w os_scheme \<Rightarrow> bool" where
  "runs_to os os' \<longleftrightarrow> calls os \<le> calls os' \<and> os' = os\<lparr>calls := calls os'\<rparr>"

lemma runs_to_goes_to: "runs_to os os' \<Longrightarrow> goes_to os os'"
  by (auto simp: runs_to_def goes_to_def) (metis os.select_convs(2) os.surjective os.update_convs(1))

lemma goes_to_refl [simp, intro]: "goes_to os os"
  by (simp add: goes_to_def)

lemma goes_to_trans [trans]: "goes_to a b \<Longrightarrow> goes_to b c \<Longrightarrow> goes_to a c"
  by (simp add: goes_to_def)

lemma runs_to_refl [simp, intro]: "runs_to os os"
  by (simp add: runs_to_def)

lemma runs_to_trans [trans]:
  assumes "runs_to a b" "runs_to b c"
  shows "runs_to a c"
proof -
  have b: "b = a\<lparr>calls := calls b\<rparr>" and c: "c = b\<lparr>calls := calls c\<rparr>" using assms by (simp_all add: runs_to_def)
  have "c = a\<lparr>calls := calls b\<rparr>\<lparr>calls := calls c\<rparr>" using c by (subst (asm) b)
  then show ?thesis using assms by (simp add: runs_to_def)
qed

lemma runs_to_sys_call [intro]: "sys_call os = (ok, os') \<Longrightarrow> runs_to os os'"
  by (auto simp: sys_call_def runs_to_def)

lemma runs_to_alloc [intro]: "alloc os = (a, os') \<Longrightarrow> runs_to os os'"
  by (auto simp: alloc_def sys_call_def runs_to_def)

lemma sys_call_granted: "sys_call os = (ok, os') \<Longrightarrow> granted os os' \<Longrightarrow> ok"
  by (auto simp: sys_call_def granted_def)

lemma alloc_None_refused: "alloc os = (None, os') \<Longrightarrow> \<not> granted os os'"
  by (auto simp: alloc_def sys_call_def granted_def split: if_splits)

lemma granted_before: "granted a c \<Longrightarrow> goes_to b c \<Longrightarrow> granted a b"
  by (auto simp: granted_def goes_to_def)

lemma granted_after: "granted a c \<Longrightarrow> goes_to a b \<Longrightarrow> granted b c"
  by (auto simp: granted_def goes_to_def)

lemma granted_left: "granted a c \<Longrightarrow> runs_to b c \<Longrightarrow> granted a b"
  by (rule granted_before) (auto dest: runs_to_goes_to)

lemma granted_right: "granted a c \<Longrightarrow> runs_to a b \<Longrightarrow> granted b c"
  by (rule granted_after) (auto dest: runs_to_goes_to)

lemma never_fails_granted: "never_fails os \<Longrightarrow> granted os os'"
  by (simp add: never_fails_def granted_def)

lemma never_fails_goes_to: "never_fails os \<Longrightarrow> goes_to os os' \<Longrightarrow> never_fails os'"
  by (simp add: never_fails_def goes_to_def)

lemma never_fails_runs_to: "never_fails os \<Longrightarrow> runs_to os os' \<Longrightarrow> never_fails os'"
  by (auto dest: runs_to_goes_to never_fails_goes_to)

subsection \<open>\<open>size_t\<close> arithmetic\<close>

text \<open>\<open>size_t\<close> has 64 bits: values are naturals below \<open>2 ^ 64\<close>, the operations wrap.\<close>

definition SIZE_MAX :: nat where
  "SIZE_MAX = 18446744073709551615"

definition size_add :: "nat \<Rightarrow> nat \<Rightarrow> nat" where
  "size_add a b = (a + b) mod Suc SIZE_MAX"

definition size_sub :: "nat \<Rightarrow> nat \<Rightarrow> nat" where
  "size_sub a b = (a + (Suc SIZE_MAX - b)) mod Suc SIZE_MAX"

definition size_mul :: "nat \<Rightarrow> nat \<Rightarrow> nat" where
  "size_mul a b = (a * b) mod Suc SIZE_MAX"

lemma size_add_exact: "a + b \<le> SIZE_MAX \<Longrightarrow> size_add a b = a + b"
  by (simp add: size_add_def)

lemma size_mul_exact: "a * b \<le> SIZE_MAX \<Longrightarrow> size_mul a b = a * b"
  by (simp add: size_mul_def)

lemma size_sub_exact:
  assumes "b \<le> a" "a \<le> SIZE_MAX"
  shows "size_sub a b = a - b"
proof -
  have "a + (Suc SIZE_MAX - b) = (a - b) + Suc SIZE_MAX" using assms by simp
  moreover have "a - b < Suc SIZE_MAX" using assms by simp
  ultimately show ?thesis unfolding size_sub_def by (simp only: mod_add_self2 mod_less)
qed

subsection \<open>Memory blocks\<close>

text \<open>
  A block obtained from the allocator is the list of its cells; a cell is \<open>None\<close> until it is
  written. A write outside the block, or reading a cell that was never written, is undefined
  behaviour: the functions that do it return \<open>None\<close>, so a theorem that a function returns
  \<open>Some\<close> is one of memory safety.
\<close>

definition fresh_block :: "nat \<Rightarrow> 'a option list" where
  "fresh_block n = replicate n None"

definition resize_block :: "nat \<Rightarrow> 'a option list \<Rightarrow> 'a option list" where
  "resize_block n buf = take n buf @ replicate (n - length buf) None"

definition write_at :: "nat \<Rightarrow> 'a list \<Rightarrow> 'a option list \<Rightarrow> 'a option list option" where
  "write_at off xs buf =
     (if off + length xs \<le> length buf
      then Some (take off buf @ map Some xs @ drop (off + length xs) buf) else None)"

definition read_at :: "nat \<Rightarrow> 'a option list \<Rightarrow> 'a option" where
  "read_at i buf = (if i < length buf then buf ! i else None)"

text \<open>The C string that starts a block: it must end with a NUL inside the block.\<close>

fun c_string :: "char option list \<Rightarrow> string option" where
  "c_string [] = None"
| "c_string (None # cs) = None"
| "c_string (Some c # cs) =
     (if c = CHR 0x00 then Some [] else map_option ((#) c) (c_string cs))"

lemma length_fresh_block [simp]: "length (fresh_block n) = n"
  by (simp add: fresh_block_def)

lemma length_resize_block [simp]: "length (resize_block n buf) = n"
  by (simp add: resize_block_def)

lemma take_resize_block: "k \<le> length buf \<Longrightarrow> k \<le> n \<Longrightarrow> take k (resize_block n buf) = take k buf"
  by (simp add: resize_block_def min_def)

lemma nth_resize_block: "k < length buf \<Longrightarrow> k < n \<Longrightarrow> resize_block n buf ! k = buf ! k"
  by (simp add: resize_block_def nth_append)

lemma length_write_at: "write_at off xs buf = Some buf' \<Longrightarrow> length buf' = length buf"
  by (auto simp: write_at_def split: if_splits)

lemma write_at_Some: "off + length xs \<le> length buf \<Longrightarrow>
    write_at off xs buf = Some (take off buf @ map Some xs @ drop (off + length xs) buf)"
  by (simp add: write_at_def)

text \<open>\<open>write_ok\<close>: what a successful write leaves in a block that started with \<open>map Some s\<close>.\<close>

lemma write_at_prefix:
  assumes "take (length s) buf = map Some s" "length s + length xs \<le> length buf"
  shows "\<exists>buf'. write_at (length s) xs buf = Some buf' \<and> length buf' = length buf \<and>
    take (length s + length xs) buf' = map Some (s @ xs)"
proof -
  have "length (take (length s) buf) = length s" using assms(2) by simp
  then show ?thesis using assms by (auto simp: write_at_def)
qed

lemma c_string_prefix:
  "CHR 0x00 \<notin> set s \<Longrightarrow> take (Suc (length s)) buf = map Some (s @ [CHR 0x00]) \<Longrightarrow> c_string buf = Some s"
proof (induction s arbitrary: buf)
  case Nil
  then show ?case by (cases buf) auto
next
  case (Cons c s)
  then show ?case by (cases buf) auto
qed

end
