(* ===== verification/JsonUtil.thy ===== *)
theory JsonUtil
  imports CString Libc
begin

section \<open>The JSON builder and string escaping of src/util.c\<close>

text \<open>
  \<open>src/include/util.h\<close> and \<open>src/src/util.c\<close>: the growing text buffer every response is written
  into, with its block of memory and the \<open>size_t\<close> arithmetic of its growth written out. A
  function returns \<open>None\<close> when it would access memory outside the block or loop for ever;
  \<open>JsonCorrect\<close> shows that neither happens. \<open>malloc\<close>, \<open>realloc\<close> and the \<open>printf\<close> calls
  ask the oracle of \<open>Libc\<close> whether they succeed.
\<close>

record JsonBuilder =
  jb_data :: "char option list option"
  jb_len :: nat
  jb_cap :: nat

subsection \<open>Growing\<close>

definition json_builder_init :: "'w os_scheme \<Rightarrow> bool \<times> 'w os_scheme \<times> JsonBuilder" where
  "json_builder_init os =
     (let (ok, os') = sys_call os
      in if \<not> ok then (False, os', \<lparr>jb_data = None, jb_len = 0, jb_cap = 256\<rparr>)
         else (True, os', \<lparr>jb_data = Some ((fresh_block 256)[0 := Some CHR 0x00]), jb_len = 0, jb_cap = 256\<rparr>))"

definition json_builder_free :: "JsonBuilder \<Rightarrow> JsonBuilder" where
  "json_builder_free b = b\<lparr>jb_data := None, jb_len := 0, jb_cap := 0\<rparr>"

text \<open>The doubling loop: \<open>Some None\<close> is the early \<open>return 0\<close>.\<close>

partial_function (option) grow_cap :: "nat \<Rightarrow> nat \<Rightarrow> nat option option" where
  [code]: "grow_cap next_cap needed =
     (if next_cap < needed
      then if next_cap > SIZE_MAX div 2 then Some None
           else grow_cap (size_mul next_cap 2) needed
      else Some (Some next_cap))"

definition json_builder_reserve ::
    "nat \<Rightarrow> 'w os_scheme \<times> JsonBuilder \<Rightarrow> (bool \<times> 'w os_scheme \<times> JsonBuilder) option" where
  "json_builder_reserve extra = (\<lambda>(os, b).
     if extra > size_sub (size_sub SIZE_MAX (jb_len b)) 1 then Some (False, os, b)
     else
       let needed = size_add (size_add (jb_len b) extra) 1
       in if needed \<le> jb_cap b then Some (True, os, b)
          else case grow_cap (if jb_cap b = 0 then 256 else jb_cap b) needed of
                 None \<Rightarrow> None
               | Some None \<Rightarrow> Some (False, os, b)
               | Some (Some next_cap) \<Rightarrow>
                   let (ok, os') = sys_call os
                   in if \<not> ok then Some (False, os', b)
                      else
                        let old = (case jb_data b of None \<Rightarrow> [] | Some buf \<Rightarrow> buf)
                        in Some (True, os', b\<lparr>jb_data := Some (resize_block next_cap old), jb_cap := next_cap\<rparr>))"

subsection \<open>Appending\<close>

text \<open>Bytes written at \<open>builder->data + off\<close>; writing through \<open>NULL\<close> is undefined.\<close>

definition jb_write :: "nat \<Rightarrow> string \<Rightarrow> JsonBuilder \<Rightarrow> JsonBuilder option" where
  "jb_write off bytes b =
     (case jb_data b of
        None \<Rightarrow> None
      | Some buf \<Rightarrow> (case write_at off bytes buf of
                      None \<Rightarrow> None
                    | Some buf' \<Rightarrow> Some (b\<lparr>jb_data := Some buf'\<rparr>)))"

definition json_builder_append ::
    "string \<Rightarrow> 'w os_scheme \<times> JsonBuilder \<Rightarrow> (bool \<times> 'w os_scheme \<times> JsonBuilder) option" where
  "json_builder_append str s =
     (let len = length str
      in case json_builder_reserve len s of
           None \<Rightarrow> None
         | Some (ok, os, b) \<Rightarrow>
             if \<not> ok then Some (False, os, b)
             else case jb_write (jb_len b) (str @ [CHR 0x00]) b of
                    None \<Rightarrow> None
                  | Some b' \<Rightarrow> Some (True, os, b'\<lparr>jb_len := size_add (jb_len b') len\<rparr>))"

text \<open>
  \<open>vsnprintf(data + len, room, ...)\<close> of a formatted text: at most \<open>room - 1\<close> bytes and a NUL,
  nothing when \<open>room\<close> is 0.
\<close>

definition vsnprintf_at :: "nat \<Rightarrow> nat \<Rightarrow> string \<Rightarrow> JsonBuilder \<Rightarrow> JsonBuilder option" where
  "vsnprintf_at off room out b =
     (if room = 0 then Some b else jb_write off (take (room - 1) out @ [CHR 0x00]) b)"

text \<open>
  The retry loop of \<open>json_builder_appendf\<close>; \<open>out\<close> is what the format and its arguments expand
  to (the program only uses \<open>%d\<close>).
\<close>

partial_function (option) json_builder_appendf ::
    "string \<Rightarrow> 'w os_scheme \<times> JsonBuilder \<Rightarrow> (bool \<times> 'w os_scheme \<times> JsonBuilder) option" where
  [code]: "json_builder_appendf out s =
     (case sys_call (fst s) of (ok, os) \<Rightarrow>
        case vsnprintf_at (jb_len (snd s)) (size_sub (jb_cap (snd s)) (jb_len (snd s))) out (snd s) of
          None \<Rightarrow> None
        | Some b \<Rightarrow>
            if \<not> ok then Some (False, os, snd s)
            else if size_add (jb_len b) (length out) < jb_cap b
            then Some (True, os, b\<lparr>jb_len := size_add (jb_len b) (length out)\<rparr>)
            else case json_builder_reserve (size_add (length out) 1) (os, b) of
                   None \<Rightarrow> None
                 | Some (rok, s') \<Rightarrow>
                     if \<not> rok then Some (False, s') else json_builder_appendf out s')"

subsection \<open>Escaping\<close>

definition hex_digit :: "nat \<Rightarrow> char" where
  "hex_digit d = ''0123456789abcdef'' ! d"

text \<open>\<open>%04x\<close> of a value below 65536.\<close>

definition hex4 :: "nat \<Rightarrow> string" where
  "hex4 n = [hex_digit (n div 4096 mod 16), hex_digit (n div 256 mod 16),
             hex_digit (n div 16 mod 16), hex_digit (n mod 16)]"

text \<open>
  The loop of \<open>json_escape_dup\<close> over the bytes of the input, with the output block and \<open>pos\<close>:
  \<open>None\<close> is an access outside \<open>out\<close>, \<open>Some None\<close> the \<open>return NULL\<close> of a failed \<open>snprintf\<close>.
\<close>

definition emit :: "string \<Rightarrow> char option list \<times> nat \<Rightarrow> (char option list \<times> nat) option" where
  "emit bytes = (\<lambda>(out, pos).
     case write_at pos bytes out of None \<Rightarrow> None | Some out' \<Rightarrow> Some (out', pos + length bytes))"

definition emit_unicode :: "nat \<Rightarrow> char option list \<times> nat \<Rightarrow> (char option list \<times> nat) option" where
  "emit_unicode ch = (\<lambda>(out, pos).
     let bytes = BACKSLASH # CHR ''u'' # hex4 ch;
         room = size_sub (length out) pos
     in if room = 0 then Some (out, pos + length bytes)
        else case write_at pos (take (room - 1) bytes @ [CHR 0x00]) out of
               None \<Rightarrow> None
             | Some out' \<Rightarrow> Some (out', pos + length bytes))"

fun escape_loop ::
    "string \<Rightarrow> 'w os_scheme \<Rightarrow> char option list \<times> nat \<Rightarrow> ('w os_scheme \<times> (char option list \<times> nat) option) option" where
  "escape_loop [] os st = Some (os, Some st)"
| "escape_loop (c # cs) os st =
     (let continue = (\<lambda>r. case r of None \<Rightarrow> None | Some st' \<Rightarrow> escape_loop cs os st')
      in if c = DQUOTE then continue (emit [BACKSLASH, DQUOTE] st)
         else if c = BACKSLASH then continue (emit [BACKSLASH, BACKSLASH] st)
         else if code c = 10 then continue (emit [BACKSLASH, CHR ''n''] st)
         else if code c = 13 then continue (emit [BACKSLASH, CHR ''r''] st)
         else if code c = 9 then continue (emit [BACKSLASH, CHR ''t''] st)
         else if code c < 32
         then (let (ok, os') = sys_call os
               in case emit_unicode (code c) st of
                    None \<Rightarrow> None
                  | Some st' \<Rightarrow> if \<not> ok then Some (os', None) else escape_loop cs os' st')
         else continue (emit [c] st))"

definition json_escape_dup :: "string \<Rightarrow> 'w os_scheme \<Rightarrow> ('w os_scheme \<times> char option list option) option" where
  "json_escape_dup input os =
     (let len = length input
      in if len > size_sub SIZE_MAX 1 div 6 then Some (os, None)
         else
           let cap = size_add (size_mul len 6) 1;
               (ok, os1) = sys_call os
           in if \<not> ok then Some (os1, None)
              else case escape_loop input os1 (fresh_block cap, 0) of
                     None \<Rightarrow> None
                   | Some (os2, None) \<Rightarrow> Some (os2, None)
                   | Some (os2, Some (out, pos)) \<Rightarrow>
                       (case write_at pos [CHR 0x00] out of
                          None \<Rightarrow> None
                        | Some out' \<Rightarrow> Some (os2, Some out')))"

definition json_builder_append_string ::
    "string \<Rightarrow> 'w os_scheme \<times> JsonBuilder \<Rightarrow> (bool \<times> 'w os_scheme \<times> JsonBuilder) option" where
  "json_builder_append_string str = (\<lambda>(os, b).
     case json_escape_dup str os of
       None \<Rightarrow> None
     | Some (os1, None) \<Rightarrow> Some (False, os1, b)
     | Some (os1, Some out) \<Rightarrow>
         (case c_string out of
            None \<Rightarrow> None
          | Some escaped \<Rightarrow>
              chain [json_builder_append [DQUOTE], json_builder_append escaped, json_builder_append [DQUOTE]]
                (os1, b)))"

definition json_builder_take :: "JsonBuilder \<Rightarrow> char option list option \<times> JsonBuilder" where
  "json_builder_take b = (jb_data b, b\<lparr>jb_data := None, jb_len := 0, jb_cap := 0\<rparr>)"

end
