(* ===== verification/BpTree.thy ===== *)
theory BpTree
  imports Prelude Libc
begin

section \<open>The B+ tree of src/bptree.c: nodes and operations\<close>

text \<open>
  \<open>src/include/bptree.h\<close> and \<open>src/src/bptree.c\<close>, translated at the level of the arrays: a
  node holds arrays of the declared lengths of which \<open>num_keys\<close> (children: one more) are in
  use, and the loops shift and copy array cells as the C does. Each node has one parent, so the
  pointer structure is a tree of values; \<open>NULL\<close> is a constructor. The only pointers to shared
  nodes are the leaf links \<open>next\<close>, kept as addresses (\<open>0\<close> is \<open>NULL\<close>), with each node's own
  address. Following a \<open>NULL\<close> child in \<open>node_insert\<close> is undefined behaviour in C and \<open>None\<close>
  here. Keys are \<open>int\<close>s that are compared but never computed with.
\<close>

definition BPTREE_MAX_KEYS :: nat where
  [simp]: "BPTREE_MAX_KEYS = 31"

datatype bpnode =
  is_Null: Null
| BpNode (node_addr: nat) (is_leaf: bool) (num_keys: nat) (keys: "int list")
    (children: "bpnode list") (vals: "nat list") (next_addr: nat)

record BPlusTree =
  root :: bpnode
  tree_size :: nat

record InsertResult =
  split :: bool
  promoted_key :: int
  right :: bpnode
  inserted_new :: bool

text \<open>\<open>node->children[i]\<close>; an index past the array would read no node.\<close>

definition child_at :: "bpnode list \<Rightarrow> nat \<Rightarrow> bpnode" where
  "child_at cs i = (if i < length cs then cs ! i else Null)"

lemma size_child_at [termination_simp]: "size (child_at cs i) < Suc (size_list size cs)"
proof (cases "i < length cs")
  case True
  then have "size (cs ! i) \<le> size_list size cs"
    by (intro size_list_estimation' [where x = "cs ! i"]) auto
  with True show ?thesis by (simp add: child_at_def)
qed (simp add: child_at_def)

lemma size_take_child [termination_simp]: "x \<in> set (take n cs) \<Longrightarrow> size x < Suc (size_list size cs)"
  by (meson in_set_takeD le_imp_less_Suc order_refl size_list_estimation')

text \<open>\<open>calloc\<close>: every field of the new node is zero but \<open>is_leaf\<close>.\<close>

definition node_create :: "bool \<Rightarrow> 'w os_scheme \<Rightarrow> bpnode \<times> 'w os_scheme" where
  "node_create leaf os =
     (case alloc os of
        (None, os') \<Rightarrow> (Null, os')
      | (Some a, os') \<Rightarrow>
          (BpNode a leaf 0 (replicate BPTREE_MAX_KEYS 0) (replicate (BPTREE_MAX_KEYS + 1) Null)
             (replicate BPTREE_MAX_KEYS 0) 0, os'))"

text \<open>The addresses passed to \<open>free\<close>, in order.\<close>

fun node_destroy :: "bpnode \<Rightarrow> nat list" where
  "node_destroy Null = []"
| "node_destroy (BpNode a leaf n ks cs vs nx) =
     (if leaf then [] else concat (map node_destroy (take (Suc n) cs))) @ [a]"

definition bptree_init :: BPlusTree where
  "bptree_init = \<lparr>root = Null, tree_size = 0\<rparr>"

definition bptree_destroy :: "BPlusTree \<Rightarrow> nat list \<times> BPlusTree" where
  "bptree_destroy tree = (node_destroy (root tree), \<lparr>root = Null, tree_size = 0\<rparr>)"

subsection \<open>Searching a node\<close>

text \<open>\<open>while (pos < num_keys && keys[pos] < key) pos++;\<close>\<close>

function find_position_loop :: "nat \<Rightarrow> int list \<Rightarrow> int \<Rightarrow> nat \<Rightarrow> nat" where
  "find_position_loop n ks key pos =
     (if pos < n \<and> ks ! pos < key then find_position_loop n ks key (Suc pos) else pos)"
  by pat_completeness auto
termination
  by (relation "measure (\<lambda>(n, ks, key, pos). n - pos)") auto

definition leaf_find_position :: "bpnode \<Rightarrow> int \<Rightarrow> nat" where
  "leaf_find_position leaf key = find_position_loop (num_keys leaf) (keys leaf) key 0"

text \<open>\<open>while (idx < num_keys && key >= keys[idx]) idx++;\<close>\<close>

function child_index_loop :: "nat \<Rightarrow> int list \<Rightarrow> int \<Rightarrow> nat \<Rightarrow> nat" where
  "child_index_loop n ks key idx =
     (if idx < n \<and> key \<ge> ks ! idx then child_index_loop n ks key (Suc idx) else idx)"
  by pat_completeness auto
termination
  by (relation "measure (\<lambda>(n, ks, key, idx). n - idx)") auto

definition child_index_for_key :: "bpnode \<Rightarrow> int \<Rightarrow> nat" where
  "child_index_for_key node key = child_index_loop (num_keys node) (keys node) key 0"

declare find_position_loop.simps [simp del] child_index_loop.simps [simp del]

subsection \<open>Insertion into a leaf\<close>

definition no_split :: "bool \<Rightarrow> InsertResult" where
  "no_split new = \<lparr>split = False, promoted_key = 0, right = Null, inserted_new = new\<rparr>"

definition leaf_insert ::
    "'w os_scheme \<Rightarrow> bpnode \<Rightarrow> int \<Rightarrow> nat \<Rightarrow> 'w os_scheme \<times> bpnode \<times> InsertResult" where
  "leaf_insert os leaf key value =
    (let a = node_addr leaf; lf = is_leaf leaf; n = num_keys leaf; ks = keys leaf;
         cs = children leaf; vs = vals leaf; nx = next_addr leaf;
         pos = leaf_find_position leaf key
     in if pos < n \<and> ks ! pos = key
        then (os, BpNode a lf n ks cs (vs[pos := value]) nx, no_split False)
        else if n < BPTREE_MAX_KEYS
        then (os, BpNode a lf (Suc n) ((shift_right n pos ks)[pos := key]) cs
                    ((shift_right n pos vs)[pos := value]) nx, no_split True)
        else
          let tot = BPTREE_MAX_KEYS + 1;
              temp_keys = build_temp (replicate tot 0) ks key pos tot;
              temp_values = build_temp (replicate tot 0) vs value pos tot
          in case node_create True os of
               (Null, os1) \<Rightarrow> (os1, leaf, no_split False)
             | (BpNode ra rlf rn rks rcs rvs rnx, os1) \<Rightarrow>
                 let left_count = tot div 2;
                     right_count = tot - left_count;
                     right_keys = copy_block rks temp_keys left_count right_count
                 in (os1,
                     BpNode a lf left_count (copy_block ks temp_keys 0 left_count) cs
                       (copy_block vs temp_values 0 left_count) ra,
                     \<lparr>split = True, promoted_key = right_keys ! 0,
                      right = BpNode ra rlf right_count right_keys rcs
                        (copy_block rvs temp_values left_count right_count) nx,
                      inserted_new = True\<rparr>))"

subsection \<open>Insertion below an inner node\<close>

text \<open>
  The part of \<open>node_insert\<close> after the recursive call, when the child was split: link the new
  right sibling, splitting the node when it is full.
\<close>

definition node_link ::
    "'w os_scheme \<Rightarrow> bpnode \<Rightarrow> nat \<Rightarrow> InsertResult \<Rightarrow> 'w os_scheme \<times> bpnode \<times> InsertResult" where
  "node_link os node child_idx child_result =
    (let a = node_addr node; lf = is_leaf node; n = num_keys node; ks = keys node;
         cs = children node; vs = vals node; nx = next_addr node
     in if n < BPTREE_MAX_KEYS
        then (os, BpNode a lf (Suc n)
                    ((shift_right n child_idx ks)[child_idx := promoted_key child_result])
                    ((shift_right (n + 1) (child_idx + 1) cs)[child_idx + 1 := right child_result])
                    vs nx, no_split (inserted_new child_result))
        else
          let total_keys = BPTREE_MAX_KEYS + 1;
              temp_keys = build_temp (replicate total_keys 0) ks (promoted_key child_result)
                            child_idx total_keys;
              temp_children = build_temp (replicate (total_keys + 1) Null) cs (right child_result)
                                (child_idx + 1) (total_keys + 1)
          in case node_create False os of
               (Null, os1) \<Rightarrow> (os1, node, no_split False)
             | (BpNode ra rlf rn rks rcs rvs rnx, os1) \<Rightarrow>
                 let mid = total_keys div 2;
                     left_keys = mid;
                     right_keys = total_keys - mid - 1
                 in (os1,
                     BpNode a lf left_keys (copy_block ks temp_keys 0 left_keys)
                       (fill_block (copy_block cs temp_children 0 (Suc left_keys)) Null
                          (left_keys + 1) (BPTREE_MAX_KEYS + 1))
                       vs nx,
                     \<lparr>split = True, promoted_key = temp_keys ! mid,
                      right = BpNode ra rlf right_keys
                        (copy_block rks temp_keys (mid + 1) right_keys)
                        (copy_block rcs temp_children (mid + 1) (Suc right_keys)) rvs rnx,
                      inserted_new = inserted_new child_result\<rparr>))"

fun node_insert ::
    "'w os_scheme \<Rightarrow> bpnode \<Rightarrow> int \<Rightarrow> nat \<Rightarrow> ('w os_scheme \<times> bpnode \<times> InsertResult) option" where
  "node_insert os Null key value = None"
| "node_insert os (BpNode a leaf n ks cs vs nx) key value =
    (let node = BpNode a leaf n ks cs vs nx
     in if leaf then Some (leaf_insert os node key value)
        else
          let child_idx = child_index_for_key node key
          in case node_insert os (child_at cs child_idx) key value of
               None \<Rightarrow> None
             | Some (os1, child, child_result) \<Rightarrow>
                 let node1 = BpNode a leaf n ks (cs[child_idx := child]) vs nx
                 in if \<not> split child_result then Some (os1, node1, child_result)
                    else Some (node_link os1 node1 child_idx child_result))"

text \<open>The part of \<open>bptree_insert\<close> that runs on a non-NULL root.\<close>

definition insert_from_root ::
    "'w os_scheme \<Rightarrow> BPlusTree \<Rightarrow> int \<Rightarrow> nat \<Rightarrow> ('w os_scheme \<times> BPlusTree \<times> bool) option" where
  "insert_from_root os0 tree key value =
    (case node_insert os0 (root tree) key value of
       None \<Rightarrow> None
     | Some (os1, root1, result) \<Rightarrow>
         let tree1 = \<lparr>root = root1,
               tree_size = (if inserted_new result then Suc (tree_size tree) else tree_size tree)\<rparr>
         in if \<not> split result then Some (os1, tree1, True)
            else
              (case node_create False os1 of
                 (Null, os2) \<Rightarrow> Some (os2, tree1, False)
               | (BpNode na nlf nn nks ncs nvs nnx, os2) \<Rightarrow>
                   Some (os2,
                     tree1\<lparr>root := BpNode na nlf 1 (nks[0 := promoted_key result])
                       (ncs[0 := root1, 1 := right result]) nvs nnx\<rparr>,
                     True)))"

definition bptree_insert ::
    "'w os_scheme \<Rightarrow> BPlusTree \<Rightarrow> int \<Rightarrow> nat \<Rightarrow> ('w os_scheme \<times> BPlusTree \<times> bool) option" where
  "bptree_insert os tree key value =
    (if is_Null (root tree)
     then case node_create True os of
            (root0, os0) \<Rightarrow>
              if is_Null root0 then Some (os0, tree\<lparr>root := root0\<rparr>, False)
              else insert_from_root os0 (tree\<lparr>root := root0\<rparr>) key value
     else insert_from_root os tree key value)"

subsection \<open>Search\<close>

text \<open>\<open>while (node != NULL && !node->is_leaf) node = node->children[...];\<close>\<close>

fun search_leaf :: "bpnode \<Rightarrow> int \<Rightarrow> bpnode" where
  "search_leaf Null key = Null"
| "search_leaf (BpNode a leaf n ks cs vs nx) key =
     (if leaf then BpNode a leaf n ks cs vs nx
      else search_leaf (child_at cs (child_index_for_key (BpNode a leaf n ks cs vs nx) key)) key)"

text \<open>\<open>None\<close> is \<open>false\<close>; \<open>Some v\<close> is \<open>true\<close> with \<open>*value_out = v\<close>.\<close>

definition bptree_search :: "BPlusTree \<Rightarrow> int \<Rightarrow> nat option" where
  "bptree_search tree key =
     (case search_leaf (root tree) key of
        Null \<Rightarrow> None
      | BpNode a leaf n ks cs vs nx \<Rightarrow>
          let pos = leaf_find_position (BpNode a leaf n ks cs vs nx) key
          in if pos < n \<and> ks ! pos = key then Some (vs ! pos) else None)"

end
