(* ===== verification/DbEngine.thy ===== *)
theory DbEngine
  imports Sql JsonUtil BpTree
begin

section \<open>The DB engine of src/db.c\<close>

text \<open>
  \<open>src/include/db.h\<close> and \<open>src/src/db.c\<close>: the array of records, the index, the data file and
  the lock. Functions take the world and the engine and return both updated; \<open>None\<close> is undefined
  behaviour (an access outside an array, a signed overflow, an integer text \<open>sscanf\<close> cannot
  represent) or an endless loop. One operation runs at a time here: the engine's lock makes the
  operations atomic, its field shows that every path releases it.
\<close>

subsection \<open>The world\<close>

text \<open>
  Beside the calls that may fail: the files, how many bytes a failed \<open>fprintf\<close> or \<open>fclose\<close> has
  written all the same, and the clock.
\<close>

record world = os +
  files :: "string \<Rightarrow> string option"
  short_write :: "nat \<Rightarrow> nat"
  clock :: "nat \<Rightarrow> int \<times> int"
  ticks :: nat

text \<open>\<open>gettimeofday\<close> always succeeds; seconds and microseconds.\<close>

definition now_us :: "'w world_scheme \<Rightarrow> int \<times> 'w world_scheme" where
  "now_us w = (let (sec, usec) = clock w (ticks w)
               in (sec * 1000000 + usec, w\<lparr>ticks := Suc (ticks w)\<rparr>))"

text \<open>\<open>fopen(path, "a")\<close> and \<open>"a+"\<close> create the file when it does not exist.\<close>

definition file_text :: "'w world_scheme \<Rightarrow> string \<Rightarrow> string" where
  "file_text w path = (case files w path of None \<Rightarrow> [] | Some txt \<Rightarrow> txt)"

definition fopen_append :: "string \<Rightarrow> 'w world_scheme \<Rightarrow> bool \<times> 'w world_scheme" where
  "fopen_append path w =
     (let (ok, w1) = sys_call w
      in (ok, if ok then w1\<lparr>files := (files w1)(path \<mapsto> file_text w1 path)\<rparr> else w1))"

text \<open>
  \<open>fprintf\<close> of a text and \<open>fclose\<close>, both always called: the text is buffered, so either of them
  may be the one that fails to write, and then only a prefix reaches the file.
\<close>

definition fprintf_fclose :: "string \<Rightarrow> string \<Rightarrow> 'w world_scheme \<Rightarrow> bool \<times> bool \<times> 'w world_scheme" where
  "fprintf_fclose path txt w =
     (let (write_ok, w1) = sys_call w;
          (close_ok, w2) = sys_call w1;
          written = (if write_ok \<and> close_ok then txt else take (short_write w (calls w)) txt)
      in (write_ok, close_ok, w2\<lparr>files := (files w2)(path \<mapsto> file_text w2 path @ written)\<rparr>))"

text \<open>
  \<open>fgets(line, n, file)\<close> of what is left of the file: up to \<open>n - 1\<close> bytes, the newline included;
  \<open>None\<close> is \<open>NULL\<close>, at the end of the file or on a read error.
\<close>

definition fgets :: "nat \<Rightarrow> string \<Rightarrow> 'w world_scheme \<Rightarrow> (string \<times> string) option \<times> 'w world_scheme" where
  "fgets n rest w =
     (let (ok, w1) = sys_call w;
          line = (let body = takeWhile (\<lambda>c. c \<noteq> CHR 0x0A) rest
                  in take (n - 1) (if length body < length rest then body @ [CHR 0x0A] else body))
      in (if ok \<and> rest \<noteq> [] then Some (line, drop (length line) rest) else None, w1))"

subsection \<open>Data\<close>

record Record =
  rec_id :: int
  rec_name :: string
  rec_age :: int

datatype DbFilterType = DB_FILTER_ALL | DB_FILTER_ID | DB_FILTER_NAME

record DbFilter =
  filter_type :: DbFilterType
  filter_id :: int
  filter_name :: string

datatype DbColumn = DB_COLUMN_ID | DB_COLUMN_NAME | DB_COLUMN_AGE

record DbProjection =
  include_id :: bool
  include_name :: bool
  include_age :: bool
  proj_columns :: "DbColumn list"
  column_count :: nat

record DbResult =
  res_ok :: bool
  rows_json :: "char option list option"
  res_message :: string
  index_used :: bool
  elapsed_us :: int

datatype rwlock = Unlocked | ReadLocked | WriteLocked | Destroyed

record DbEngine =
  data_path :: string
  records :: "Record option list"
  db_count :: nat
  capacity :: nat
  next_id :: int
  index :: BPlusTree
  db_lock :: rwlock

definition DB_PATH_MAX :: nat where
  [simp]: "DB_PATH_MAX = 512"

definition DB_MAX_PROJECTION_COLUMNS :: nat where
  [simp]: "DB_MAX_PROJECTION_COLUMNS = 3"

definition SIZEOF_RECORD :: nat where
  "SIZEOF_RECORD = 136"

subsection \<open>Helpers\<close>

definition make_error_result :: "string \<Rightarrow> int \<Rightarrow> 'w world_scheme \<Rightarrow> DbResult \<times> 'w world_scheme" where
  "make_error_result message start_us w =
     (let (now, w1) = now_us w
      in (\<lparr>res_ok = False, rows_json = None, res_message = snprintf_str 128 message,
           index_used = False, elapsed_us = now - start_us\<rparr>, w1))"

text \<open>\<open>while (next_capacity < needed) next_capacity *= 2;\<close> with the wrap-around of \<open>size_t\<close>.\<close>

partial_function (option) grow_capacity :: "nat \<Rightarrow> nat \<Rightarrow> nat option" where
  [code]: "grow_capacity next_capacity needed =
     (if next_capacity < needed then grow_capacity (size_mul next_capacity 2) needed
      else Some next_capacity)"

definition db_reserve_records ::
    "nat \<Rightarrow> 'w world_scheme \<Rightarrow> DbEngine \<Rightarrow> (bool \<times> 'w world_scheme \<times> DbEngine) option" where
  "db_reserve_records needed w db =
     (if needed \<le> capacity db then Some (True, w, db)
      else case grow_capacity (if capacity db = 0 then 64 else capacity db) needed of
             None \<Rightarrow> None
           | Some next_capacity \<Rightarrow>
               let bytes = size_mul SIZEOF_RECORD next_capacity;
                   (ok, w1) = sys_call w
               in if \<not> ok then Some (False, w1, db)
                  else Some (True, w1, db\<lparr>records := resize_block (bytes div SIZEOF_RECORD) (records db),
                                          capacity := next_capacity\<rparr>))"

definition name_is_valid :: "string \<Rightarrow> bool" where
  "name_is_valid name =
     (if name = [] then False
      else list_all (\<lambda>c. \<not> (c = CHR '','' \<or> c = CHR 0x0A \<or> c = CHR 0x0D)) name)"

text \<open>The \<open>columns\<close> array is left uninitialised in C and never read, as \<open>column_count\<close> is 0.\<close>

definition all_columns_projection :: DbProjection where
  "all_columns_projection = \<lparr>include_id = True, include_name = True, include_age = True,
     proj_columns = replicate DB_MAX_PROJECTION_COLUMNS DB_COLUMN_ID, column_count = 0\<rparr>"

subsection \<open>Records as JSON\<close>

text \<open>
  \<open>*need_comma\<close> is an argument: each call that succeeds sets it, so the callers below pass whether
  a field came before.
\<close>

type_synonym 'w jb_op = "'w os_scheme \<times> JsonBuilder \<Rightarrow> (bool \<times> 'w os_scheme \<times> JsonBuilder) option"

definition append_json_separator :: "bool \<Rightarrow> 'w jb_op" where
  "append_json_separator need_comma = (if need_comma then json_builder_append '','' else (\<lambda>s. Some (True, s)))"

definition append_record_field_json :: "Record \<Rightarrow> DbColumn \<Rightarrow> bool \<Rightarrow> 'w jb_op" where
  "append_record_field_json record column need_comma = chain
     (append_json_separator need_comma #
      (case column of
         DB_COLUMN_ID \<Rightarrow> [json_builder_append (DQUOTE # ''id'' @ DQUOTE # '':''), json_builder_appendf (dec_int (rec_id record))]
       | DB_COLUMN_NAME \<Rightarrow> [json_builder_append (DQUOTE # ''name'' @ DQUOTE # '':''), json_builder_append_string (rec_name record)]
       | DB_COLUMN_AGE \<Rightarrow> [json_builder_append (DQUOTE # ''age'' @ DQUOTE # '':''), json_builder_appendf (dec_int (rec_age record))]))"

function append_columns_loop :: "Record \<Rightarrow> DbProjection \<Rightarrow> nat \<Rightarrow> bool \<Rightarrow> 'w jb_op" where
  "append_columns_loop record projection i need_comma s =
     (if i < column_count projection
      then if i < length (proj_columns projection)
           then case append_record_field_json record (proj_columns projection ! i) need_comma s of
                  None \<Rightarrow> None
                | Some (ok, s') \<Rightarrow> if \<not> ok then Some (False, s')
                                    else append_columns_loop record projection (Suc i) True s'
           else None
      else Some (True, s))"
  by pat_completeness auto
termination
  by (relation "measure (\<lambda>(record, projection, i, need_comma, s). column_count projection - i)") auto

declare append_columns_loop.simps [simp del]

definition append_record_json :: "Record \<Rightarrow> DbProjection \<Rightarrow> 'w jb_op" where
  "append_record_json record projection = chain
     (json_builder_append ''{'' #
      (if column_count projection > 0 then [append_columns_loop record projection 0 False]
       else
         (if include_id projection then [append_record_field_json record DB_COLUMN_ID False] else []) @
         (if include_name projection
          then [append_record_field_json record DB_COLUMN_NAME (include_id projection)] else []) @
         (if include_age projection
          then [append_record_field_json record DB_COLUMN_AGE (include_id projection \<or> include_name projection)]
          else [])) @
      [json_builder_append ''}''])"

subsection \<open>Reading a line of the data file\<close>

text \<open>
  \<open>%d\<close>: white space, a sign, digits. \<open>None\<close> is undefined behaviour (the number does not fit an
  \<open>int\<close>), \<open>Some None\<close> a matching failure.
\<close>

definition int_fits :: "int \<Rightarrow> bool" where
  "int_fits v \<longleftrightarrow> - INT_MAX - 1 \<le> v \<and> v \<le> INT_MAX"

definition scan_int :: "string \<Rightarrow> (int \<times> string) option option" where
  "scan_int s =
     (let (neg, s2) = sign_part (dropWhile isspace s);
          ds = takeWhile isdigit s2;
          v = (if neg then - int (dec_value ds) else int (dec_value ds))
      in if ds = [] then Some None
         else if int_fits v then Some (Some (v, dropWhile isdigit s2)) else None)"

text \<open>\<open>%n[^,]\<close>: between 1 and \<open>n\<close> bytes that are no comma.\<close>

definition scan_field :: "nat \<Rightarrow> string \<Rightarrow> (string \<times> string) option" where
  "scan_field n s =
     (let f = take n (takeWhile (\<lambda>c. c \<noteq> CHR '','') s)
      in if f = [] then None else Some (f, drop (length f) s))"

definition scan_comma :: "string \<Rightarrow> string option" where
  "scan_comma s = (case s of [] \<Rightarrow> None | c # cs \<Rightarrow> if c = CHR '','' then Some cs else None)"

text \<open>\<open>sscanf(line, "%d,%127[^,],%d", ...)\<close>; \<open>Some None\<close> is a result other than 3.\<close>

definition scan_record :: "string \<Rightarrow> (int \<times> string \<times> int) option option" where
  "scan_record line =
     (case scan_int line of
        None \<Rightarrow> None
      | Some None \<Rightarrow> Some None
      | Some (Some (i, r1)) \<Rightarrow>
          (case scan_comma r1 of
             None \<Rightarrow> Some None
           | Some r2 \<Rightarrow>
               (case scan_field 127 r2 of
                  None \<Rightarrow> Some None
                | Some (name, r3) \<Rightarrow>
                    (case scan_comma r3 of
                       None \<Rightarrow> Some None
                     | Some r4 \<Rightarrow>
                         (case scan_int r4 of
                            None \<Rightarrow> None
                          | Some None \<Rightarrow> Some None
                          | Some (Some (age, r5)) \<Rightarrow> Some (Some (i, name, age)))))))"

subsection \<open>Loading\<close>

text \<open>\<open>record->id + 1\<close> is a signed overflow, so \<open>None\<close>, for the id \<open>INT_MAX\<close>.\<close>

definition load_record ::
    "'w world_scheme \<Rightarrow> DbEngine \<Rightarrow> Record \<Rightarrow> (bool \<times> 'w world_scheme \<times> DbEngine) option" where
  "load_record w db record =
     (case db_reserve_records (size_add (db_count db) 1) w db of
        None \<Rightarrow> None
      | Some (ok, w1, db1) \<Rightarrow>
          if \<not> ok then Some (False, w1, db1)
          else case write_at (db_count db1) [record] (records db1) of
                 None \<Rightarrow> None
               | Some recs \<Rightarrow>
                   let db2 = db1\<lparr>records := recs\<rparr> in
                   (case bptree_insert w1 (index db2) (rec_id record) (db_count db2) of
                      None \<Rightarrow> None
                    | Some (w2, index2, inserted) \<Rightarrow>
                        let db3 = db2\<lparr>index := index2\<rparr> in
                        if \<not> inserted then Some (False, w2, db3)
                        else
                          let db4 = db3\<lparr>db_count := size_add (db_count db3) 1\<rparr>
                          in if rec_id record \<ge> next_id db4
                             then if rec_id record = INT_MAX then None
                                  else Some (True, w2, db4\<lparr>next_id := rec_id record + 1\<rparr>)
                             else Some (True, w2, db4)))"

definition db_destroy :: "DbEngine \<Rightarrow> DbEngine" where
  "db_destroy db = db\<lparr>records := [], db_count := 0, capacity := 0,
     index := snd (bptree_destroy (index db)), db_lock := Destroyed\<rparr>"

text \<open>
  The loop of \<open>db_init\<close> over the lines; \<open>rest\<close> is the part of the file not yet read, and shrinks
  with every line. The engine of a failed \<open>db_init\<close> is destroyed, only the message is returned.
\<close>

definition c_line :: "string \<Rightarrow> string" where
  "c_line line = takeWhile (\<lambda>c. c \<noteq> CHR 0x00) line"

lemma fgets_shorter: "fgets n rest w = (Some (line, rest'), w1) \<Longrightarrow> 1 < n \<Longrightarrow> length rest' < length rest"
  by (cases rest) (auto simp: fgets_def Let_def split: prod.splits if_splits)

function db_load_loop ::
    "string \<Rightarrow> 'w world_scheme \<Rightarrow> DbEngine \<Rightarrow> ('w world_scheme \<times> (string + DbEngine)) option" where
  "db_load_loop rest w db =
     (case fgets 512 rest w of
        (None, w1) \<Rightarrow> Some (w1, Inr db)
      | (Some (bytes, rest'), w1) \<Rightarrow>
          let line = c_line bytes in
          if line = [] \<or> hd line = CHR 0x0A then db_load_loop rest' w1 db
          else case scan_record line of
                 None \<Rightarrow> None
               | Some None \<Rightarrow> Some (w1, Inl ''malformed data file'')
               | Some (Some (i, name, age)) \<Rightarrow>
                   let record = \<lparr>rec_id = i, rec_name = snprintf_str DB_NAME_MAX name, rec_age = age\<rparr> in
                   if rec_id record \<le> 0 \<or> rec_age record < 0 \<or> \<not> name_is_valid (rec_name record)
                   then Some (w1, Inl ''invalid record in data file'')
                   else (case load_record w1 db record of
                           None \<Rightarrow> None
                         | Some (ok, w2, db2) \<Rightarrow>
                             if \<not> ok then Some (w2, Inl ''failed to load data file into memory'')
                             else db_load_loop rest' w2 db2))"
  by pat_completeness auto
termination
  by (relation "measure (\<lambda>(rest, w, db). length rest)") (auto dest!: sym [of "(Some a, b)" "fgets n r w" for a b n r w] fgets_shorter)

declare db_load_loop.simps [simp del]

definition db_init :: "string \<Rightarrow> 'w world_scheme \<Rightarrow> ('w world_scheme \<times> (string + DbEngine)) option" where
  "db_init path w =
     (let db = \<lparr>data_path = [], records = [], db_count = 0, capacity = 0, next_id = 1,
                index = bptree_init, db_lock = Unlocked\<rparr> in
      if length path \<ge> DB_PATH_MAX then Some (w, Inl ''data path is too long'')
      else
        let db1 = db\<lparr>data_path := snprintf_str DB_PATH_MAX path\<rparr>;
            (lock_ok, w1) = sys_call w
        in if \<not> lock_ok then Some (w1, Inl ''failed to initialize DB lock'')
           else
             let (opened, w2) = fopen_append (data_path db1) w1
             in if \<not> opened then Some (w2, Inl ''failed to open data file'')
                else db_load_loop (file_text w2 (data_path db1)) w2 db1)"

subsection \<open>Inserting\<close>

text \<open>\<open>pthread_rwlock_unlock\<close> followed by the return of an error.\<close>

definition unlock_error ::
    "string \<Rightarrow> int \<Rightarrow> 'w world_scheme \<Rightarrow> DbEngine \<Rightarrow> ('w world_scheme \<times> DbEngine \<times> DbResult) option" where
  "unlock_error message start_us w db =
     (let (r, w1) = make_error_result message start_us w in Some (w1, db\<lparr>db_lock := Unlocked\<rparr>, r))"

definition record_line :: "Record \<Rightarrow> string" where
  "record_line r = dec_int (rec_id r) @ '','' @ rec_name r @ '','' @ dec_int (rec_age r) @ [CHR 0x0A]"

text \<open>The end of \<open>db_insert_internal\<close>: the row as JSON and the result.\<close>

definition insert_result ::
    "Record \<Rightarrow> int \<Rightarrow> 'w world_scheme \<Rightarrow> DbEngine \<Rightarrow> ('w world_scheme \<times> DbEngine \<times> DbResult) option" where
  "insert_result record start_us w db =
     (let (created, w1, builder) = json_builder_init w in
      case (if \<not> created then Some (False, w1, builder)
            else chain [json_builder_append ''['', append_record_json record all_columns_projection,
                        json_builder_append '']''] (w1, builder)) of
        None \<Rightarrow> None
      | Some (ok, w2, builder2) \<Rightarrow>
          if \<not> ok then unlock_error ''failed to serialize insert result'' start_us w2 db
          else
            let (now, w3) = now_us w2
            in Some (w3, db\<lparr>db_lock := Unlocked\<rparr>,
                 \<lparr>res_ok = True, rows_json = fst (json_builder_take builder2),
                  res_message = ''inserted 1 row'', index_used = False, elapsed_us = now - start_us\<rparr>))"

text \<open>The part of \<open>db_insert_internal\<close> after the checks and the reservation: file, array, index.\<close>

definition insert_record ::
    "Record \<Rightarrow> int \<Rightarrow> 'w world_scheme \<Rightarrow> DbEngine \<Rightarrow> ('w world_scheme \<times> DbEngine \<times> DbResult) option" where
  "insert_record record start_us w db =
     (let record_index = db_count db;
          (opened, w1) = fopen_append (data_path db) w
      in if \<not> opened then unlock_error ''failed to open data file for append'' start_us w1 db
         else
           let (write_ok, close_ok, w2) = fprintf_fclose (data_path db) (record_line record) w1
           in if \<not> write_ok \<or> \<not> close_ok then unlock_error ''failed to append data file'' start_us w2 db
              else case write_at record_index [record] (records db) of
                     None \<Rightarrow> None
                   | Some recs \<Rightarrow>
                       let db1 = db\<lparr>records := recs, db_count := size_add (db_count db) 1,
                                    next_id := (if rec_id record \<ge> next_id db \<and> rec_id record < INT_MAX
                                                then rec_id record + 1 else next_id db)\<rparr>
                       in (case bptree_insert w2 (index db1) (rec_id record) record_index of
                             None \<Rightarrow> None
                           | Some (w3, index2, inserted) \<Rightarrow>
                               let db2 = db1\<lparr>index := index2\<rparr>
                               in if \<not> inserted then unlock_error ''failed to update B+ tree index'' start_us w3 db2
                                  else insert_result record start_us w3 db2))"

definition db_insert_internal ::
    "bool \<Rightarrow> int \<Rightarrow> string \<Rightarrow> int \<Rightarrow> 'w world_scheme \<Rightarrow> DbEngine \<Rightarrow> ('w world_scheme \<times> DbEngine \<times> DbResult) option" where
  "db_insert_internal has_id i name age w db =
     (let (start_us, w1) = now_us w;
          (locked, w2) = sys_call w1
      in if \<not> locked
         then (let (r, w3) = make_error_result ''failed to acquire write lock'' start_us w2 in Some (w3, db, r))
         else
           let db1 = db\<lparr>db_lock := WriteLocked\<rparr>
           in if (has_id \<and> i \<le> 0) \<or> age < 0 \<or> \<not> name_is_valid name
              then unlock_error ''invalid id, name, or age'' start_us w2 db1
              else if has_id \<and> bptree_search (index db1) i \<noteq> None
              then unlock_error ''duplicate id'' start_us w2 db1
              else case db_reserve_records (size_add (db_count db1) 1) w2 db1 of
                     None \<Rightarrow> None
                   | Some (ok, w3, db2) \<Rightarrow>
                       if \<not> ok then unlock_error ''out of memory'' start_us w3 db2
                       else insert_record
                              \<lparr>rec_id = (if has_id then i else next_id db2),
                               rec_name = snprintf_str DB_NAME_MAX name, rec_age = age\<rparr> start_us w3 db2)"

definition db_insert ::
    "string \<Rightarrow> int \<Rightarrow> 'w world_scheme \<Rightarrow> DbEngine \<Rightarrow> ('w world_scheme \<times> DbEngine \<times> DbResult) option" where
  "db_insert name age = db_insert_internal False 0 name age"

definition db_insert_with_id ::
    "int \<Rightarrow> string \<Rightarrow> int \<Rightarrow> 'w world_scheme \<Rightarrow> DbEngine \<Rightarrow> ('w world_scheme \<times> DbEngine \<times> DbResult) option" where
  "db_insert_with_id i name age = db_insert_internal True i name age"

subsection \<open>Selecting\<close>

text \<open>
  The scan over all records: \<open>Inl\<close> of the message of the failed step, or \<open>Inr\<close> of the builder and
  the number of rows.
\<close>

definition row_included :: "DbFilter \<Rightarrow> Record \<Rightarrow> bool" where
  "row_included flt r \<longleftrightarrow>
     filter_type flt = DB_FILTER_ALL \<or> (filter_type flt = DB_FILTER_NAME \<and> rec_name r = filter_name flt)"

function select_loop ::
    "DbEngine \<Rightarrow> DbFilter \<Rightarrow> DbProjection \<Rightarrow> nat \<Rightarrow> bool \<Rightarrow> nat \<Rightarrow> 'w world_scheme \<Rightarrow> JsonBuilder \<Rightarrow>
     ('w world_scheme \<times> (string + JsonBuilder \<times> nat)) option" where
  "select_loop db flt projection i need_comma matched w builder =
     (if i < db_count db
      then case read_at i (records db) of
             None \<Rightarrow> None
           | Some r \<Rightarrow>
               if \<not> row_included flt r
               then select_loop db flt projection (Suc i) need_comma matched w builder
               else (case append_json_separator need_comma (w, builder) of
                       None \<Rightarrow> None
                     | Some (ok, w1, builder1) \<Rightarrow>
                         if \<not> ok then Some (w1, Inl ''failed to serialize select separator'')
                         else (case append_record_json r projection (w1, builder1) of
                                 None \<Rightarrow> None
                               | Some (ok2, w2, builder2) \<Rightarrow>
                                   if \<not> ok2 then Some (w2, Inl ''failed to serialize select row'')
                                   else select_loop db flt projection (Suc i) True (Suc matched) w2 builder2))
      else Some (w, Inr (builder, matched)))"
  by pat_completeness auto
termination
  by (relation "measure (\<lambda>(db, flt, projection, i, need_comma, matched, w, builder). db_count db - i)") auto

declare select_loop.simps [simp del]

definition select_by_id ::
    "DbEngine \<Rightarrow> int \<Rightarrow> DbProjection \<Rightarrow> 'w world_scheme \<Rightarrow> JsonBuilder \<Rightarrow>
     ('w world_scheme \<times> (string + JsonBuilder \<times> nat)) option" where
  "select_by_id db i projection w builder =
     (case bptree_search (index db) i of
        None \<Rightarrow> Some (w, Inr (builder, 0))
      | Some record_index \<Rightarrow>
          if \<not> record_index < db_count db then Some (w, Inr (builder, 0))
          else (case read_at record_index (records db) of
                  None \<Rightarrow> None
                | Some r \<Rightarrow>
                    (case append_record_json r projection (w, builder) of
                       None \<Rightarrow> None
                     | Some (ok, w1, builder1) \<Rightarrow>
                         if \<not> ok then Some (w1, Inl ''failed to serialize indexed row'')
                         else Some (w1, Inr (builder1, 1)))))"

definition select_rows ::
    "DbEngine \<Rightarrow> DbFilter \<Rightarrow> DbProjection \<Rightarrow> 'w world_scheme \<Rightarrow> JsonBuilder \<Rightarrow>
     ('w world_scheme \<times> (string + JsonBuilder \<times> nat)) option" where
  "select_rows db flt projection w builder =
     (if filter_type flt = DB_FILTER_ID then select_by_id db (filter_id flt) projection w builder
      else select_loop db flt projection 0 False 0 w builder)"

text \<open>The end of \<open>db_select_projected\<close>, from the closing bracket on.\<close>

definition select_finish ::
    "DbFilter \<Rightarrow> int \<Rightarrow> DbEngine \<Rightarrow> ('w world_scheme \<times> (string + JsonBuilder \<times> nat)) option \<Rightarrow>
     ('w world_scheme \<times> DbEngine \<times> DbResult) option" where
  "select_finish flt start_us db rows =
     (case rows of
        None \<Rightarrow> None
      | Some (w, Inl message) \<Rightarrow> unlock_error message start_us w db
      | Some (w, Inr (builder, matched)) \<Rightarrow>
          (case json_builder_append '']'' (w, builder) of
             None \<Rightarrow> None
           | Some (ok, w1, builder1) \<Rightarrow>
               if \<not> ok then unlock_error ''failed to finalize select result'' start_us w1 db
               else
                 let (now, w2) = now_us w1
                 in Some (w2, db\<lparr>db_lock := Unlocked\<rparr>,
                      \<lparr>res_ok = True, rows_json = fst (json_builder_take builder1),
                       res_message = snprintf_str 128 (''selected '' @ dec_digits matched @ '' row(s)''),
                       index_used = (filter_type flt = DB_FILTER_ID), elapsed_us = now - start_us\<rparr>)))"

definition db_select_projected ::
    "DbFilter \<Rightarrow> DbProjection \<Rightarrow> 'w world_scheme \<Rightarrow> DbEngine \<Rightarrow> ('w world_scheme \<times> DbEngine \<times> DbResult) option" where
  "db_select_projected flt projection0 w db =
     (let (start_us, w1) = now_us w;
          projection = (if column_count projection0 = 0 \<and> \<not> include_id projection0 \<and>
                           \<not> include_name projection0 \<and> \<not> include_age projection0
                        then all_columns_projection else projection0);
          (locked, w2) = sys_call w1
      in if \<not> locked
         then (let (r, w3) = make_error_result ''failed to acquire read lock'' start_us w2 in Some (w3, db, r))
         else
           let db1 = db\<lparr>db_lock := ReadLocked\<rparr>;
               (created, w3, builder) = json_builder_init w2
           in case (if \<not> created then Some (False, w3, builder) else json_builder_append ''['' (w3, builder)) of
                None \<Rightarrow> None
              | Some (ok, w4, builder1) \<Rightarrow>
                  if \<not> ok then unlock_error ''failed to serialize select result'' start_us w4 db1
                  else select_finish flt start_us db1 (select_rows db1 flt projection w4 builder1))"

definition db_select ::
    "DbFilter \<Rightarrow> 'w world_scheme \<Rightarrow> DbEngine \<Rightarrow> ('w world_scheme \<times> DbEngine \<times> DbResult) option" where
  "db_select flt = db_select_projected flt all_columns_projection"

definition db_result_free :: "DbResult \<Rightarrow> DbResult" where
  "db_result_free r = r\<lparr>rows_json := None\<rparr>"

end
