(* ===== verification/Http.thy ===== *)
theory Http
  imports CString Libc
begin

section \<open>The HTTP layer of src/http.c\<close>

text \<open>
  \<open>src/include/http.h\<close> and \<open>src/src/http.c\<close>: reading one request from a socket, writing one JSON
  response, and taking the SQL text out of a request body. The peer and the kernel are two scripts
  in the connection record: what successive \<open>recv\<close> calls find and what successive \<open>send\<close> calls
  do. A script is finite; the peer has closed the connection after the last event of \<open>incoming\<close>,
  and after the last event of \<open>outgoing\<close> the kernel takes all it is given. \<open>None\<close> is an access
  outside a buffer, or of bytes never received.
\<close>

definition HTTP_MAX_REQUEST :: nat where
  "HTTP_MAX_REQUEST = 65536"

definition HTTP_MAX_BODY :: nat where
  "HTTP_MAX_BODY = 32768"

subsection \<open>Sockets\<close>

text \<open>\<open>Interrupted\<close> is \<open>EINTR\<close>, \<open>Broken\<close> any other error.\<close>

datatype recv_event = Arrives string | Recv_Interrupted | Recv_Broken

datatype send_event = Takes nat | Send_Interrupted | Send_Broken

datatype 'a io_result = Result 'a | Eintr | Error

record conn =
  incoming :: "recv_event list"
  outgoing :: "send_event list"
  sent :: string

definition recv :: "nat \<Rightarrow> conn \<Rightarrow> string io_result \<times> conn" where
  "recv len c =
     (case incoming c of
        [] \<Rightarrow> (Result [], c)
      | Recv_Interrupted # es \<Rightarrow> (Eintr, c\<lparr>incoming := es\<rparr>)
      | Recv_Broken # es \<Rightarrow> (Error, c\<lparr>incoming := es\<rparr>)
      | Arrives bs # es \<Rightarrow>
          (Result (take len bs), c\<lparr>incoming := if length bs \<le> len then es else Arrives (drop len bs) # es\<rparr>))"

definition send :: "string \<Rightarrow> conn \<Rightarrow> nat io_result \<times> conn" where
  "send bytes c =
     (case outgoing c of
        [] \<Rightarrow> (Result (length bytes), c\<lparr>sent := sent c @ bytes\<rparr>)
      | Send_Interrupted # es \<Rightarrow> (Eintr, c\<lparr>outgoing := es\<rparr>)
      | Send_Broken # es \<Rightarrow> (Error, c\<lparr>outgoing := es\<rparr>)
      | Takes k # es \<Rightarrow>
          (Result (min k (length bytes)), c\<lparr>outgoing := es, sent := sent c @ take k bytes\<rparr>))"

text \<open>Measures for the loops: what is left of the scripts.\<close>

definition recv_left :: "conn \<Rightarrow> nat" where
  "recv_left c = (\<Sum>e\<leftarrow>incoming c. case e of Arrives bs \<Rightarrow> Suc (length bs) | _ \<Rightarrow> 1)"

lemma recv_less:
  "recv len c = (r, c') \<Longrightarrow> r \<noteq> Result [] \<Longrightarrow> recv_left c' < recv_left c"
  by (auto simp: recv_def recv_left_def split: list.splits recv_event.splits if_splits)

subsection \<open>Sending\<close>

function send_all :: "string \<Rightarrow> conn \<Rightarrow> bool \<times> conn" where
  "send_all buffer c =
     (if buffer = [] then (True, c)
      else case send buffer c of
             (Eintr, c') \<Rightarrow> send_all buffer c'
           | (Error, c') \<Rightarrow> (False, c')
           | (Result n, c') \<Rightarrow> if n = 0 then (False, c') else send_all (drop n buffer) c')"
  by pat_completeness auto
termination
  by (relation "measure (\<lambda>(buffer, c). length buffer + length (outgoing c))")
    (auto simp: send_def split: list.splits send_event.splits)

declare send_all.simps [simp del]

definition reason :: "int \<Rightarrow> string" where
  "reason status_code =
     (if status_code = 400 then ''Bad Request''
      else if status_code = 404 then ''Not Found''
      else if status_code = 405 then ''Method Not Allowed''
      else if status_code \<ge> 500 then ''Internal Server Error''
      else ''OK'')"

abbreviation CRLF :: string where
  "CRLF \<equiv> [CHR 0x0D, CHR 0x0A]"

definition thread_header :: "nat \<Rightarrow> string" where
  "thread_header worker_thread_id =
     (if worker_thread_id \<noteq> 0 then ''X-Worker-Thread-Id: '' @ dec_digits worker_thread_id @ CRLF else [])"

definition response_header :: "int \<Rightarrow> string \<Rightarrow> nat \<Rightarrow> string" where
  "response_header status_code thread_hdr response_body_len =
     ''HTTP/1.1 '' @ dec_int status_code @ '' '' @ reason status_code @ CRLF @
     ''Content-Type: application/json'' @ CRLF @ thread_hdr @
     ''Content-Length: '' @ dec_digits response_body_len @ CRLF @
     ''Connection: close'' @ CRLF @ CRLF"

text \<open>
  \<open>snprintf(buf, size, ...)\<close> of an expanded text, followed by the check both calls of this file
  make: a negative result or one that was truncated is a failure.
\<close>

definition snprintf_whole :: "nat \<Rightarrow> string \<Rightarrow> 'w os_scheme \<Rightarrow> string option \<times> 'w os_scheme" where
  "snprintf_whole bytes txt os =
     (let (ok, os') = sys_call os in (if \<not> ok \<or> length txt \<ge> bytes then None else Some txt, os'))"

definition needs_newline :: "string \<Rightarrow> bool" where
  "needs_newline json_body \<longleftrightarrow> length json_body = 0 \<or> json_body ! (length json_body - 1) \<noteq> CHR 0x0A"

definition http_send_json_with_thread ::
    "int \<Rightarrow> string \<Rightarrow> nat \<Rightarrow> 'w os_scheme \<times> conn \<Rightarrow> bool \<times> 'w os_scheme \<times> conn" where
  "http_send_json_with_thread status_code json_body worker_thread_id = (\<lambda>(os, c).
     let body_len = length json_body;
         newline = needs_newline json_body;
         response_body_len = size_add body_len (if newline then 1 else 0);
         (thread_hdr, os1) = (if worker_thread_id \<noteq> 0 then snprintf_whole 96 (thread_header worker_thread_id) os
                              else (Some [], os))
     in case thread_hdr of
          None \<Rightarrow> (False, os1, c)
        | Some thread_hdr \<Rightarrow>
            (case snprintf_whole 512 (response_header status_code thread_hdr response_body_len) os1 of
               (None, os2) \<Rightarrow> (False, os2, c)
             | (Some header, os2) \<Rightarrow>
                 let (ok1, c1) = send_all header c
                 in if \<not> ok1 then (False, os2, c1)
                    else let (ok2, c2) = send_all json_body c1
                         in if \<not> ok2 then (False, os2, c2)
                            else if newline
                            then let (ok3, c3) = send_all [CHR 0x0A] c2 in (ok3, os2, c3)
                            else (True, os2, c2)))"

definition http_send_json :: "int \<Rightarrow> string \<Rightarrow> 'w os_scheme \<times> conn \<Rightarrow> bool \<times> 'w os_scheme \<times> conn" where
  "http_send_json status_code json_body s = http_send_json_with_thread status_code json_body 0 s"

subsection \<open>Reading a request\<close>

record HttpRequest =
  req_method :: string
  req_path :: string
  req_body :: string
  req_body_len :: nat

text \<open>The C string at the start of a buffer.\<close>

definition cstr :: "string \<Rightarrow> string" where
  "cstr bytes = takeWhile (\<lambda>c. c \<noteq> CHR 0x00) bytes"

text \<open>
  \<open>strtoul(s, &end, 10)\<close>: the value and whether \<open>end\<close> moved; a value that does not fit is
  \<open>ULONG_MAX\<close>, a minus sign negates modulo \<open>2 ^ 64\<close>.
\<close>

definition strtoul :: "string \<Rightarrow> nat option" where
  "strtoul s =
     (let (neg, s2) = sign_part (dropWhile isspace s);
          ds = takeWhile isdigit s2;
          v = dec_value ds
      in if ds = [] then None
         else Some (if v > SIZE_MAX then SIZE_MAX else if neg then size_sub 0 v else v))"

text \<open>
  Pointers into the buffer are the suffixes they point at, so a smaller pointer is a longer
  suffix. \<open>None\<close> is the result 0.
\<close>

function content_length_loop :: "string \<Rightarrow> string \<Rightarrow> nat option" where
  "content_length_loop headers_end line =
     (if length line \<le> length headers_end then Some 0
      else case strstr line CRLF of
             None \<Rightarrow> Some 0
           | Some nxt \<Rightarrow>
               if length nxt < length headers_end then Some 0
               else
                 let line_len = length line - length nxt
                 in if line_len = 0 then Some 0
                    else if line_len \<ge> 15 \<and> strncasecmp_eq line ''Content-Length:'' 15
                    then (let value = dropWhile isspace (drop 15 line) in strtoul value)
                    else content_length_loop headers_end (drop 2 nxt))"
  by pat_completeness auto
termination
proof (relation "measure (\<lambda>(headers_end, line). length line)")
  fix headers_end line nxt :: string and x
  assume "\<not> length line \<le> length headers_end" "strstr line CRLF = Some nxt"
  then show "((headers_end, drop 2 nxt), headers_end, line) \<in> measure (\<lambda>(headers_end, line). length line)"
    using strstr_length [of line CRLF nxt] by (simp, arith)
qed simp

declare content_length_loop.simps [simp del]

definition parse_content_length :: "string \<Rightarrow> string \<Rightarrow> nat option" where
  "parse_content_length buffer headers_end =
     (case strstr buffer CRLF of
        None \<Rightarrow> None
      | Some line \<Rightarrow> content_length_loop headers_end (drop 2 line))"

text \<open>\<open>sscanf(buffer, "%7s %127s", method, path) == 2\<close>\<close>

definition scan_word :: "nat \<Rightarrow> string \<Rightarrow> (string \<times> string) option" where
  "scan_word width s =
     (let s1 = dropWhile isspace s;
          w = take width (takeWhile (\<lambda>c. \<not> isspace c) s1)
      in if w = [] then None else Some (w, drop (length w) s1))"

definition scan_request_line :: "string \<Rightarrow> (string \<times> string) option" where
  "scan_request_line buffer =
     (case scan_word 7 buffer of
        None \<Rightarrow> None
      | Some (m, rest) \<Rightarrow> map_option (\<lambda>(p, _). (m, p)) (scan_word 127 rest))"

text \<open>
  Bytes stored at \<open>buffer + used\<close>, where \<open>char buffer[HTTP_MAX_REQUEST + 1]\<close> also has to hold the
  NUL written at \<open>buffer[used]\<close> afterwards.
\<close>

definition buffer_store :: "string \<Rightarrow> string \<Rightarrow> string option" where
  "buffer_store buffer bytes =
     (if length buffer + length bytes < HTTP_MAX_REQUEST + 1 then Some (buffer @ bytes) else None)"

text \<open>
  The first loop of \<open>http_read_request\<close>: \<open>Inr\<close> of the buffer and of \<open>headers_end\<close> (\<open>None\<close> for
  \<open>NULL\<close>) when the loop ends, \<open>Inl\<close> of the error for an early return.
\<close>

function read_headers :: "string \<Rightarrow> conn \<Rightarrow> ((string + string \<times> string option) \<times> conn) option" where
  "read_headers buffer c =
     (if \<not> length buffer < HTTP_MAX_REQUEST then Some (Inr (buffer, None), c)
      else case recv (HTTP_MAX_REQUEST - length buffer) c of
             (Eintr, c') \<Rightarrow> read_headers buffer c'
           | (Error, c') \<Rightarrow> Some (Inl ''failed to read request'', c')
           | (Result bytes, c') \<Rightarrow>
               if bytes = [] then Some (Inl ''client closed connection'', c')
               else case buffer_store buffer bytes of
                      None \<Rightarrow> None
                    | Some buffer' \<Rightarrow>
                        (case strstr (cstr buffer') (CRLF @ CRLF) of
                           Some headers_end \<Rightarrow> Some (Inr (buffer', Some headers_end), c')
                         | None \<Rightarrow> read_headers buffer' c'))"
  by pat_completeness auto
termination
  by (relation "measure (\<lambda>(buffer, c). recv_left c)") (auto dest: recv_less [OF sym])

declare read_headers.simps [simp del]

text \<open>The second loop, until \<open>total_needed\<close> bytes are there.\<close>

function read_body :: "nat \<Rightarrow> string \<Rightarrow> conn \<Rightarrow> ((string + string) \<times> conn) option" where
  "read_body total_needed buffer c =
     (if \<not> length buffer < total_needed then Some (Inr buffer, c)
      else case recv (total_needed - length buffer) c of
             (Eintr, c') \<Rightarrow> read_body total_needed buffer c'
           | (Error, c') \<Rightarrow> Some (Inl ''failed to read request body'', c')
           | (Result bytes, c') \<Rightarrow>
               if bytes = [] then Some (Inl ''incomplete request body'', c')
               else case buffer_store buffer bytes of
                      None \<Rightarrow> None
                    | Some buffer' \<Rightarrow> read_body total_needed buffer' c')"
  by pat_completeness auto
termination
  by (relation "measure (\<lambda>(total_needed, buffer, c). recv_left c)") (auto dest: recv_less [OF sym])

declare read_body.simps [simp del]

text \<open>
  The two \<open>memcpy\<close>s of the end: the source must have been received, the destination is
  \<open>char body[HTTP_MAX_BODY + 1]\<close> with room for the NUL.
\<close>

definition copy_body :: "string \<Rightarrow> nat \<Rightarrow> nat \<Rightarrow> string option" where
  "copy_body buffer header_len content_length =
     (if header_len + content_length \<le> length buffer \<and> content_length < HTTP_MAX_BODY + 1
      then Some (take content_length (drop header_len buffer)) else None)"

definition http_read_request :: "conn \<Rightarrow> ((string + HttpRequest) \<times> conn) option" where
  "http_read_request c =
     (case read_headers [] c of
        None \<Rightarrow> None
      | Some (Inl err, c1) \<Rightarrow> Some (Inl err, c1)
      | Some (Inr (buffer, None), c1) \<Rightarrow> Some (Inl ''request headers too large or incomplete'', c1)
      | Some (Inr (buffer, Some headers_end), c1) \<Rightarrow>
          (case scan_request_line (cstr buffer) of
             None \<Rightarrow> Some (Inl ''malformed request line'', c1)
           | Some (m, path) \<Rightarrow>
               (case parse_content_length (cstr buffer) headers_end of
                  None \<Rightarrow> Some (Inl ''invalid Content-Length'', c1)
                | Some content_length \<Rightarrow>
                    if content_length > HTTP_MAX_BODY then Some (Inl ''request body too large'', c1)
                    else
                      let header_len = length (cstr buffer) - length headers_end + 4;
                          total_needed = header_len + content_length
                      in if total_needed > HTTP_MAX_REQUEST then Some (Inl ''request too large'', c1)
                         else (case read_body total_needed buffer c1 of
                                 None \<Rightarrow> None
                               | Some (Inl err, c2) \<Rightarrow> Some (Inl err, c2)
                               | Some (Inr buffer2, c2) \<Rightarrow>
                                   map_option (\<lambda>body.
                                       (Inr \<lparr>req_method = m, req_path = path, req_body = body,
                                             req_body_len = content_length\<rparr>, c2))
                                     (copy_body buffer2 header_len content_length)))))"

subsection \<open>The SQL text of a body\<close>

definition trim_end :: "string \<Rightarrow> string" where
  "trim_end s = rev (dropWhile isspace (rev s))"

definition copy_raw_sql :: "string \<Rightarrow> nat \<Rightarrow> string + string" where
  "copy_raw_sql body sql_size =
     (let start = dropWhile isspace body;
          txt = trim_end start;
          len = length txt
      in check ''SQL body is empty'' (len \<noteq> 0)
          (check ''SQL body is too long'' (\<not> size_add len 1 > sql_size) (Inr txt)))"

definition simple_escape :: "char \<Rightarrow> char option" where
  "simple_escape c =
     (if c = DQUOTE \<or> c = BACKSLASH \<or> c = CHR ''/'' then Some c
      else if c = CHR ''n'' then Some (CHR 0x0A)
      else if c = CHR ''r'' then Some (CHR 0x0D)
      else if c = CHR ''t'' then Some (CHR 0x09)
      else None)"

text \<open>\<open>sql_out[len++] = ch;\<close> before the rest of the loop.\<close>

definition push_char :: "char \<Rightarrow> string + string \<times> string \<Rightarrow> string + string \<times> string" where
  "push_char ch r = ok_then r (\<lambda>(out, rest). Inr (ch # out, rest))"

text \<open>The loop over the string value, up to the closing quote or the end of the body.\<close>

fun json_string_loop :: "nat \<Rightarrow> nat \<Rightarrow> string \<Rightarrow> string + string \<times> string" where
  "json_string_loop sql_size len [] = Inr ([], [])"
| "json_string_loop sql_size len (c # p) =
     (if c = DQUOTE then Inr ([], c # p)
      else if c = BACKSLASH
      then (case p of
              [] \<Rightarrow> Inl ''unterminated JSON escape''
            | e # p' \<Rightarrow>
                (case simple_escape e of
                   None \<Rightarrow> Inl ''unsupported JSON escape in sql value''
                 | Some ch \<Rightarrow>
                     if len + 1 \<ge> sql_size then Inl ''sql value is too long''
                     else push_char ch (json_string_loop sql_size (len + 1) p')))
      else if len + 1 \<ge> sql_size then Inl ''sql value is too long''
      else push_char c (json_string_loop sql_size (len + 1) p))"

definition extract_json_sql :: "string \<Rightarrow> nat \<Rightarrow> string + string" where
  "extract_json_sql body sql_size =
     need ''JSON body must contain key \"sql\"'' (strstr body ''\"sql\"'') (\<lambda>p.
     let p = dropWhile isspace (drop 5 p) in
     check ''expected ':' after sql key'' (p \<noteq> [] \<and> hd p = CHR '':'') (
     let p = dropWhile isspace (tl p) in
     check ''sql value must be a JSON string'' (p \<noteq> [] \<and> hd p = DQUOTE) (
     ok_then (json_string_loop sql_size 0 (tl p)) (\<lambda>(sql, rest).
     check ''unterminated sql JSON string'' (rest \<noteq> [] \<and> hd rest = DQUOTE) (Inr sql)))))"

text \<open>\<open>body\<close> is the C string at \<open>request->body\<close>.\<close>

definition http_extract_sql :: "string \<Rightarrow> nat \<Rightarrow> string + string" where
  "http_extract_sql body sql_size =
     (let p = dropWhile isspace body
      in if p \<noteq> [] \<and> hd p = CHR ''{'' then extract_json_sql body sql_size else copy_raw_sql body sql_size)"

end
