(* ===== verification/ThreadPool.thy ===== *)
theory ThreadPool
  imports Libc
begin

section \<open>The thread pool of src/thread_pool.c\<close>

text \<open>
  \<open>src/include/thread_pool.h\<close> and \<open>src/src/thread_pool.c\<close>: a ring buffer of client sockets, worker
  threads that take from it and the main thread, which creates the pool, submits and shuts down
  (as \<open>server_run\<close> uses it). The data operations are functions on the \<open>ThreadPool\<close> record; the
  threads are program counters, and \<open>pool_step\<close> has one rule for every stretch of code between
  two points where the scheduler or the mutex decides: getting the mutex, one pass of the code
  under it up to \<open>pthread_cond_wait\<close> or the unlock, the handler. Waiting releases the mutex;
  \<open>pthread_cond_signal\<close> wakes one waiter if there is one, and a waiter may wake spuriously.
\<close>

subsection \<open>The pool record and its ring buffer\<close>

record ThreadPool =
  fds :: "int option list option"
  pool_capacity :: nat
  head :: nat
  tail :: nat
  pool_count :: nat
  threads :: "nat option"
  thread_count :: nat
  stopping :: bool

text \<open>
  \<open>fds\<close> is the block of the ring buffer and \<open>threads\<close> the number of slots of the block of thread
  handles, both \<open>None\<close> for \<open>NULL\<close>; the mutex is part of the state of the system below.
  \<open>memset(pool, 0, sizeof(*pool))\<close> gives \<open>zero_pool\<close>.
\<close>

definition zero_pool :: ThreadPool where
  "zero_pool = \<lparr>fds = None, pool_capacity = 0, head = 0, tail = 0, pool_count = 0,
     threads = None, thread_count = 0, stopping = False\<rparr>"

text \<open>
  The queue part of \<open>thread_pool_submit\<close> and of \<open>worker_loop\<close>; \<open>None\<close> is an access outside the
  array, of \<open>NULL\<close>, or of a cell that was never written.
\<close>

definition pool_put :: "int \<Rightarrow> ThreadPool \<Rightarrow> ThreadPool option" where
  "pool_put client_fd pool =
     (case fds pool of
        None \<Rightarrow> None
      | Some buf \<Rightarrow>
          (case write_at (tail pool) [client_fd] buf of
             None \<Rightarrow> None
           | Some buf' \<Rightarrow>
               Some (pool\<lparr>fds := Some buf', tail := size_add (tail pool) 1 mod pool_capacity pool,
                          pool_count := size_add (pool_count pool) 1\<rparr>)))"

definition pool_take :: "ThreadPool \<Rightarrow> (int \<times> ThreadPool) option" where
  "pool_take pool =
     (case fds pool of
        None \<Rightarrow> None
      | Some buf \<Rightarrow>
          (case read_at (head pool) buf of
             None \<Rightarrow> None
           | Some client_fd \<Rightarrow>
               Some (client_fd, pool\<lparr>head := size_add (head pool) 1 mod pool_capacity pool,
                                     pool_count := size_sub (pool_count pool) 1\<rparr>)))"

subsection \<open>Initialisation\<close>

text \<open>
  \<open>thread_pool_init\<close> up to the creation of the threads. The result is the pool or the failure,
  with what was released on the failure path: the blocks and the synchronisation objects that
  had been created. The sizes given to \<open>malloc\<close> are products over \<open>size_t\<close> and may wrap. The
  handler is never \<open>NULL\<close>.
\<close>

datatype resource = Fds | Threads | Mutex | NotEmpty | NotFull

text \<open>The label \<open>fail\<close>: what it releases, in order.\<close>

definition prepare_fail :: "bool \<Rightarrow> bool \<Rightarrow> bool \<Rightarrow> resource list" where
  "prepare_fail mutex_ready not_empty_ready not_full_ready =
     (if not_full_ready then [NotFull] else []) @ (if not_empty_ready then [NotEmpty] else []) @
     (if mutex_ready then [Mutex] else []) @ [Fds, Threads]"

definition thread_pool_prepare ::
    "nat \<Rightarrow> nat \<Rightarrow> 'w os_scheme \<Rightarrow> resource list \<times> resource list \<times> ThreadPool option \<times> 'w os_scheme" where
  "thread_pool_prepare thread_number queue_capacity os =
     (if thread_number = 0 \<or> queue_capacity = 0 then ([], [], None, os)
      else
        let (fds_ok, os1) = sys_call os;
            (threads_ok, os2) = sys_call os1;
            blocks = (if fds_ok then [Fds] else []) @ (if threads_ok then [Threads] else [])
        in if \<not> fds_ok \<or> \<not> threads_ok then (blocks, blocks, None, os2)
           else
             let (mutex_ready, os3) = sys_call os2
             in if \<not> mutex_ready then ([Fds, Threads], prepare_fail False False False, None, os3)
                else
                  let (not_empty_ready, os4) = sys_call os3
                  in if \<not> not_empty_ready then ([Fds, Threads, Mutex], prepare_fail True False False, None, os4)
                     else
                       let (not_full_ready, os5) = sys_call os4
                       in if \<not> not_full_ready
                          then ([Fds, Threads, Mutex, NotEmpty], prepare_fail True True False, None, os5)
                          else ([Fds, Threads, Mutex, NotEmpty, NotFull], [],
                            Some (zero_pool\<lparr>fds := Some (fresh_block (size_mul 4 queue_capacity div 4)),
                                            threads := Some (size_mul 8 thread_number div 8),
                                            pool_capacity := queue_capacity\<rparr>), os5))"

text \<open>What \<open>thread_pool_shutdown\<close> releases after the joins.\<close>

definition shutdown_releases :: "resource list" where
  "shutdown_releases = [NotEmpty, NotFull, Mutex, Fds, Threads]"

text \<open>
  The thread creation loop, as one call each; when one fails, \<open>thread_pool_shutdown\<close> ends the
  threads there are. (What the threads do meanwhile is the subject of the step relation below.)
\<close>

fun create_threads :: "nat \<Rightarrow> ThreadPool \<Rightarrow> 'w os_scheme \<Rightarrow> ThreadPool option \<times> 'w os_scheme" where
  "create_threads 0 pool os = (Some pool, os)"
| "create_threads (Suc k) pool os =
     (let (ok, os1) = sys_call os
      in if ok then create_threads k (pool\<lparr>thread_count := Suc (thread_count pool)\<rparr>) os1 else (None, os1))"

definition thread_pool_init ::
    "nat \<Rightarrow> nat \<Rightarrow> 'w os_scheme \<Rightarrow> resource list \<times> resource list \<times> ThreadPool option \<times> 'w os_scheme" where
  "thread_pool_init thread_number queue_capacity os =
     (case thread_pool_prepare thread_number queue_capacity os of
        (acquired, released, None, os1) \<Rightarrow> (acquired, released, None, os1)
      | (acquired, released, Some pool, os1) \<Rightarrow>
          (case create_threads thread_number pool os1 of
             (None, os2) \<Rightarrow> (acquired, shutdown_releases, None, os2)
           | (Some pool', os2) \<Rightarrow> (acquired, [], Some pool', os2)))"

subsection \<open>Threads\<close>

datatype worker_pc =
  W_Unborn
| W_Lock          \<comment> \<open>before \<open>pthread_mutex_lock\<close>, at the top of the loop\<close>
| W_Check         \<comment> \<open>holds the mutex, at the \<open>while\<close> condition\<close>
| W_Wait          \<comment> \<open>in \<open>pthread_cond_wait(&not_empty)\<close>\<close>
| W_Relock        \<comment> \<open>woken, about to take the mutex again\<close>
| W_Handle int    \<comment> \<open>in the handler\<close>
| W_Done

datatype main_pc =
  M_Create nat    \<comment> \<open>the \<open>pthread_create\<close> loop of \<open>thread_pool_init\<close>\<close>
| M_Idle
| M_Lock int      \<comment> \<open>in \<open>thread_pool_submit\<close>, before the lock\<close>
| M_Check int
| M_Wait int      \<comment> \<open>in \<open>pthread_cond_wait(&not_full)\<close>\<close>
| M_Relock int
| M_Down_Lock     \<comment> \<open>in \<open>thread_pool_shutdown\<close>, before the lock\<close>
| M_Down          \<comment> \<open>holds the mutex\<close>
| M_Join nat
| M_Finished

datatype thread = Main | Worker nat

text \<open>
  \<open>accepted\<close>, \<open>taken\<close> and \<open>handled\<close> record history: the sockets submitted with result 1, those
  taken by workers, those whose handler has returned. \<open>spawned\<close> is the number of threads created.
\<close>

record pool_sys =
  pool :: ThreadPool
  mutex :: "thread option"
  wpc :: "nat \<Rightarrow> worker_pc"
  mpc :: main_pc
  requested :: nat
  spawned :: nat
  accepted :: "int list"
  taken :: "int list"
  handled :: "int list"

definition pool_start :: "nat \<Rightarrow> ThreadPool \<Rightarrow> pool_sys" where
  "pool_start n p = \<lparr>pool = p, mutex = None, wpc = (\<lambda>_. W_Unborn), mpc = M_Create 0, requested = n, spawned = 0,
     accepted = [], taken = [], handled = []\<rparr>"

text \<open>\<open>pthread_cond_signal(&not_full)\<close> and the broadcast on \<open>not_empty\<close>.\<close>

definition wake_main :: "main_pc \<Rightarrow> main_pc" where
  "wake_main m = (case m of M_Wait fd \<Rightarrow> M_Relock fd | _ \<Rightarrow> m)"

definition wake_all :: "(nat \<Rightarrow> worker_pc) \<Rightarrow> nat \<Rightarrow> worker_pc" where
  "wake_all pcs = (\<lambda>i. if pcs i = W_Wait then W_Relock else pcs i)"

text \<open>\<open>&pool->threads[k]\<close> is inside the block.\<close>

definition thread_slot :: "ThreadPool \<Rightarrow> nat \<Rightarrow> bool" where
  "thread_slot p k = (case threads p of None \<Rightarrow> False | Some slots \<Rightarrow> k < slots)"

text \<open>\<open>thread_pool_shutdown\<close> returns at once when there is nothing to shut down.\<close>

definition nothing_to_shut :: "ThreadPool \<Rightarrow> bool" where
  "nothing_to_shut p \<longleftrightarrow> fds p = None \<and> threads p = None"

inductive worker_step :: "nat \<Rightarrow> pool_sys \<Rightarrow> pool_sys \<Rightarrow> bool" for i where
  w_lock: "wpc s i \<in> {W_Lock, W_Relock} \<Longrightarrow> mutex s = None \<Longrightarrow>
    worker_step i s (s\<lparr>mutex := Some (Worker i), wpc := (wpc s)(i := W_Check)\<rparr>)"
| w_wait: "wpc s i = W_Check \<Longrightarrow> \<not> stopping (pool s) \<Longrightarrow> pool_count (pool s) = 0 \<Longrightarrow>
    worker_step i s (s\<lparr>mutex := None, wpc := (wpc s)(i := W_Wait)\<rparr>)"
| w_exit: "wpc s i = W_Check \<Longrightarrow> stopping (pool s) \<Longrightarrow> pool_count (pool s) = 0 \<Longrightarrow>
    worker_step i s (s\<lparr>mutex := None, wpc := (wpc s)(i := W_Done)\<rparr>)"
| w_take: "wpc s i = W_Check \<Longrightarrow> pool_count (pool s) \<noteq> 0 \<Longrightarrow> pool_take (pool s) = Some (fd, p) \<Longrightarrow>
    worker_step i s (s\<lparr>pool := p, mutex := None, wpc := (wpc s)(i := W_Handle fd), mpc := wake_main (mpc s),
                       taken := taken s @ [fd]\<rparr>)"
| w_handled: "wpc s i = W_Handle fd \<Longrightarrow>
    worker_step i s (s\<lparr>wpc := (wpc s)(i := W_Lock), handled := handled s @ [fd]\<rparr>)"

inductive main_step :: "pool_sys \<Rightarrow> pool_sys \<Rightarrow> bool" where
  m_create: "mpc s = M_Create k \<Longrightarrow> k < requested s \<Longrightarrow> thread_slot (pool s) k \<Longrightarrow>
    main_step s (s\<lparr>wpc := (wpc s)(k := W_Lock), mpc := M_Create (Suc k), spawned := Suc k,
                   pool := (pool s)\<lparr>thread_count := Suc (thread_count (pool s))\<rparr>\<rparr>)"
| m_create_failed: "mpc s = M_Create k \<Longrightarrow> k < requested s \<Longrightarrow> thread_slot (pool s) k \<Longrightarrow>
    main_step s (s\<lparr>mpc := M_Down_Lock\<rparr>)"
| m_created: "mpc s = M_Create k \<Longrightarrow> \<not> k < requested s \<Longrightarrow> main_step s (s\<lparr>mpc := M_Idle\<rparr>)"
| m_submit: "mpc s = M_Idle \<Longrightarrow> main_step s (s\<lparr>mpc := M_Lock fd\<rparr>)"
| m_lock: "mpc s \<in> {M_Lock fd, M_Relock fd} \<Longrightarrow> mutex s = None \<Longrightarrow>
    main_step s (s\<lparr>mutex := Some Main, mpc := M_Check fd\<rparr>)"
| m_wait: "mpc s = M_Check fd \<Longrightarrow> \<not> stopping (pool s) \<Longrightarrow> pool_count (pool s) = pool_capacity (pool s) \<Longrightarrow>
    main_step s (s\<lparr>mutex := None, mpc := M_Wait fd\<rparr>)"
| m_refused: "mpc s = M_Check fd \<Longrightarrow> stopping (pool s) \<Longrightarrow> main_step s (s\<lparr>mutex := None, mpc := M_Idle\<rparr>)"
| m_put_wake: "mpc s = M_Check fd \<Longrightarrow> \<not> stopping (pool s) \<Longrightarrow> pool_count (pool s) \<noteq> pool_capacity (pool s) \<Longrightarrow>
    pool_put fd (pool s) = Some p \<Longrightarrow> wpc s j = W_Wait \<Longrightarrow>
    main_step s (s\<lparr>pool := p, mutex := None, mpc := M_Idle, accepted := accepted s @ [fd],
                   wpc := (wpc s)(j := W_Relock)\<rparr>)"
| m_put_none: "mpc s = M_Check fd \<Longrightarrow> \<not> stopping (pool s) \<Longrightarrow> pool_count (pool s) \<noteq> pool_capacity (pool s) \<Longrightarrow>
    pool_put fd (pool s) = Some p \<Longrightarrow> \<forall>j. wpc s j \<noteq> W_Wait \<Longrightarrow>
    main_step s (s\<lparr>pool := p, mutex := None, mpc := M_Idle, accepted := accepted s @ [fd]\<rparr>)"
| m_shutdown: "mpc s = M_Idle \<Longrightarrow> \<not> nothing_to_shut (pool s) \<Longrightarrow> main_step s (s\<lparr>mpc := M_Down_Lock\<rparr>)"
| m_down_lock: "mpc s = M_Down_Lock \<Longrightarrow> mutex s = None \<Longrightarrow>
    main_step s (s\<lparr>mutex := Some Main, mpc := M_Down\<rparr>)"
| m_down: "mpc s = M_Down \<Longrightarrow>
    main_step s (s\<lparr>pool := (pool s)\<lparr>stopping := True\<rparr>, mutex := None, wpc := wake_all (wpc s), mpc := M_Join 0\<rparr>)"
| m_join: "mpc s = M_Join k \<Longrightarrow> k < thread_count (pool s) \<Longrightarrow> thread_slot (pool s) k \<Longrightarrow> wpc s k = W_Done \<Longrightarrow>
    main_step s (s\<lparr>mpc := M_Join (Suc k)\<rparr>)"
| m_free: "mpc s = M_Join k \<Longrightarrow> \<not> k < thread_count (pool s) \<Longrightarrow>
    main_step s (s\<lparr>pool := zero_pool, mpc := M_Finished\<rparr>)"

text \<open>A step of the program, and a step of any kind, spurious wake-ups included.\<close>

definition program_step :: "pool_sys \<Rightarrow> pool_sys \<Rightarrow> bool" where
  "program_step s s' \<longleftrightarrow> main_step s s' \<or> (\<exists>i. worker_step i s s')"

inductive pool_step :: "pool_sys \<Rightarrow> pool_sys \<Rightarrow> bool" where
  program: "program_step s s' \<Longrightarrow> pool_step s s'"
| spurious_worker: "wpc s i = W_Wait \<Longrightarrow> pool_step s (s\<lparr>wpc := (wpc s)(i := W_Relock)\<rparr>)"
| spurious_main: "mpc s = M_Wait fd \<Longrightarrow> pool_step s (s\<lparr>mpc := M_Relock fd\<rparr>)"

inductive reachable :: "pool_sys \<Rightarrow> pool_sys \<Rightarrow> bool" for s0 where
  start: "reachable s0 s0"
| step: "reachable s0 s \<Longrightarrow> pool_step s s' \<Longrightarrow> reachable s0 s'"

inductive_cases worker_stepE: "worker_step i s s'"
inductive_cases main_stepE: "main_step s s'"

end
