(* ===== verification/Server.thy ===== *)
theory Server
  imports DbEngine Http ThreadPool
begin

section \<open>The server of src/server.c and src/main.c\<close>

text \<open>
  Request handling (\<open>handle_client\<close> and what it calls), the life cycle of the process
  (\<open>server_run\<close>) and the command line (\<open>main.c\<close>). A request is handled on the whole state: the
  environment, the DB engine, the connection, and what is observable of closing and logging.
  \<open>None\<close> is undefined behaviour, as in the components that are called.
\<close>

definition SQL_MAX_LEN :: nat where
  "SQL_MAX_LEN = 4096"

definition REQUEST_QUEUE_CAPACITY :: nat where
  "REQUEST_QUEUE_CAPACITY = 128"

record server =
  srv_world :: world
  srv_db :: DbEngine
  srv_conn :: conn
  srv_closes :: nat
  srv_log :: string

subsection \<open>Responses\<close>

text \<open>\<open>None\<close> inside is \<open>NULL\<close>; the block is what \<open>json_builder_take\<close> gives away.\<close>

definition make_error_body :: "string \<Rightarrow> 'w os_scheme \<Rightarrow> ('w os_scheme \<times> char option list option) option" where
  "make_error_body message os =
     (let (created, os1, builder) = json_builder_init os
      in if \<not> created then Some (os1, None)
         else
           case chain [json_builder_append (''{'' @ DQUOTE # ''error'' @ DQUOTE # '':''),
                       json_builder_append_string message, json_builder_append ''}''] (os1, builder) of
             None \<Rightarrow> None
           | Some (ok, os2, builder2) \<Rightarrow>
               if \<not> ok then Some (os2, None) else Some (os2, fst (json_builder_take builder2)))"

definition send_json_response :: "nat \<Rightarrow> int \<Rightarrow> string \<Rightarrow> server \<Rightarrow> server" where
  "send_json_response tid status_code body s =
     (let (ok, w, c) = http_send_json_with_thread status_code body tid (srv_world s, srv_conn s)
      in s\<lparr>srv_world := w, srv_conn := c\<rparr>)"

definition out_of_memory_body :: string where
  "out_of_memory_body = ''{'' @ DQUOTE # ''error'' @ DQUOTE # '':'' @ DQUOTE # ''out of memory'' @ DQUOTE # ''}''"

definition send_error_response :: "nat \<Rightarrow> int \<Rightarrow> string \<Rightarrow> server \<Rightarrow> server option" where
  "send_error_response tid status_code message s =
     (case make_error_body message (srv_world s) of
        None \<Rightarrow> None
      | Some (w, None) \<Rightarrow> Some (send_json_response tid 500 out_of_memory_body (s\<lparr>srv_world := w\<rparr>))
      | Some (w, Some block) \<Rightarrow>
          (case c_string block of
             None \<Rightarrow> None
           | Some body \<Rightarrow> Some (send_json_response tid status_code body (s\<lparr>srv_world := w\<rparr>))))"

text \<open>One line on standard output per request.\<close>

definition log_line :: "nat \<Rightarrow> int \<Rightarrow> HttpRequest \<Rightarrow> string \<Rightarrow> int \<Rightarrow> bool \<Rightarrow> string" where
  "log_line tid client_fd request detail elapsed used =
     ''request | thread='' @ dec_digits tid @ '' | fd='' @ dec_int client_fd @ '' | '' @ req_method request @ '' '' @
     req_path request @ '' | result='' @ detail @ '' | elapsed='' @ dec_int elapsed @ ''us | index_used='' @
     (if used then ''true'' else ''false'') @ [CHR 0x0A]"

definition log_request :: "nat \<Rightarrow> int \<Rightarrow> HttpRequest \<Rightarrow> string \<Rightarrow> int \<Rightarrow> bool \<Rightarrow> server \<Rightarrow> server" where
  "log_request tid client_fd request detail elapsed used s =
     s\<lparr>srv_log := srv_log s @ log_line tid client_fd request detail elapsed used\<rparr>"

subsection \<open>Statements\<close>

definition filter_of :: "SqlStatement \<Rightarrow> DbFilter" where
  "filter_of stmt =
     (let zero = \<lparr>filter_type = DB_FILTER_ALL, filter_id = 0, filter_name = []\<rparr>
      in case where_type stmt of
           SQL_WHERE_ID \<Rightarrow> zero\<lparr>filter_type := DB_FILTER_ID, filter_id := where_id stmt\<rparr>
         | SQL_WHERE_NAME \<Rightarrow> zero\<lparr>filter_type := DB_FILTER_NAME, filter_name := snprintf_str DB_NAME_MAX (where_name stmt)\<rparr>
         | SQL_WHERE_NONE \<Rightarrow> zero\<lparr>filter_type := DB_FILTER_ALL\<rparr>)"

text \<open>\<open>projection.include_x = true; projection.columns[projection.column_count++] = x;\<close>\<close>

definition project_column :: "SqlColumn \<Rightarrow> DbProjection \<Rightarrow> DbProjection option" where
  "project_column column p =
     (let p1 = (case column of
                  SQL_COLUMN_ID \<Rightarrow> p\<lparr>include_id := True\<rparr>
                | SQL_COLUMN_NAME \<Rightarrow> p\<lparr>include_name := True\<rparr>
                | SQL_COLUMN_AGE \<Rightarrow> p\<lparr>include_age := True\<rparr>);
          c = (case column of SQL_COLUMN_ID \<Rightarrow> DB_COLUMN_ID | SQL_COLUMN_NAME \<Rightarrow> DB_COLUMN_NAME | SQL_COLUMN_AGE \<Rightarrow> DB_COLUMN_AGE)
      in if column_count p < length (proj_columns p)
         then Some (p1\<lparr>proj_columns := (proj_columns p)[column_count p := c], column_count := Suc (column_count p)\<rparr>)
         else None)"

function project_loop :: "SqlStatement \<Rightarrow> nat \<Rightarrow> DbProjection \<Rightarrow> DbProjection option" where
  "project_loop stmt i p =
     (if i < select_column_count stmt
      then if i < length (select_columns stmt)
           then case project_column (select_columns stmt ! i) p of
                  None \<Rightarrow> None
                | Some p' \<Rightarrow> project_loop stmt (Suc i) p'
           else None
      else Some p)"
  by pat_completeness auto
termination
  by (relation "measure (\<lambda>(stmt, i, p). select_column_count stmt - i)") auto

declare project_loop.simps [simp del]

definition projection_of :: "SqlStatement \<Rightarrow> DbProjection option" where
  "projection_of stmt =
     (let zero = \<lparr>include_id = False, include_name = False, include_age = False,
                  proj_columns = replicate DB_MAX_PROJECTION_COLUMNS DB_COLUMN_ID, column_count = 0\<rparr>
      in if select_all stmt
         then Some (zero\<lparr>include_id := True, include_name := True, include_age := True\<rparr>)
         else project_loop stmt 0 zero)"

definition execute_statement ::
    "SqlStatement \<Rightarrow> 'w world_scheme \<Rightarrow> DbEngine \<Rightarrow> ('w world_scheme \<times> DbEngine \<times> DbResult) option" where
  "execute_statement stmt w db =
     (if stmt_type stmt = SQL_INSERT
      then if insert_has_id stmt
           then db_insert_with_id (insert_id stmt) (insert_name stmt) (insert_age stmt) w db
           else db_insert (insert_name stmt) (insert_age stmt) w db
      else case projection_of stmt of
             None \<Rightarrow> None
           | Some projection \<Rightarrow> db_select_projected (filter_of stmt) projection w db)"

subsection \<open>Requests\<close>

text \<open>The result of the engine is a local variable; releasing it at the end changes nothing that is kept.\<close>

definition handle_query :: "nat \<Rightarrow> int \<Rightarrow> HttpRequest \<Rightarrow> server \<Rightarrow> server option" where
  "handle_query tid client_fd request s =
     (case http_extract_sql (cstr (req_body request)) SQL_MAX_LEN of
        Inl err \<Rightarrow> map_option (log_request tid client_fd request ''bad-body'' 0 False) (send_error_response tid 400 err s)
      | Inr sql \<Rightarrow>
          (case sql_parse sql of
             Inl err \<Rightarrow> map_option (log_request tid client_fd request ''bad-sql'' 0 False) (send_error_response tid 400 err s)
           | Inr stmt \<Rightarrow>
               (case execute_statement stmt (srv_world s) (srv_db s) of
                  None \<Rightarrow> None
                | Some (w, db, db_result) \<Rightarrow>
                    let s1 = s\<lparr>srv_world := w, srv_db := db\<rparr>
                    in if \<not> res_ok db_result
                       then map_option
                              (log_request tid client_fd request ''db-error'' (elapsed_us db_result) (index_used db_result))
                              (send_error_response tid 500 (res_message db_result) s1)
                       else
                         (case (case rows_json db_result of None \<Rightarrow> Some ''[]'' | Some block \<Rightarrow> c_string block) of
                            None \<Rightarrow> None
                          | Some rows \<Rightarrow>
                              Some (log_request tid client_fd request ''ok'' (elapsed_us db_result) (index_used db_result)
                                      (send_json_response tid 200 rows s1))))))"

definition close_client :: "server \<Rightarrow> server" where
  "close_client s = s\<lparr>srv_closes := Suc (srv_closes s)\<rparr>"

definition health_body :: string where
  "health_body = ''{'' @ DQUOTE # ''status'' @ DQUOTE # '':'' @ DQUOTE # ''ok'' @ DQUOTE # ''}''"

definition handle_client :: "nat \<Rightarrow> int \<Rightarrow> server \<Rightarrow> server option" where
  "handle_client tid client_fd s =
     (case http_read_request (srv_conn s) of
        None \<Rightarrow> None
      | Some (Inl err, c) \<Rightarrow> map_option close_client (send_error_response tid 400 err (s\<lparr>srv_conn := c\<rparr>))
      | Some (Inr request, c) \<Rightarrow>
          let s1 = s\<lparr>srv_conn := c\<rparr>
          in map_option close_client
               (if strcasecmp_eq (req_method request) ''GET'' \<and> req_path request = ''/health''
                then Some (log_request tid client_fd request ''ok'' 0 False (send_json_response tid 200 health_body s1))
                else if strcasecmp_eq (req_method request) ''POST'' \<and> req_path request = ''/query''
                then handle_query tid client_fd request s1
                else if req_path request = ''/query'' \<or> req_path request = ''/health''
                then map_option (log_request tid client_fd request ''method-not-allowed'' 0 False)
                       (send_error_response tid 405 ''method not allowed'' s1)
                else map_option (log_request tid client_fd request ''not-found'' 0 False)
                       (send_error_response tid 404 ''route not found'' s1)))"

subsection \<open>The process\<close>

text \<open>
  \<open>create_listen_socket\<close>: how many descriptors it opened and how many it closed again, and
  whether it succeeded.
\<close>

definition create_listen_socket :: "'w os_scheme \<Rightarrow> nat \<times> nat \<times> bool \<times> 'w os_scheme" where
  "create_listen_socket os =
     (let (socket_ok, os1) = sys_call os
      in if \<not> socket_ok then (0, 0, False, os1)
         else let (opt_ok, os2) = sys_call os1
              in if \<not> opt_ok then (1, 1, False, os2)
                 else let (bind_ok, os3) = sys_call os2
                      in if \<not> bind_ok then (1, 1, False, os3)
                         else let (listen_ok, os4) = sys_call os3
                              in if \<not> listen_ok then (1, 1, False, os4) else (1, 0, True, os4))"

text \<open>
  Signals: what the process does with each, and the flag \<open>g_should_stop\<close>. A signal with its default
  action ends the process, which is \<open>None\<close>. (\<open>SIGPIPE\<close> being ignored is what makes a \<open>send\<close> to a
  peer that has gone an error of the call, as \<open>Send_Broken\<close> has it.)
\<close>

datatype signal = SIGINT | SIGTERM | SIGPIPE

datatype disposition = SIG_DFL | SIG_IGN | Handled_by_handle_signal

record signals =
  action_of :: "signal \<Rightarrow> disposition"
  g_should_stop :: bool

definition signals_at_start :: signals where
  "signals_at_start = \<lparr>action_of = (\<lambda>_. SIG_DFL), g_should_stop = False\<rparr>"

definition handle_signal :: "signal \<Rightarrow> signals \<Rightarrow> signals" where
  "handle_signal signo p = p\<lparr>g_should_stop := True\<rparr>"

definition install_signal_handlers :: "signals \<Rightarrow> signals" where
  "install_signal_handlers p =
     p\<lparr>action_of := (action_of p)(SIGPIPE := SIG_IGN, SIGINT := Handled_by_handle_signal, SIGTERM := Handled_by_handle_signal)\<rparr>"

definition deliver :: "signal \<Rightarrow> signals \<Rightarrow> signals option" where
  "deliver signo p =
     (case action_of p signo of
        SIG_DFL \<Rightarrow> None
      | SIG_IGN \<Rightarrow> Some p
      | Handled_by_handle_signal \<Rightarrow> Some (handle_signal signo p))"

fun deliver_all :: "signal list \<Rightarrow> signals \<Rightarrow> signals option" where
  "deliver_all [] p = Some p"
| "deliver_all (signo # ss) p = (case deliver signo p of None \<Rightarrow> None | Some p' \<Rightarrow> deliver_all ss p')"

text \<open>
  The accept loop: what successive \<open>accept\<close> calls return, each with the signals that arrive before
  the test of \<open>g_should_stop\<close> and those that arrive before the call returns; for an accepted socket
  also the connection behind it and whether the pool takes it. The result: the sockets the pool
  took, those closed at once, and whether the loop was left (else it still waits in \<open>accept\<close>).
\<close>

datatype accept_event = Accepted int conn bool | Accept_Interrupted | Accept_BadFd | Accept_Failed

fun accept_loop ::
    "(signal list \<times> accept_event \<times> signal list) list \<Rightarrow> signals \<Rightarrow> ((int \<times> conn) list \<times> int list \<times> bool) option" where
  "accept_loop [] p = Some ([], [], False)"
| "accept_loop ((before, ev, meanwhile) # evs) p =
     (case deliver_all before p of
        None \<Rightarrow> None
      | Some p1 \<Rightarrow>
          if g_should_stop p1 then Some ([], [], True)
          else
            (case deliver_all meanwhile p1 of
               None \<Rightarrow> None
             | Some p2 \<Rightarrow>
                 (case ev of
                    Accept_Interrupted \<Rightarrow> accept_loop evs p2
                  | Accept_BadFd \<Rightarrow> Some ([], [], True)
                  | Accept_Failed \<Rightarrow> if g_should_stop p2 then Some ([], [], True) else accept_loop evs p2
                  | Accepted client_fd c submitted \<Rightarrow>
                      if \<not> submitted then Some ([], [client_fd], True)
                      else map_option (\<lambda>(queued, closed, left). ((client_fd, c) # queued, closed, left))
                             (accept_loop evs p2))))"

text \<open>
  The sockets the pool took are handled by its workers, a job is the worker's thread id and the
  socket. The handlers run side by side, but a connection belongs to one handler and the engine
  operations exclude each other, so a run is a sequence of jobs in the order of these operations.
  Of every job the descriptor, the number of \<open>close\<close> calls and the bytes sent are kept.
\<close>

type_synonym job = "nat \<times> int \<times> conn"

fun run_jobs :: "('j \<Rightarrow> 's \<Rightarrow> ('e \<times> 's) option) \<Rightarrow> 'j list \<Rightarrow> 's \<Rightarrow> ('e list \<times> 's) option" where
  "run_jobs handler [] s = Some ([], s)"
| "run_jobs handler (j # jobs) s =
     (case handler j s of
        None \<Rightarrow> None
      | Some (e, s') \<Rightarrow> map_option (\<lambda>(ends, s''). (e # ends, s'')) (run_jobs handler jobs s'))"

definition serve_job :: "job \<Rightarrow> world \<times> DbEngine \<Rightarrow> ((int \<times> nat \<times> string) \<times> world \<times> DbEngine) option" where
  "serve_job = (\<lambda>(tid, client_fd, c) (w, db).
     map_option (\<lambda>s. ((client_fd, srv_closes s, sent (srv_conn s)), srv_world s, srv_db s))
       (handle_client tid client_fd \<lparr>srv_world = w, srv_db = db, srv_conn = c, srv_closes = 0, srv_log = []\<rparr>))"

record ServerConfig =
  port :: int
  cfg_thread_count :: nat
  cfg_data_path :: string

text \<open>
  \<open>server_run\<close> with the accept script and, as \<open>schedule\<close>, which worker handles which of the
  sockets and in which order. The result is \<open>None\<close> for undefined behaviour and an end by a signal, and \<open>Some None\<close> while
  the server still waits in \<open>accept\<close>; otherwise what was opened, closed and released, and the
  exit status.
\<close>

record run_end =
  run_db :: "DbEngine option"
  pool_acquired :: "resource list"
  pool_released :: "resource list"
  listen_opened :: nat
  listen_closed :: nat
  run_served :: "(int \<times> nat \<times> string) list"
  run_refused :: "int list"
  exit_status :: int

definition run_failed :: run_end where
  "run_failed = \<lparr>run_db = None, pool_acquired = [], pool_released = [], listen_opened = 0, listen_closed = 0,
     run_served = [], run_refused = [], exit_status = 1\<rparr>"

definition server_run ::
    "ServerConfig \<Rightarrow> (signal list \<times> accept_event \<times> signal list) list \<Rightarrow> ((int \<times> conn) list \<Rightarrow> job list) \<Rightarrow>
     world \<Rightarrow> (run_end \<times> world) option option" where
  "server_run config evs schedule w =
     (case db_init (cfg_data_path config) w of
        None \<Rightarrow> None
      | Some (w1, Inl err) \<Rightarrow> Some (Some (run_failed, w1))
      | Some (w1, Inr db) \<Rightarrow>
          (case thread_pool_init (cfg_thread_count config) REQUEST_QUEUE_CAPACITY w1 of
             (acq, rel, None, w2) \<Rightarrow>
               Some (Some (run_failed\<lparr>run_db := Some (db_destroy db), pool_acquired := acq, pool_released := rel\<rparr>, w2))
           | (acq, rel, Some pl, w2) \<Rightarrow>
               (case create_listen_socket w2 of
                  (opened, closed, False, w3) \<Rightarrow>
                    Some (Some (run_failed\<lparr>run_db := Some (db_destroy db), pool_acquired := acq,
                                  pool_released := rel @ shutdown_releases,
                                  listen_opened := opened, listen_closed := closed\<rparr>, w3))
                | (opened, closed, True, w3) \<Rightarrow>
                    (case accept_loop evs (install_signal_handlers signals_at_start) of
                       None \<Rightarrow> None
                     | Some (queued, refused, left) \<Rightarrow>
                         if \<not> left then Some None
                         else case run_jobs serve_job (schedule queued) (w3, db) of
                                None \<Rightarrow> None
                              | Some (ends, w4, db4) \<Rightarrow>
                                  Some (Some (\<lparr>run_db = Some (db_destroy db4), pool_acquired = acq,
                                               pool_released = rel @ shutdown_releases,
                                               listen_opened = opened, listen_closed = closed + 1,
                                               run_served = ends, run_refused = refused, exit_status = 0\<rparr>, w4))))))"

subsection \<open>The command line\<close>

definition parse_int_arg :: "string \<Rightarrow> int \<Rightarrow> int" where
  "parse_int_arg arg fallback =
     (let (v, end_ptr) = strtol arg
      in if end_ptr = arg \<or> end_ptr \<noteq> [] \<or> v \<le> 0 \<or> v > 65535 then fallback else v)"

definition main_config :: "string list \<Rightarrow> ServerConfig" where
  "main_config argv =
     (let config = \<lparr>port = 8080, cfg_thread_count = 4, cfg_data_path = ''data/users.csv''\<rparr>;
          config = (if length argv > 1 then config\<lparr>port := parse_int_arg (argv ! 1) (port config)\<rparr> else config);
          config = (if length argv > 2
                    then config\<lparr>cfg_thread_count := nat (parse_int_arg (argv ! 2) (int (cfg_thread_count config)))\<rparr>
                    else config)
      in if length argv > 3 then config\<lparr>cfg_data_path := argv ! 3\<rparr> else config)"

end
