(* ===== verification/Phases.thy ===== *)
theory Phases
  imports Server
begin

section \<open>The phases of a request\<close>

text \<open>
  \<open>handle_client\<close> cut at the points where a worker touches what other workers share: reading and
  parsing the request works on the connection of the worker alone, the engine operation is one
  critical section under the lock of the engine, and the response is written to the own
  connection again. The system of all workers steps between these points in any order.
\<close>

text \<open>What is to be sent: a JSON body, or a message that is still to be wrapped.\<close>

datatype answer = Body int string | Message int string

datatype phase = Reading conn | Executing SqlStatement conn | Answering answer conn | Finished conn

definition dispatch :: "HttpRequest \<Rightarrow> answer + SqlStatement" where
  "dispatch request =
     (if strcasecmp_eq (req_method request) ''GET'' \<and> req_path request = ''/health'' then Inl (Body 200 health_body)
      else if strcasecmp_eq (req_method request) ''POST'' \<and> req_path request = ''/query''
      then (case http_extract_sql (cstr (req_body request)) SQL_MAX_LEN of
              Inl err \<Rightarrow> Inl (Message 400 err)
            | Inr sql \<Rightarrow> (case sql_parse sql of Inl err \<Rightarrow> Inl (Message 400 err) | Inr stmt \<Rightarrow> Inr stmt))
      else if req_path request = ''/query'' \<or> req_path request = ''/health'' then Inl (Message 405 ''method not allowed'')
      else Inl (Message 404 ''route not found''))"

definition client_read :: "conn \<Rightarrow> phase option" where
  "client_read c =
     (case http_read_request c of
        None \<Rightarrow> None
      | Some (Inl err, c') \<Rightarrow> Some (Answering (Message 400 err) c')
      | Some (Inr request, c') \<Rightarrow>
          Some (case dispatch request of Inl ans \<Rightarrow> Answering ans c' | Inr stmt \<Rightarrow> Executing stmt c'))"

definition client_execute :: "SqlStatement \<Rightarrow> world \<Rightarrow> DbEngine \<Rightarrow> (answer \<times> world \<times> DbEngine) option" where
  "client_execute stmt w db =
     (case execute_statement stmt w db of
        None \<Rightarrow> None
      | Some (w', db', db_result) \<Rightarrow>
          if \<not> res_ok db_result then Some (Message 500 (res_message db_result), w', db')
          else (case (case rows_json db_result of None \<Rightarrow> Some ''[]'' | Some block \<Rightarrow> c_string block) of
                  None \<Rightarrow> None
                | Some rows \<Rightarrow> Some (Body 200 rows, w', db')))"

definition client_answer :: "nat \<Rightarrow> answer \<Rightarrow> server \<Rightarrow> server option" where
  "client_answer tid ans s =
     (case ans of Body status_code body \<Rightarrow> Some (send_json_response tid status_code body s)
      | Message status_code message \<Rightarrow> send_error_response tid status_code message s)"

subsection \<open>One client alone\<close>

text \<open>The phases one after the other are \<open>handle_client\<close>, but for the log.\<close>

fun finish_client :: "nat \<Rightarrow> phase \<Rightarrow> server \<Rightarrow> server option" where
  "finish_client tid (Answering ans c) s = map_option close_client (client_answer tid ans (s\<lparr>srv_conn := c\<rparr>))"
| "finish_client tid (Executing stmt c) s =
     (case client_execute stmt (srv_world s) (srv_db s) of
        None \<Rightarrow> None
      | Some (ans, w, db) \<Rightarrow>
          map_option close_client (client_answer tid ans (s\<lparr>srv_conn := c, srv_world := w, srv_db := db\<rparr>)))"
| "finish_client tid ph s = None"

definition client_phases :: "nat \<Rightarrow> server \<Rightarrow> server option" where
  "client_phases tid s = (case client_read (srv_conn s) of None \<Rightarrow> None | Some ph \<Rightarrow> finish_client tid ph s)"

definition unlogged :: "server \<Rightarrow> server" where
  "unlogged s = s\<lparr>srv_log := []\<rparr>"

lemma unlogged_log [simp]: "unlogged (log_request tid fd q d e u s) = unlogged s"
  by (simp add: unlogged_def log_request_def)

lemma unlogged_close [simp]: "unlogged (close_client s) = close_client (unlogged s)"
  by (simp add: unlogged_def close_client_def)

lemma unlogged_closed_log [simp]:
  "map_option unlogged (map_option close_client (map_option (log_request tid fd q d e u) r)) =
   map_option unlogged (map_option close_client r)"
  by (cases r) simp_all

lemma handle_client_phases_eq: "map_option unlogged (handle_client tid fd s) = map_option unlogged (client_phases tid s)"
proof (cases "http_read_request (srv_conn s)")
  case None
  then show ?thesis by (simp add: handle_client_def client_phases_def client_read_def)
next
  case (Some rc)
  obtain r c where rc: "rc = (r, c)" by fastforce
  show ?thesis
  proof (cases r)
    case (Inl err)
    then show ?thesis using Some rc
      by (simp add: handle_client_def client_phases_def client_read_def client_answer_def)
  next
    case (Inr request)
    let ?s1 = "s\<lparr>srv_conn := c\<rparr>"
    have q: "map_option unlogged (map_option close_client (handle_query tid fd request ?s1)) =
        map_option unlogged (finish_client tid
          (case (case http_extract_sql (cstr (req_body request)) SQL_MAX_LEN of
              Inl err \<Rightarrow> Inl (Message 400 err)
            | Inr sql \<Rightarrow> (case sql_parse sql of Inl err \<Rightarrow> Inl (Message 400 err) | Inr stmt \<Rightarrow> Inr stmt)) of
            Inl ans \<Rightarrow> Answering ans c | Inr stmt \<Rightarrow> Executing stmt c) s)"
      unfolding handle_query_def
      by (simp add: client_answer_def client_execute_def Let_def split: sum.split option.split)
    let ?m = "req_method request" and ?p = "req_path request"
    have pc: "client_phases tid s = finish_client tid (case dispatch request of Inl ans \<Rightarrow> Answering ans c | Inr stmt \<Rightarrow> Executing stmt c) s"
      by (simp add: client_phases_def client_read_def Some rc Inr)
    consider (health) "strcasecmp_eq ?m ''GET'' \<and> ?p = ''/health''"
      | (query) "\<not> (strcasecmp_eq ?m ''GET'' \<and> ?p = ''/health'')" "strcasecmp_eq ?m ''POST'' \<and> ?p = ''/query''"
      | (other) "\<not> (strcasecmp_eq ?m ''GET'' \<and> ?p = ''/health'')" "\<not> (strcasecmp_eq ?m ''POST'' \<and> ?p = ''/query'')"
      by blast
    then show ?thesis
    proof cases
      case health
      then show ?thesis unfolding pc
        by (simp add: handle_client_def Some rc Inr dispatch_def client_answer_def)
    next
      case query
      have "handle_client tid fd s = map_option close_client (handle_query tid fd request ?s1)"
        unfolding handle_client_def Some rc Inr option.case prod.case sum.case Let_def if_not_P [OF query(1)] if_P [OF query(2)] ..
      then show ?thesis unfolding pc dispatch_def if_not_P [OF query(1)] if_P [OF query(2)] using q by simp
    next
      case other
      then show ?thesis unfolding pc handle_client_def Some rc Inr option.case prod.case sum.case Let_def dispatch_def
          if_not_P [OF other(1)] if_not_P [OF other(2)]
        by (simp add: client_answer_def)
    qed
  qed
qed

end
