(* ===== verification/SqlCorrect.thy ===== *)
theory SqlCorrect
  imports Sql
begin

section \<open>The SQL parser: what it accepts and what it returns\<close>

text \<open>
  An abstract syntax of the supported statements (\<open>sql_ast\<close>, with its well-formedness \<open>ast_ok\<close>),
  the \<open>SqlStatement\<close> each stands for and a printer. \<open>parse_sound\<close> lemmas: what the parser returns
  is the statement of a well-formed abstract statement; \<open>parse_print\<close> lemmas: it parses the
  printed text of every well-formed statement back.
\<close>

datatype where_ast = WhereNone | WhereId int | WhereName string

datatype sql_ast =
  InsertId int string int
| InsertAuto string int
| Select "SqlColumn list option" where_ast

definition int_ok :: "int \<Rightarrow> bool" where
  "int_ok v \<longleftrightarrow> 0 \<le> v \<and> v \<le> INT_MAX"

definition name_ok :: "string \<Rightarrow> bool" where
  "name_ok s \<longleftrightarrow> length s < DB_NAME_MAX \<and> CHR 0x27 \<notin> set s"

fun where_ok :: "where_ast \<Rightarrow> bool" where
  "where_ok WhereNone \<longleftrightarrow> True"
| "where_ok (WhereId v) \<longleftrightarrow> int_ok v"
| "where_ok (WhereName s) \<longleftrightarrow> name_ok s"

fun ast_ok :: "sql_ast \<Rightarrow> bool" where
  "ast_ok (InsertId rid name age) \<longleftrightarrow> 0 < rid \<and> int_ok rid \<and> name_ok name \<and> int_ok age"
| "ast_ok (InsertAuto name age) \<longleftrightarrow> name_ok name \<and> int_ok age"
| "ast_ok (Select cols w) \<longleftrightarrow>
     (case cols of None \<Rightarrow> True | Some cs \<Rightarrow> cs \<noteq> [] \<and> distinct cs) \<and> where_ok w"

subsection \<open>The statement an abstract statement stands for\<close>

definition column_array :: "SqlColumn list \<Rightarrow> SqlColumn list" where
  "column_array cs = cs @ replicate (SQL_MAX_SELECT_COLUMNS - length cs) SQL_COLUMN_ID"

fun with_columns :: "SqlColumn list option \<Rightarrow> SqlStatement \<Rightarrow> SqlStatement" where
  "with_columns None stmt = stmt\<lparr>select_all := True\<rparr>"
| "with_columns (Some cs) stmt =
     stmt\<lparr>select_columns := column_array cs, select_column_count := length cs\<rparr>"

fun with_where :: "where_ast \<Rightarrow> SqlStatement \<Rightarrow> SqlStatement" where
  "with_where WhereNone stmt = stmt"
| "with_where (WhereId v) stmt = stmt\<lparr>where_type := SQL_WHERE_ID, where_id := v\<rparr>"
| "with_where (WhereName s) stmt = stmt\<lparr>where_type := SQL_WHERE_NAME, where_name := s\<rparr>"

fun stmt_of :: "sql_ast \<Rightarrow> SqlStatement" where
  "stmt_of (InsertId rid name age) =
     zero_stmt\<lparr>table := ''users'', insert_has_id := True, insert_id := rid, insert_name := name,
               insert_age := age\<rparr>"
| "stmt_of (InsertAuto name age) =
     zero_stmt\<lparr>table := ''users'', insert_name := name, insert_age := age\<rparr>"
| "stmt_of (Select cols w) =
     with_where w (with_columns cols (zero_stmt\<lparr>stmt_type := SQL_SELECT, table := ''users''\<rparr>))"

subsection \<open>Soundness\<close>

lemma SqlColumn_UNIV: "UNIV = {SQL_COLUMN_ID, SQL_COLUMN_NAME, SQL_COLUMN_AGE}"
  using SqlColumn.exhaust by blast

instance SqlColumn :: finite
  by standard (simp add: SqlColumn_UNIV)

lemma columns_at_most_3: "distinct (cs :: SqlColumn list) \<Longrightarrow> length cs \<le> 3"
proof -
  assume "distinct cs"
  then have "length cs = card (set cs)" by (simp add: distinct_card)
  also have "\<dots> \<le> card (UNIV :: SqlColumn set)" by (rule card_mono) simp_all
  also have "\<dots> \<le> 3" by (simp add: SqlColumn_UNIV)
  finally show ?thesis .
qed

lemma parse_int_value_ok: "parse_int_value p = Some (v, r) \<Longrightarrow> int_ok v"
  by (auto simp: parse_int_value_def int_ok_def INT_MAX_def Let_def split: prod.splits if_splits)

lemma string_literal_loop_ok:
  "string_literal_loop out_size len p = Some (s, r) \<Longrightarrow> len < out_size \<Longrightarrow>
   len + length s < out_size \<and> CHR 0x27 \<notin> set s"
proof (induction out_size len p arbitrary: s rule: string_literal_loop.induct)
  case (1 out_size len)
  then show ?case by simp
next
  case (2 out_size len c cur)
  then show ?case by (fastforce split: if_splits option.splits prod.splits)
qed

lemma parse_string_literal_ok: "parse_string_literal 128 p = Some (s, r) \<Longrightarrow> name_ok s"
  by (auto simp: parse_string_literal_def name_ok_def dest!: string_literal_loop_ok
      split: list.splits if_splits)

definition selecting :: "SqlStatement \<Rightarrow> SqlColumn list \<Rightarrow> SqlStatement" where
  "selecting stmt cs = stmt\<lparr>select_columns := column_array cs, select_column_count := length cs\<rparr>"

lemma count_selecting: "select_column_count (selecting stmt cs) = length cs"
  by (simp add: selecting_def)

lemma column_array_snoc:
  "length cs < 3 \<Longrightarrow> (column_array cs)[length cs := c] = column_array (cs @ [c])"
  by (cases "3 - length cs") (auto simp: column_array_def list_update_append)

lemma add_selecting:
  "length cs < 3 \<Longrightarrow> add_column (selecting stmt cs) c = selecting stmt (cs @ [c])"
  by (simp add: add_column_def selecting_def column_array_snoc)

lemma already_selected:
  "length cs \<le> 3 \<Longrightarrow> column_already_selected (selecting stmt cs) c \<longleftrightarrow> c \<in> set cs"
  by (auto simp: column_already_selected_def selecting_def column_array_def list_ex_iff in_set_conv_nth
      nth_append)

lemma select_columns_loop_sound:
  "select_columns_loop (selecting stmt cs) p = Inr (stmt', r) \<Longrightarrow> distinct cs \<Longrightarrow>
   \<exists>cs'. stmt' = selecting stmt cs' \<and> cs' \<noteq> [] \<and> distinct cs'"
proof (induction "3 - length cs" arbitrary: cs p)
  case 0
  then show ?case by (simp add: select_columns_loop.simps [of _ p] selecting_def)
next
  case (Suc m)
  then have len: "length cs < 3" by simp
  obtain c p1 where c: "parse_column_name p = Some (c, p1)" "c \<notin> set cs"
    using Suc.prems len already_selected [of cs stmt]
    by (subst (asm) select_columns_loop.simps)
      (auto simp: count_selecting split: if_splits option.splits)
  have step: "select_columns_loop (selecting stmt cs) p =
      (case skip_ws p1 of [] \<Rightarrow> Inr (selecting stmt (cs @ [c]), p1)
       | d # cur \<Rightarrow> if d \<noteq> CHR '','' then Inr (selecting stmt (cs @ [c]), p1)
                     else select_columns_loop (selecting stmt (cs @ [c])) cur)"
    using len c already_selected [of cs stmt c]
    by (subst select_columns_loop.simps) (simp add: add_selecting count_selecting Let_def)
  have d: "distinct (cs @ [c])" using c(2) Suc.prems(2) by simp
  show ?case
  proof (cases "\<exists>cur. skip_ws p1 = CHR '','' # cur")
    case True
    then obtain cur where "select_columns_loop (selecting stmt (cs @ [c])) cur = Inr (stmt', r)"
      using Suc.prems(1) step by auto
    then show ?thesis using Suc.hyps d by (intro Suc.hyps(1) [of "cs @ [c]"]) auto
  next
    case False
    then have "stmt' = selecting stmt (cs @ [c])"
      using Suc.prems(1) step by (auto split: list.splits if_splits)
    then show ?thesis using d by (intro exI [of _ "cs @ [c]"]) simp
  qed
qed

lemma parse_select_columns_sound:
  assumes "parse_select_columns zero_stmt p = Inr (stmt, r)"
  shows "\<exists>cols. stmt = with_columns cols zero_stmt \<and>
    (case cols of None \<Rightarrow> True | Some cs \<Rightarrow> cs \<noteq> [] \<and> distinct cs)"
proof -
  have zero: "zero_stmt\<lparr>select_all := False, select_column_count := 0\<rparr> = selecting zero_stmt []"
    by (simp add: zero_stmt_def selecting_def column_array_def)
  consider "select_columns_loop (selecting zero_stmt []) p = Inr (stmt, r)"
    | "stmt = zero_stmt\<lparr>select_all := True\<rparr>"
    using assms zero by (auto simp: parse_select_columns_def Let_def zero_stmt_def split: list.splits if_splits)
  then show ?thesis
  proof cases
    case 1
    then obtain cs where "stmt = selecting zero_stmt cs" "cs \<noteq> []" "distinct cs"
      using select_columns_loop_sound by force
    then show ?thesis by (intro exI [of _ "Some cs"]) (simp add: selecting_def)
  next
    case 2
    then show ?thesis by (intro exI [of _ None]) simp
  qed
qed

lemma parse_insert_values_sound:
  assumes "parse_insert_values_with_id stmt p = Inr stmt'"
  shows "\<exists>rid name age. 0 < rid \<and> int_ok rid \<and> name_ok name \<and> int_ok age \<and>
    stmt' = stmt\<lparr>insert_name := name, insert_age := age, insert_has_id := True, insert_id := rid\<rparr>"
  using assms unfolding parse_insert_values_with_id_def
  by (auto simp: need_Inr check_Inr not_le dest!: parse_int_value_ok parse_string_literal_ok)

lemma parse_insert_name_age_sound:
  assumes "parse_insert_name_age stmt p = Inr stmt'"
  shows "\<exists>name age. name_ok name \<and> int_ok age \<and>
    stmt' = stmt\<lparr>insert_name := name, insert_age := age, stmt_type := SQL_INSERT,
                 insert_has_id := False, table := ''users''\<rparr>"
  using assms unfolding parse_insert_name_age_def Let_def
  by (auto simp: need_Inr check_Inr dest!: parse_int_value_ok parse_string_literal_ok)

lemma parse_insert_sound:
  assumes "parse_insert p zero_stmt = Inr stmt"
  shows "\<exists>a. ast_ok a \<and> stmt = stmt_of a"
proof -
  obtain tbl rest where
    "(case expect_keyword ''VALUES'' rest of
       Some p \<Rightarrow> ok_then (parse_insert_values_with_id (zero_stmt\<lparr>table := tbl\<rparr>) p) (\<lambda>stmt.
         Inr (stmt\<lparr>stmt_type := SQL_INSERT, table := ''users''\<rparr>))
     | None \<Rightarrow> parse_insert_name_age (zero_stmt\<lparr>table := tbl\<rparr>) rest) = Inr stmt"
    using assms unfolding parse_insert_def need_Inr Let_def by (auto simp: check_Inr)
  then consider (with_id) rid name age where "0 < rid" "int_ok rid" "name_ok name" "int_ok age"
      "stmt = stmt_of (InsertId rid name age)"
    | (auto_id) name age where "name_ok name" "int_ok age" "stmt = stmt_of (InsertAuto name age)"
    by (auto dest!: parse_insert_values_sound parse_insert_name_age_sound simp: zero_stmt_def ok_then_Inr
        split: option.splits)
  then show ?thesis
  proof cases
    case with_id
    then show ?thesis by (intro exI [of _ "InsertId rid name age"]) simp
  next
    case auto_id
    then show ?thesis by (intro exI [of _ "InsertAuto name age"]) simp
  qed
qed

lemma parse_where_sound:
  assumes "parse_where stmt p = Inr stmt'" "where_type stmt = SQL_WHERE_NONE"
  shows "\<exists>w. where_ok w \<and> stmt' = with_where w stmt"
proof -
  consider v where "int_ok v" "stmt' = stmt\<lparr>where_type := SQL_WHERE_ID, where_id := v\<rparr>"
    | s where "name_ok s" "stmt' = stmt\<lparr>where_type := SQL_WHERE_NAME, where_name := s\<rparr>"
    using assms unfolding parse_where_def
    by (auto simp: need_Inr check_Inr dest!: parse_int_value_ok parse_string_literal_ok split: if_splits)
  then show ?thesis
  proof cases
    case (1 v)
    then show ?thesis by (intro exI [of _ "WhereId v"]) simp
  next
    case (2 s)
    then show ?thesis by (intro exI [of _ "WhereName s"]) simp
  qed
qed

lemma parse_select_sound:
  assumes "parse_select p zero_stmt = Inr stmt"
  shows "\<exists>a. ast_ok a \<and> stmt = stmt_of a"
proof -
  obtain p1 stmt1 p2 q where cols: "parse_select_columns zero_stmt p1 = Inr (stmt1, p2)"
    and rest: "(let stmt = stmt1\<lparr>stmt_type := SQL_SELECT, where_type := SQL_WHERE_NONE, table := ''users''\<rparr> in
         if at_statement_end q then Inr stmt else parse_where stmt q) = Inr stmt"
    using assms unfolding parse_select_def need_Inr by (auto simp: need_Inr check_Inr ok_then_Inr)
  obtain cs where cs: "stmt1 = with_columns cs zero_stmt"
      "case cs of None \<Rightarrow> True | Some l \<Rightarrow> l \<noteq> [] \<and> distinct l"
    using parse_select_columns_sound [OF cols] by blast
  define s0 where "s0 = stmt1\<lparr>stmt_type := SQL_SELECT, where_type := SQL_WHERE_NONE, table := ''users''\<rparr>"
  have "\<exists>w. where_ok w \<and> stmt = with_where w s0"
  proof (cases "at_statement_end q")
    case True
    then show ?thesis using rest by (intro exI [of _ WhereNone]) (simp add: s0_def)
  next
    case False
    then show ?thesis using rest by (intro parse_where_sound [of s0 q]) (simp_all add: s0_def)
  qed
  then obtain w where w: "where_ok w" "stmt = with_where w s0" by blast
  then have "ast_ok (Select cs w) \<and> stmt = stmt_of (Select cs w)"
    using cs by (cases cs; cases w) (auto simp: zero_stmt_def s0_def)
  then show ?thesis by blast
qed

lemma sql_parse_sound: "sql_parse s = Inr stmt \<Longrightarrow> \<exists>a. ast_ok a \<and> stmt = stmt_of a"
  using parse_insert_sound parse_select_sound
  by (auto simp: sql_parse_def Let_def split: if_splits)

subsection \<open>Printing\<close>

definition quoted :: "string \<Rightarrow> string" where
  "quoted s = CHR 0x27 # s @ [CHR 0x27]"

fun column_text :: "SqlColumn \<Rightarrow> string" where
  "column_text SQL_COLUMN_ID = ''id''"
| "column_text SQL_COLUMN_NAME = ''name''"
| "column_text SQL_COLUMN_AGE = ''age''"

fun columns_text :: "SqlColumn list \<Rightarrow> string" where
  "columns_text [] = []"
| "columns_text [c] = column_text c"
| "columns_text (c # cs) = column_text c @ '', '' @ columns_text cs"

fun where_text :: "where_ast \<Rightarrow> string" where
  "where_text WhereNone = []"
| "where_text (WhereId v) = '' WHERE id = '' @ dec_int v"
| "where_text (WhereName s) = '' WHERE name = '' @ quoted s"

fun sql_print :: "sql_ast \<Rightarrow> string" where
  "sql_print (InsertId rid name age) =
     ''INSERT INTO users VALUES ('' @ dec_int rid @ '', '' @ quoted name @ '', '' @ dec_int age @ '');''"
| "sql_print (InsertAuto name age) =
     ''INSERT INTO users name age VALUES '' @ quoted name @ '' '' @ dec_int age @ '';''"
| "sql_print (Select cols w) =
     ''SELECT '' @ (case cols of None \<Rightarrow> ''*'' | Some cs \<Rightarrow> columns_text cs) @ '' FROM users'' @
     where_text w @ '';''"

subsection \<open>Lexing printed text\<close>

lemmas char_classes = isspace_def word_char_def isalnum_def isalpha_def isupper_def islower_def isdigit_def

lemma skip_ws_Cons [simp]: "skip_ws (c # p) = (if isspace c then skip_ws p else c # p)"
  by (simp add: skip_ws_def)

lemma skip_ws_Nil [simp]: "skip_ws [] = []"
  by (simp add: skip_ws_def)

lemma skip_ws_dec [simp]: "skip_ws (dec_digits n @ rest) = dec_digits n @ rest"
  using dec_digits_Cons [of n] by (auto simp: isdigit_not_space)

text \<open>Every lexer skips leading blanks.\<close>

lemma skip_ws_idem [simp]: "skip_ws (skip_ws p) = skip_ws p"
  by (simp add: skip_ws_def dropWhile_idem)

lemma blank_lexers [simp]:
  assumes "isspace c"
  shows "read_word n (c # p) = read_word n p"
    and "expect_keyword k (c # p) = expect_keyword k p"
    and "parse_int_value (c # p) = parse_int_value p"
    and "parse_string_literal n (c # p) = parse_string_literal n p"
    and "parse_column_name (c # p) = parse_column_name p"
    and "expect_symbol d (c # p) = expect_symbol d p"
  using assms
  by (simp_all add: read_word_def expect_keyword_def parse_int_value_def parse_string_literal_def
      parse_column_name_def expect_symbol_def)

lemma isspace_blank [simp]: "isspace CHR '' ''"
  by (simp add: isspace_def)

lemma read_word_stop: "rest = [] \<or> \<not> word_char (hd rest) \<Longrightarrow> read_word_loop n len rest = Some ([], rest)"
  by (cases rest) auto

lemma parse_int_value_dec:
  assumes "int_ok v" "rest = [] \<or> \<not> isdigit (hd rest)"
  shows "parse_int_value (dec_int v @ rest) = Some (v, rest)"
proof -
  have v: "0 \<le> v" "v \<le> 2147483647" using assms(1) by (auto simp: int_ok_def INT_MAX_def)
  then have "int (nat v) \<le> LONG_MAX" by (simp add: LONG_MAX_def)
  then have "strtol (dec_digits (nat v) @ rest) = (v, rest)"
    using strtol_dec [OF assms(2), of "nat v"] v by simp
  moreover have "rest \<noteq> dec_digits (nat v) @ rest" using dec_digits_nonempty by auto
  ultimately show ?thesis using v by (simp add: parse_int_value_def dec_int_def Let_def)
qed

lemma string_literal_loop_quoted:
  "CHR 0x27 \<notin> set s \<Longrightarrow> len + length s < n \<Longrightarrow>
   string_literal_loop n len (s @ CHR 0x27 # rest) = Some (s, rest)"
  by (induction s arbitrary: len) auto

lemma parse_string_literal_quoted:
  "name_ok s \<Longrightarrow> parse_string_literal 128 (CHR 0x27 # s @ CHR 0x27 # rest) = Some (s, rest)"
  by (simp add: parse_string_literal_def name_ok_def string_literal_loop_quoted isspace_def)

lemma parse_column_text:
  assumes "rest \<noteq> []" "\<not> word_char (hd rest)"
  shows "parse_column_name (column_text c @ rest) = Some (c, rest)"
  using assms read_word_stop [of rest]
  by (cases c) (simp_all add: parse_column_name_def read_word_def strcasecmp_eq_def tolower_def char_classes)

lemma columns_text_Cons: "cs \<noteq> [] \<Longrightarrow> columns_text (c # cs) = column_text c @ CHR '','' # CHR '' '' # columns_text cs"
  by (cases cs) auto

lemma select_columns_loop_print:
  assumes "cs \<noteq> []" "distinct (pre @ cs)"
    and "rest = CHR '' '' # CHR ''F'' # text'"
  shows "select_columns_loop (selecting stmt pre) (columns_text cs @ rest) =
    Inr (selecting stmt (pre @ cs), rest)"
  using assms(1,2)
proof (induction cs arbitrary: pre)
  case Nil
  then show ?case by simp
next
  case (Cons c cs)
  have len: "length pre < 3" using columns_at_most_3 [of "pre @ c # cs"] Cons.prems(2) by simp
  have fresh: "\<not> column_already_selected (selecting stmt pre) c"
    using Cons.prems(2) already_selected [of pre stmt c] len by simp
  define tail where "tail = (if cs = [] then rest else CHR '','' # CHR '' '' # columns_text cs @ rest)"
  have print: "columns_text (c # cs) @ rest = column_text c @ tail"
    by (simp add: tail_def columns_text_Cons)
  have "tail \<noteq> []" "\<not> word_char (hd tail)"
    using assms(3) by (auto simp: tail_def char_classes)
  then have "parse_column_name (columns_text (c # cs) @ rest) = Some (c, tail)"
    unfolding print by (rule parse_column_text)
  then have step: "select_columns_loop (selecting stmt pre) (columns_text (c # cs) @ rest) =
      (case skip_ws tail of
         [] \<Rightarrow> Inr (selecting stmt (pre @ [c]), tail)
       | d # cur \<Rightarrow> if d \<noteq> CHR '','' then Inr (selecting stmt (pre @ [c]), tail)
                    else select_columns_loop (selecting stmt (pre @ [c])) cur)"
    using len fresh
    by (subst select_columns_loop.simps) (simp add: add_selecting count_selecting Let_def)
  show ?case
  proof (cases "cs = []")
    case True
    then show ?thesis using step assms(3) by (simp add: tail_def isspace_def)
  next
    case False
    then have "select_columns_loop (selecting stmt pre) (columns_text (c # cs) @ rest) =
        select_columns_loop (selecting stmt (pre @ [c])) (CHR '' '' # columns_text cs @ rest)"
      using step by (simp add: tail_def isspace_def)
    also have "\<dots> = select_columns_loop (selecting stmt (pre @ [c])) (columns_text cs @ rest)"
      by (subst (1 2) select_columns_loop.simps) simp
    also have "\<dots> = Inr (selecting stmt (pre @ c # cs), rest)"
      using Cons.IH [of "pre @ [c]"] False Cons.prems(2) by simp
    finally show ?thesis .
  qed
qed

lemmas parse_steps =
  need_def expect_keyword_def expect_symbol_def read_word_def strcasecmp_eq_def tolower_def
  char_classes at_statement_end_def

lemma parse_where_print:
  assumes "where_ok w" "w \<noteq> WhereNone"
  shows "parse_where stmt (where_text w @ '';'') = Inr (with_where w stmt)"
  using assms
  by (cases w) (simp_all add: parse_where_def parse_steps parse_int_value_dec [unfolded char_classes]
      parse_string_literal_quoted quoted_def)

lemma parse_print_insert_id:
  assumes "ast_ok (InsertId rid name age)"
  shows "sql_parse (sql_print (InsertId rid name age)) = Inr (stmt_of (InsertId rid name age))"
  using assms
  by (simp add: sql_parse_def Let_def strncasecmp_eq_def parse_insert_def parse_insert_values_with_id_def
      parse_steps parse_int_value_dec [unfolded char_classes] parse_string_literal_quoted quoted_def zero_stmt_def)

lemma parse_print_insert_auto:
  assumes "ast_ok (InsertAuto name age)"
  shows "sql_parse (sql_print (InsertAuto name age)) = Inr (stmt_of (InsertAuto name age))"
  using assms
  by (simp add: sql_parse_def Let_def strncasecmp_eq_def parse_insert_def parse_insert_name_age_def
      parse_steps parse_int_value_dec [unfolded char_classes] parse_string_literal_quoted quoted_def zero_stmt_def)

lemma parse_select_columns_print:
  assumes "case cols of None \<Rightarrow> True | Some cs \<Rightarrow> cs \<noteq> [] \<and> distinct cs"
    and "rest = CHR '' '' # CHR ''F'' # text'"
  shows "parse_select_columns zero_stmt (CHR '' '' # (case cols of None \<Rightarrow> ''*'' | Some cs \<Rightarrow> columns_text cs) @ rest) =
    Inr (with_columns cols zero_stmt, rest)"
proof (cases cols)
  case None
  then show ?thesis by (simp add: parse_select_columns_def isspace_def zero_stmt_def)
next
  case (Some cs)
  have zero: "zero_stmt\<lparr>select_all := False, select_column_count := 0\<rparr> = selecting zero_stmt []"
    by (simp add: zero_stmt_def selecting_def column_array_def)
  obtain c where c: "c \<in> {CHR ''i'', CHR ''n'', CHR ''a''}" "\<exists>q. columns_text cs @ rest = c # q"
  proof -
    obtain d ds where "cs = d # ds" using assms(1) Some by (cases cs) auto
    then show ?thesis using that by (cases d; cases ds) auto
  qed
  have "select_columns_loop (selecting zero_stmt []) (CHR '' '' # columns_text cs @ rest) =
      select_columns_loop (selecting zero_stmt []) (columns_text cs @ rest)"
    by (subst (1 2) select_columns_loop.simps) simp
  also have "\<dots> = Inr (selecting zero_stmt cs, rest)"
    using select_columns_loop_print [of cs "[]" rest text' zero_stmt] assms Some by simp
  finally show ?thesis using c Some
    by (auto simp: parse_select_columns_def zero isspace_def selecting_def)
qed

lemma parse_print_select:
  assumes "ast_ok (Select cols w)"
  shows "sql_parse (sql_print (Select cols w)) = Inr (stmt_of (Select cols w))"
proof -
  define rest where "rest = '' FROM users'' @ where_text w @ '';''"
  define s1 where "s1 = with_columns cols zero_stmt"
  have cols: "parse_select_columns zero_stmt (CHR '' '' # (case cols of None \<Rightarrow> ''*'' | Some cs \<Rightarrow> columns_text cs) @ rest) =
      Inr (s1, rest)"
    unfolding s1_def rest_def by (rule parse_select_columns_print) (use assms in auto)
  have key: "expect_keyword ''SELECT'' (''SELECT '' @ q) = Some (CHR '' '' # q)" for q
    by (simp add: parse_steps)
  have from_users: "expect_keyword ''FROM'' rest = Some ('' users'' @ where_text w @ '';'')"
    by (simp add: rest_def parse_steps)
  have users: "read_word 32 ('' users'' @ where_text w @ '';'') = Some (''users'', where_text w @ '';'')"
    by (cases w) (simp_all add: parse_steps)
  define s2 where "s2 = s1\<lparr>stmt_type := SQL_SELECT, where_type := SQL_WHERE_NONE, table := ''users''\<rparr>"
  have tail: "(if at_statement_end (where_text w @ '';'') then Inr s2
      else parse_where s2 (where_text w @ '';'')) = Inr (with_where w s2)"
  proof (cases "w = WhereNone")
    case True
    then show ?thesis by (simp add: at_statement_end_def isspace_def)
  next
    case False
    then have "\<not> at_statement_end (where_text w @ '';'')"
      by (cases w) (simp_all add: at_statement_end_def isspace_def)
    then show ?thesis using parse_where_print [OF _ False, of s2] assms by simp
  qed
  have "parse_select (''SELECT '' @ (case cols of None \<Rightarrow> ''*'' | Some cs \<Rightarrow> columns_text cs) @ rest) zero_stmt =
      Inr (with_where w s2)"
    unfolding parse_select_def key need_simps cols ok_then_simps prod.case from_users users Let_def
      s2_def [symmetric] tail by (simp add: strcasecmp_eq_def)
  moreover have "with_where w s2 = stmt_of (Select cols w)"
    by (cases cols; cases w) (auto simp: s2_def s1_def zero_stmt_def)
  ultimately show ?thesis
    by (simp add: sql_parse_def strncasecmp_eq_def strcasecmp_eq_def tolower_def char_classes rest_def)
qed

lemma sql_parse_print: "ast_ok a \<Longrightarrow> sql_parse (sql_print a) = Inr (stmt_of a)"
  using parse_print_insert_id parse_print_insert_auto parse_print_select by (cases a) blast+

end
