(* ===== verification/SqlChars.thy ===== *)
theory SqlChars
  imports SqlCorrect
begin

section \<open>The parser invents no characters\<close>

text \<open>
  Every pointer the parser moves stays inside the text, so a name it stores consists of bytes of
  the text; in particular it has no NUL.
\<close>

lemma set_skip_ws: "set (skip_ws p) \<subseteq> set p"
  unfolding skip_ws_def by (auto dest: set_dropWhileD)

lemma skip_ws_chars: "skip_ws p = c # cur \<Longrightarrow> set cur \<subseteq> set p"
  using set_skip_ws [of p] by auto

lemma read_word_loop_chars: "read_word_loop n len p = Some (w, r) \<Longrightarrow> set r \<subseteq> set p"
proof (induction n len p arbitrary: w r rule: read_word_loop.induct)
  case (2 n len c cur)
  then show ?case by (fastforce split: if_splits option.splits prod.splits)
qed simp

lemma read_word_chars: "read_word n p = Some (w, r) \<Longrightarrow> set r \<subseteq> set p"
proof -
  assume "read_word n p = Some (w, r)"
  then obtain c cur where c: "skip_ws p = c # cur" "read_word_loop n 0 (c # cur) = Some (w, r)"
    unfolding read_word_def by (auto simp del: read_word_loop.simps split: list.splits if_splits)
  then show ?thesis using read_word_loop_chars [OF c(2)] set_skip_ws [of p] by auto
qed

lemma expect_keyword_chars: "expect_keyword k p = Some r \<Longrightarrow> set r \<subseteq> set p"
  unfolding expect_keyword_def using read_word_chars by (fastforce split: option.splits if_splits)

lemma expect_symbol_chars: "expect_symbol c p = Some r \<Longrightarrow> set r \<subseteq> set p"
  unfolding expect_symbol_def by (auto split: list.splits if_splits dest: skip_ws_chars)

lemma sign_part_chars: "set (snd (sign_part s)) \<subseteq> set s"
  by (auto simp: sign_part_def split: list.splits)

lemma strtol_chars: "set (snd (strtol s)) \<subseteq> set s"
proof -
  have "set (dropWhile isdigit (snd (sign_part (dropWhile isspace s)))) \<subseteq> set s"
    using sign_part_chars [of "dropWhile isspace s"] set_dropWhileD by (meson subset_iff)
  then show ?thesis by (simp add: strtol_def Let_def split: prod.splits) (metis snd_conv)
qed

lemma parse_int_value_chars: "parse_int_value p = Some (v, r) \<Longrightarrow> set r \<subseteq> set p"
proof -
  assume "parse_int_value p = Some (v, r)"
  then have "r = snd (strtol (skip_ws p))"
    by (auto simp: parse_int_value_def Let_def split: prod.splits if_splits)
  then show ?thesis using strtol_chars [of "skip_ws p"] set_skip_ws [of p] by blast
qed

lemma string_literal_loop_chars:
  "string_literal_loop n len p = Some (s, r) \<Longrightarrow> set s \<subseteq> set p \<and> set r \<subseteq> set p"
proof (induction n len p arbitrary: s r rule: string_literal_loop.induct)
  case (2 n len c cur)
  then show ?case by (fastforce split: if_splits option.splits prod.splits)
qed simp

lemma parse_string_literal_chars:
  "parse_string_literal n p = Some (s, r) \<Longrightarrow> set s \<subseteq> set p \<and> set r \<subseteq> set p"
  unfolding parse_string_literal_def using skip_ws_chars [of p]
  by (auto split: list.splits if_splits dest!: string_literal_loop_chars)

lemmas parser_chars = read_word_chars expect_keyword_chars expect_symbol_chars parse_int_value_chars
  parse_string_literal_chars

lemma parse_insert_values_chars:
  "parse_insert_values_with_id stmt p = Inr stmt' \<Longrightarrow> set (insert_name stmt') \<subseteq> set p"
  unfolding parse_insert_values_with_id_def by (fastforce simp: need_Inr check_Inr dest!: parser_chars)

lemma parse_insert_name_age_chars:
  "parse_insert_name_age stmt p = Inr stmt' \<Longrightarrow> set (insert_name stmt') \<subseteq> set p"
  unfolding parse_insert_name_age_def Let_def by (fastforce simp: need_Inr check_Inr dest!: parser_chars)

lemma parse_insert_chars:
  assumes "parse_insert s stmt0 = Inr stmt"
  shows "set (insert_name stmt) \<subseteq> set s"
proof -
  obtain p1 p2 tbl rest stmt1 where p: "expect_keyword ''INSERT'' s = Some p1" "expect_keyword ''INTO'' p1 = Some p2"
      "read_word 32 p2 = Some (tbl, rest)"
    and r: "(case expect_keyword ''VALUES'' rest of
       Some p \<Rightarrow> ok_then (parse_insert_values_with_id stmt1 p) (\<lambda>stmt.
         Inr (stmt\<lparr>stmt_type := SQL_INSERT, table := ''users''\<rparr>))
     | None \<Rightarrow> parse_insert_name_age stmt1 rest) = Inr stmt"
    using assms unfolding parse_insert_def need_Inr Let_def by (auto simp: check_Inr)
  have "set rest \<subseteq> set s" using parser_chars(2) [OF p(1)] parser_chars(2) [OF p(2)] parser_chars(1) [OF p(3)] by blast
  moreover have "set (insert_name stmt) \<subseteq> set rest"
  proof (cases "expect_keyword ''VALUES'' rest")
    case None
    then show ?thesis using r parse_insert_name_age_chars by simp
  next
    case (Some q)
    then obtain stmt2 where "parse_insert_values_with_id stmt1 q = Inr stmt2" "insert_name stmt = insert_name stmt2"
      using r by (auto simp: ok_then_Inr)
    then show ?thesis using parse_insert_values_chars parser_chars(2) [OF Some] by fastforce
  qed
  ultimately show ?thesis by blast
qed

lemma select_name: "insert_name (stmt_of (Select cols w)) = []"
  by (cases cols; cases w) (simp_all add: zero_stmt_def)

lemma sql_parse_chars:
  assumes "sql_parse s = Inr stmt"
  shows "set (insert_name stmt) \<subseteq> set s"
proof -
  consider "parse_insert (skip_ws s) zero_stmt = Inr stmt" | "parse_select (skip_ws s) zero_stmt = Inr stmt"
    using assms by (auto simp: sql_parse_def Let_def split: if_splits)
  then show ?thesis
  proof cases
    case 1
    then show ?thesis using parse_insert_chars set_skip_ws [of s] by blast
  next
    case 2
    have "stmt_type stmt = SQL_SELECT"
    proof -
      obtain stmt1 q where "(let stmt = stmt1\<lparr>stmt_type := SQL_SELECT, where_type := SQL_WHERE_NONE, table := ''users''\<rparr> in
         if at_statement_end q then Inr stmt else parse_where stmt q) = Inr stmt"
        using 2 unfolding parse_select_def need_Inr by (auto simp: need_Inr check_Inr ok_then_Inr)
      then show ?thesis
        by (auto simp: Let_def parse_where_def need_Inr check_Inr split: if_splits)
    qed
    moreover obtain a where a: "stmt = stmt_of a" using sql_parse_sound [OF assms] by blast
    ultimately have "insert_name stmt = []"
      using select_name by (cases a) (simp_all add: zero_stmt_def)
    then show ?thesis by simp
  qed
qed

end
