(* ===== verification/JsonCorrect.thy ===== *)
theory JsonCorrect
  imports JsonUtil
begin

section \<open>The JSON builder: memory safety and contents\<close>

text \<open>
  \<open>jb_room b s\<close>: the block of \<open>b\<close> starts with the text \<open>s\<close>, has room for its NUL and is as large
  as \<open>cap\<close> says, a power of two; \<open>jb_holds b s\<close>: the NUL is there too. \<open>jb_appends f t\<close> is the contract of an operation of the builder: started on a
  builder that holds \<open>s\<close> it returns (no access outside the block, no endless loop), and when it
  reports success the builder holds \<open>s @ t\<close>; it succeeds when no call fails and the text stays
  below \<open>JSON_MAX\<close> bytes. Chains of such operations meet the contract of the concatenation.
\<close>

definition jb_room :: "JsonBuilder \<Rightarrow> string \<Rightarrow> bool" where
  "jb_room b s \<longleftrightarrow>
     (case jb_data b of None \<Rightarrow> False
      | Some buf \<Rightarrow> length buf = jb_cap b \<and> take (length s) buf = map Some s) \<and>
     jb_len b = length s \<and> length s < jb_cap b \<and> jb_cap b \<le> SIZE_MAX \<and> (\<exists>k. jb_cap b = 2 ^ k)"

definition jb_holds :: "JsonBuilder \<Rightarrow> string \<Rightarrow> bool" where
  "jb_holds b s \<longleftrightarrow> jb_room b s \<and>
     (case jb_data b of None \<Rightarrow> False | Some buf \<Rightarrow> read_at (length s) buf = Some (CHR 0x00))"

lemma jb_holds_room: "jb_holds b s \<Longrightarrow> jb_room b s"
  by (simp add: jb_holds_def)

definition JSON_MAX :: nat where
  "JSON_MAX = 4611686018427387904"

definition jb_result ::
    "(bool \<times> 'w os_scheme \<times> JsonBuilder) option \<Rightarrow> 'w os_scheme \<Rightarrow> nat \<Rightarrow> string \<Rightarrow> bool" where
  "jb_result r os bound s \<longleftrightarrow>
     (case r of
        None \<Rightarrow> False
      | Some (ok, os', b) \<Rightarrow> runs_to os os' \<and> (ok \<longrightarrow> jb_holds b s) \<and>
          (granted os os' \<longrightarrow> length s < bound \<longrightarrow> ok))"

definition jb_appends ::
    "('w os_scheme \<times> JsonBuilder \<Rightarrow> (bool \<times> 'w os_scheme \<times> JsonBuilder) option) \<Rightarrow> string \<Rightarrow> bool" where
  "jb_appends f t \<longleftrightarrow> (\<forall>os b s. jb_holds b s \<longrightarrow> jb_result (f (os, b)) os JSON_MAX (s @ t))"

lemma jb_appendsI:
  "(\<And>os b s. jb_holds b s \<Longrightarrow> jb_result (f (os, b)) os JSON_MAX (s @ t)) \<Longrightarrow> jb_appends f t"
  by (simp add: jb_appends_def)

lemma jb_appendsD: "jb_appends f t \<Longrightarrow> jb_holds b s \<Longrightarrow> jb_result (f (os, b)) os JSON_MAX (s @ t)"
  by (simp add: jb_appends_def)

lemma jb_resultE:
  assumes "jb_result r os bound s"
  obtains ok os' b where "r = Some (ok, os', b)" "runs_to os os'" "ok \<Longrightarrow> jb_holds b s"
    "granted os os' \<Longrightarrow> length s < bound \<Longrightarrow> ok"
  using assms by (auto simp: jb_result_def split: option.splits)

lemma jb_result_Some:
  "jb_result (Some (ok, os', b)) os bound s \<longleftrightarrow>
     runs_to os os' \<and> (ok \<longrightarrow> jb_holds b s) \<and> (granted os os' \<longrightarrow> length s < bound \<longrightarrow> ok)"
  by (simp add: jb_result_def)

text \<open>A second step after a first one that succeeded, in an environment further on.\<close>

lemma jb_result_later:
  assumes "jb_result r os1 bound s" "runs_to os os1"
  shows "jb_result r os bound s"
  using assms by (auto simp: jb_result_def intro: runs_to_trans granted_right split: option.splits)

subsection \<open>Chains\<close>

lemma jb_appends_Nil: "jb_appends (chain []) []"
  by (rule jb_appendsI) (simp add: jb_result_Some)

lemma jb_appends_Cons:
  assumes f: "jb_appends f t" and fs: "jb_appends (chain fs) ts"
  shows "jb_appends (chain (f # fs)) (t @ ts)"
proof (rule jb_appendsI)
  fix os :: "'a os_scheme" and b s assume h: "jb_holds b s"
  obtain ok os1 b1 where 1: "f (os, b) = Some (ok, os1, b1)" "runs_to os os1" "ok \<Longrightarrow> jb_holds b1 (s @ t)"
      "granted os os1 \<Longrightarrow> length (s @ t) < JSON_MAX \<Longrightarrow> ok"
    by (rule jb_resultE [OF jb_appendsD [OF f h, of os]]) blast
  show "jb_result (chain (f # fs) (os, b)) os JSON_MAX (s @ t @ ts)"
  proof (cases ok)
    case False
    then show ?thesis using 1(1,2,4) by (auto simp: jb_result_Some)
  next
    case True
    have "jb_result (chain fs (os1, b1)) os1 JSON_MAX ((s @ t) @ ts)"
      by (rule jb_appendsD [OF fs 1(3) [OF True]])
    from jb_result_later [OF this 1(2)] show ?thesis using 1(1) True by simp
  qed
qed

lemma jb_appends_chain2: "jb_appends f s \<Longrightarrow> jb_appends g t \<Longrightarrow> jb_appends (chain [f, g]) (s @ t)"
  using jb_appends_Cons [OF _ jb_appends_Cons [OF _ jb_appends_Nil]] by (metis append_Nil2)

lemma jb_appends_chain3:
  "jb_appends f s \<Longrightarrow> jb_appends g t \<Longrightarrow> jb_appends h u \<Longrightarrow> jb_appends (chain [f, g, h]) (s @ t @ u)"
  using jb_appends_Cons [OF _ jb_appends_chain2] by blast

subsection \<open>Growing\<close>

lemma grow_cap_returns:
  "0 < c \<Longrightarrow> c \<le> SIZE_MAX \<Longrightarrow> \<exists>r. grow_cap c n = Some r \<and>
     (\<forall>c'. r = Some c' \<longrightarrow> n \<le> c' \<and> c \<le> c' \<and> c' \<le> SIZE_MAX \<and> (\<exists>k. c' = c * 2 ^ k)) \<and> (n \<le> Suc (SIZE_MAX div 2) \<longrightarrow> r \<noteq> None)"
proof (induction "n - c" arbitrary: c rule: less_induct)
  case less
  show ?case
  proof (cases "c < n \<and> c \<le> SIZE_MAX div 2")
    case True
    then have m: "size_mul c 2 = c * 2" "c * 2 \<le> SIZE_MAX" by (auto intro!: size_mul_exact)
    have "n - c * 2 < n - c" using True less.prems by arith
    then obtain r where r: "grow_cap (c * 2) n = Some r"
        "\<And>c'. r = Some c' \<Longrightarrow> n \<le> c' \<and> c * 2 \<le> c' \<and> c' \<le> SIZE_MAX \<and> (\<exists>k. c' = c * 2 * 2 ^ k)"
        "n \<le> Suc (SIZE_MAX div 2) \<Longrightarrow> r \<noteq> None"
      using less.hyps [of "c * 2"] m(2) less.prems by auto
    have "\<exists>k. c' = c * 2 ^ k" if "\<exists>k. c' = c * 2 * 2 ^ k" for c'
      using that by (metis mult.assoc power_Suc)
    moreover have "grow_cap c n = Some r"
      using True r(1) by (subst grow_cap.simps) (simp add: m(1))
    ultimately show ?thesis using r(2,3) by fastforce
  next
    case False
    then show ?thesis using less.prems by (subst grow_cap.simps) (auto intro: exI [of _ 0])
  qed
qed

lemma reserve_needed:
  assumes "jb_room b s"
  shows "size_sub (size_sub SIZE_MAX (jb_len b)) 1 = SIZE_MAX - length s - 1"
    and "extra \<le> SIZE_MAX - length s - 1 \<Longrightarrow> size_add (size_add (jb_len b) extra) 1 = length s + extra + 1"
proof -
  have l: "jb_len b = length s" "length s < SIZE_MAX" using assms by (auto simp: jb_room_def)
  then have "size_sub SIZE_MAX (jb_len b) = SIZE_MAX - length s" by (simp add: size_sub_exact)
  then show "size_sub (size_sub SIZE_MAX (jb_len b)) 1 = SIZE_MAX - length s - 1"
    using l by (simp add: size_sub_exact Suc_le_eq)
  assume "extra \<le> SIZE_MAX - length s - 1"
  then have "length s + extra + 1 \<le> SIZE_MAX" using l(2) by arith
  then show "size_add (size_add (jb_len b) extra) 1 = length s + extra + 1"
    using l(1) by (simp add: size_add_exact)
qed

lemma JSON_MAX_half: "2 * JSON_MAX = Suc (SIZE_MAX div 2)" "2 * JSON_MAX \<le> SIZE_MAX"
  by (simp_all add: JSON_MAX_def SIZE_MAX_def)

lemma jb_room_half: "jb_room b s \<Longrightarrow> jb_cap b \<le> 2 * JSON_MAX"
proof -
  assume "jb_room b s"
  then obtain k where k: "jb_cap b = 2 ^ k" "2 ^ k \<le> SIZE_MAX" by (auto simp: jb_room_def)
  have "k < 64"
  proof (rule ccontr)
    assume "\<not> k < 64"
    then have "(2 :: nat) ^ 64 \<le> 2 ^ k" by (intro power_increasing) auto
    then show False using k(2) by (simp add: SIZE_MAX_def)
  qed
  then have "k \<le> 63" by simp
  then have "(2 :: nat) ^ k \<le> 2 ^ 63" by (rule power_increasing) simp
  then show ?thesis using k(1) by (simp add: JSON_MAX_def)
qed

lemma jb_room_grow:
  assumes "jb_room b s" "jb_data b = Some buf" "jb_cap b \<le> c" "c \<le> SIZE_MAX" "\<exists>k. c = 2 ^ k"
  shows "jb_room (b\<lparr>jb_data := Some (resize_block c buf), jb_cap := c\<rparr>) s"
  using assms by (simp add: jb_room_def take_resize_block)

lemma json_builder_reserve_ok:
  assumes "jb_room b s"
  obtains ok os' b' where "json_builder_reserve extra (os, b) = Some (ok, os', b')" "runs_to os os'"
    "jb_room b' s" "ok \<Longrightarrow> length s + extra < jb_cap b'"
    "granted os os' \<Longrightarrow> length s + extra < 2 * JSON_MAX \<Longrightarrow> ok"
proof -
  obtain buf where b: "jb_data b = Some buf" "length s < jb_cap b" "jb_cap b \<le> SIZE_MAX"
    using assms by (auto simp: jb_room_def split: option.splits)
  note len = reserve_needed [OF assms]
  define R where "R = json_builder_reserve extra (os, b)"
  show thesis
  proof (cases "extra > SIZE_MAX - length s - 1")
    case True
    then have "R = Some (False, os, b)" by (simp add: R_def json_builder_reserve_def len(1) del: One_nat_def)
    moreover have "\<not> length s + extra < 2 * JSON_MAX"
      using True JSON_MAX_half(2) by arith
    ultimately show thesis using that assms unfolding R_def by blast
  next
    case False
    then have needed: "size_add (size_add (jb_len b) extra) 1 = length s + extra + 1" by (intro len(2)) simp
    show thesis
    proof (cases "length s + extra + 1 \<le> jb_cap b")
      case True
      then have "R = Some (True, os, b)" using False by (simp add: R_def json_builder_reserve_def len(1) needed del: One_nat_def)
      then show thesis using that assms True unfolding R_def by (metis Suc_eq_plus1 Suc_le_lessD runs_to_refl)
    next
      case grow: False
      have cap: "0 < jb_cap b" using b(2) by simp
      obtain r where r: "grow_cap (jb_cap b) (length s + extra + 1) = Some r"
          "\<And>c'. r = Some c' \<Longrightarrow> length s + extra + 1 \<le> c' \<and> jb_cap b \<le> c' \<and> c' \<le> SIZE_MAX \<and>
            (\<exists>k. c' = jb_cap b * 2 ^ k)"
          "length s + extra + 1 \<le> Suc (SIZE_MAX div 2) \<Longrightarrow> r \<noteq> None"
        using grow_cap_returns [OF cap b(3), of "length s + extra + 1"] by auto
      obtain ok os' where sc: "sys_call os = (ok, os')" by fastforce
      have rt: "runs_to os os'" "granted os os' \<Longrightarrow> ok"
        using sc sys_call_granted by blast+
      show thesis
      proof (cases r)
        case None
        then have "R = Some (False, os, b)" using False grow cap
          by (simp add: R_def json_builder_reserve_def len(1) needed r(1) del: One_nat_def)
        moreover have "\<not> length s + extra < 2 * JSON_MAX" using r(3) None JSON_MAX_half(1) by auto
        ultimately show thesis using that assms unfolding R_def by blast
      next
        case (Some c')
        have "\<exists>k. c' = 2 ^ k"
          using assms r(2) [OF Some] by (auto simp: jb_room_def simp flip: power_add)
        moreover have "R = (if ok then Some (True, os', b\<lparr>jb_data := Some (resize_block c' buf), jb_cap := c'\<rparr>)
            else Some (False, os', b))"
          using Some False grow cap sc b(1) by (simp add: R_def json_builder_reserve_def len(1) needed r(1) del: One_nat_def)
        ultimately show thesis
          using that [of ok os' "if ok then b\<lparr>jb_data := Some (resize_block c' buf), jb_cap := c'\<rparr> else b"]
            rt r(2) [OF Some] jb_room_grow [OF assms b(1), of c'] assms by (auto simp: R_def)
      qed
    qed
  qed
qed

subsection \<open>Appending\<close>

lemma jb_room_write:
  assumes "jb_room b s" "length s + length w \<le> jb_cap b"
  shows "\<exists>buf. jb_write (length s) w b = Some (b\<lparr>jb_data := Some buf\<rparr>) \<and> length buf = jb_cap b \<and>
    take (length s + length w) buf = map Some (s @ w)"
proof -
  obtain buf where b: "jb_data b = Some buf" "length buf = jb_cap b" "take (length s) buf = map Some s"
    using assms by (auto simp: jb_room_def split: option.splits)
  then show ?thesis using write_at_prefix [OF b(3), of w] assms(2) by (auto simp: jb_write_def)
qed

lemma jb_write_ok:
  assumes "jb_room b s" "length s + length t < jb_cap b"
  shows "\<exists>b'. jb_write (length s) (t @ [CHR 0x00]) b = Some b' \<and> jb_cap b' = jb_cap b \<and> jb_len b' = jb_len b \<and>
    jb_holds (b'\<lparr>jb_len := length s + length t\<rparr>) (s @ t)"
proof -
  obtain buf where w: "jb_write (length s) (t @ [CHR 0x00]) b = Some (b\<lparr>jb_data := Some buf\<rparr>)"
      "length buf = jb_cap b" "take (length s + length (t @ [CHR 0x00])) buf = map Some (s @ t @ [CHR 0x00])"
    using jb_room_write [OF assms(1), of "t @ [CHR 0x00]"] assms(2) by auto
  let ?n = "length s + length t"
  have "take ?n (take (Suc ?n) buf) = map Some (s @ t)" using w(3) by simp
  then have pre: "take ?n buf = map Some (s @ t)" by (simp add: min_def)
  have "take (Suc ?n) buf ! ?n = Some (CHR 0x00)" using w(3) by (simp add: nth_append)
  then have "buf ! ?n = Some (CHR 0x00)" by simp
  then show ?thesis using w pre assms
    by (auto simp: jb_holds_def jb_room_def read_at_def)
qed

lemma json_builder_append_appends: "jb_appends (json_builder_append t) t"
proof (rule jb_appendsI)
  fix os :: "'a os_scheme" and b s assume h: "jb_holds b s"
  obtain ok os' b' where r: "json_builder_reserve (length t) (os, b) = Some (ok, os', b')" "runs_to os os'"
      "jb_room b' s" "ok \<Longrightarrow> length s + length t < jb_cap b'"
      "granted os os' \<Longrightarrow> length s + length t < 2 * JSON_MAX \<Longrightarrow> ok"
    by (rule json_builder_reserve_ok [OF jb_holds_room [OF h]]) blast
  have len: "jb_len b' = length s" "jb_cap b' \<le> SIZE_MAX" using r(3) by (auto simp: jb_room_def)
  show "jb_result (json_builder_append t (os, b)) os JSON_MAX (s @ t)"
  proof (cases ok)
    case True
    obtain b2 where w: "jb_write (length s) (t @ [CHR 0x00]) b' = Some b2" "jb_len b2 = jb_len b'"
        "jb_holds (b2\<lparr>jb_len := length s + length t\<rparr>) (s @ t)"
      using jb_write_ok [OF r(3) r(4) [OF True]] by blast
    have "size_add (length s) (length t) = length s + length t"
      using r(4) [OF True] len by (simp add: size_add_exact)
    then have "json_builder_append t (os, b) = Some (True, os', b2\<lparr>jb_len := length s + length t\<rparr>)"
      using r(1) True w len(1) by (simp add: json_builder_append_def)
    then show ?thesis using r(2) w(3) by (simp add: jb_result_Some)
  next
    case False
    then have "json_builder_append t (os, b) = Some (False, os', b')"
      using r(1) by (simp add: json_builder_append_def)
    then show ?thesis using r(2,5) False by (auto simp: jb_result_Some)
  qed
qed

subsection \<open>Formatted appends\<close>

lemma vsnprintf_fits:
  assumes "jb_room b s" "length s + length t < jb_cap b"
  shows "\<exists>b'. vsnprintf_at (length s) (size_sub (jb_cap b) (jb_len b)) t b = Some b' \<and> jb_cap b' = jb_cap b \<and>
    jb_len b' = length s \<and> jb_holds (b'\<lparr>jb_len := length s + length t\<rparr>) (s @ t)"
proof -
  have l: "jb_len b = length s" "size_sub (jb_cap b) (length s) = jb_cap b - length s"
    using assms by (auto simp: jb_room_def size_sub_exact)
  have "take (jb_cap b - length s - 1) t = t" using assms(2) by simp
  then show ?thesis using jb_write_ok [OF assms] l assms(2) by (auto simp: vsnprintf_at_def)
qed

text \<open>When the text does not fit, the part that was written stays above \<open>len\<close>.\<close>

lemma vsnprintf_any:
  assumes "jb_room b s"
  shows "\<exists>b'. vsnprintf_at (length s) (size_sub (jb_cap b) (jb_len b)) t b = Some b' \<and> jb_cap b' = jb_cap b \<and>
    jb_room b' s"
proof -
  have l: "jb_len b = length s" "size_sub (jb_cap b) (length s) = jb_cap b - length s" "length s < jb_cap b"
    using assms by (auto simp: jb_room_def size_sub_exact)
  define w where "w = take (jb_cap b - length s - 1) t @ [CHR 0x00]"
  have fit: "length s + length w \<le> jb_cap b" using l(3) by (auto simp: w_def min_def)
  obtain buf where w: "jb_write (length s) w b = Some (b\<lparr>jb_data := Some buf\<rparr>)" "length buf = jb_cap b"
      "take (length s + length w) buf = map Some (s @ w)"
    using jb_room_write [OF assms fit] by blast
  have "take (length s) (take (length s + length w) buf) = map Some s" unfolding w(3) by simp
  then have "take (length s) buf = map Some s" by simp
  then show ?thesis using assms w l by (auto simp: vsnprintf_at_def w_def jb_room_def)
qed

lemma appendf_fits:
  assumes "jb_room b s" "length s + length t < jb_cap b"
  shows "jb_result (json_builder_appendf t (os, b)) os JSON_MAX (s @ t)"
proof -
  obtain b' where v: "vsnprintf_at (length s) (size_sub (jb_cap b) (jb_len b)) t b = Some b'" "jb_cap b' = jb_cap b"
      "jb_len b' = length s" "jb_holds (b'\<lparr>jb_len := length s + length t\<rparr>) (s @ t)"
    using vsnprintf_fits [OF assms] by blast
  have l: "jb_len b = length s" "size_add (length s) (length t) = length s + length t"
    using assms by (auto simp: jb_room_def size_add_exact)
  obtain ok os' where sc: "sys_call os = (ok, os')" by fastforce
  have rt: "runs_to os os'" "granted os os' \<Longrightarrow> ok"
    using sc sys_call_granted by blast+
  have "json_builder_appendf t (os, b) =
      (if ok then Some (True, os', b'\<lparr>jb_len := length s + length t\<rparr>) else Some (False, os', b))"
    using v(1) unfolding l(1)
    by (subst json_builder_appendf.simps) (simp add: sc l v(2,3) assms(2))
  then show ?thesis using rt v(4) by (auto simp: jb_result_Some)
qed

text \<open>The loop runs at most twice: the second round has the room the first one asked for.\<close>

lemma json_builder_appendf_appends:
  assumes "length t < JSON_MAX"
  shows "jb_appends (json_builder_appendf t) t"
proof (rule jb_appendsI)
  fix os :: "'a os_scheme" and b s assume "jb_holds b s"
  then have h: "jb_room b s" by (rule jb_holds_room)
  show "jb_result (json_builder_appendf t (os, b)) os JSON_MAX (s @ t)"
  proof (cases "length s + length t < jb_cap b")
    case True
    then show ?thesis by (rule appendf_fits [OF h])
  next
    case False
    obtain b1 where v: "vsnprintf_at (length s) (size_sub (jb_cap b) (jb_len b)) t b = Some b1" "jb_cap b1 = jb_cap b"
        "jb_room b1 s"
      using vsnprintf_any [OF h] by blast
    obtain ok os1 where sc: "sys_call os = (ok, os1)" by fastforce
    have rt: "runs_to os os1" "granted os os1 \<Longrightarrow> ok"
      using sc sys_call_granted by blast+
    show ?thesis
    proof (cases ok)
      case no: False
      have "json_builder_appendf t (os, b) = Some (False, os1, b)"
        using v(1) h no by (subst json_builder_appendf.simps) (simp add: sc jb_room_def)
      then show ?thesis using rt no by (auto simp: jb_result_Some)
    next
      case yes: True
      obtain rok os2 b2 where r: "json_builder_reserve (length t + 1) (os1, b1) = Some (rok, os2, b2)" "runs_to os1 os2"
          "jb_room b2 s" "rok \<Longrightarrow> length s + (length t + 1) < jb_cap b2"
          "granted os1 os2 \<Longrightarrow> length s + (length t + 1) < 2 * JSON_MAX \<Longrightarrow> rok"
        by (rule json_builder_reserve_ok [OF v(3)]) blast
      have ad: "size_add (length t) 1 = length t + 1"
        using assms JSON_MAX_half by (simp add: size_add_exact)
      have len: "jb_len b = length s" "jb_len b1 = length s" using h v(3) by (auto simp: jb_room_def)
      have "length s + length t \<le> SIZE_MAX"
        using jb_room_half [OF h] h assms by (simp add: jb_room_def JSON_MAX_def SIZE_MAX_def)
      then have nofit: "\<not> size_add (length s) (length t) < jb_cap b1"
        using False v(2) by (simp add: size_add_exact)
      have run: "json_builder_appendf t (os, b) =
          (if rok then json_builder_appendf t (os2, b2) else Some (False, os2, b2))"
        using v(1) r(1) yes nofit unfolding len(1)
        by (subst json_builder_appendf.simps) (simp add: sc len ad del: One_nat_def)
      show ?thesis
      proof (cases rok)
        case True
        have "jb_result (json_builder_appendf t (os2, b2)) os2 JSON_MAX (s @ t)"
          by (rule appendf_fits [OF r(3)]) (use r(4) [OF True] in simp)
        then show ?thesis
          using run True jb_result_later [OF jb_result_later [OF _ r(2)] rt(1)] by simp
      next
        case False
        then have "\<not> granted os os2 \<or> \<not> length (s @ t) < JSON_MAX"
          using r(5) granted_right [OF _ rt(1), of os2] by (auto simp: JSON_MAX_def)
        then show ?thesis using run False runs_to_trans [OF rt(1) r(2)] by (auto simp: jb_result_Some)
      qed
    qed
  qed
qed

subsection \<open>Escaping\<close>

text \<open>The escape of a byte and of a text, as RFC 8259 wants it inside a string.\<close>

definition escape_char :: "char \<Rightarrow> string" where
  "escape_char c =
     (if c = DQUOTE then [BACKSLASH, DQUOTE]
      else if c = BACKSLASH then [BACKSLASH, BACKSLASH]
      else if code c = 10 then [BACKSLASH, CHR ''n'']
      else if code c = 13 then [BACKSLASH, CHR ''r'']
      else if code c = 9 then [BACKSLASH, CHR ''t'']
      else if code c < 32 then BACKSLASH # CHR ''u'' # hex4 (code c)
      else [c])"

definition json_escape :: "string \<Rightarrow> string" where
  "json_escape s = concat (map escape_char s)"

lemma json_escape_simps [simp]: "json_escape [] = []" "json_escape (c # cs) = escape_char c @ json_escape cs"
  by (simp_all add: json_escape_def)

lemma length_escape_char: "length (escape_char c) \<le> 6"
  by (simp add: escape_char_def hex4_def)

lemma length_json_escape: "length (json_escape s) \<le> 6 * length s"
proof (induction s)
  case (Cons c s)
  then show ?case using length_escape_char [of c] by simp
qed simp

text \<open>\<open>out_holds\<close>: the output block starts with what was emitted so far.\<close>

definition out_holds :: "char option list \<times> nat \<Rightarrow> nat \<Rightarrow> string \<Rightarrow> bool" where
  "out_holds st cap s \<longleftrightarrow> snd st = length s \<and> length (fst st) = cap \<and> cap \<le> SIZE_MAX \<and>
     take (length s) (fst st) = map Some s"

lemma emit_ok:
  assumes "out_holds st cap s" "length s + length w \<le> cap"
  shows "\<exists>st'. emit w st = Some st' \<and> out_holds st' cap (s @ w)"
proof -
  obtain out where st: "st = (out, length s)" using assms(1) by (cases st) (simp add: out_holds_def)
  then show ?thesis using write_at_prefix [of s out w] assms by (auto simp: emit_def out_holds_def)
qed

lemma emit_unicode_ok:
  assumes "out_holds st cap s" "length s + 7 \<le> cap"
  shows "\<exists>st'. emit_unicode n st = Some st' \<and> out_holds st' cap (s @ BACKSLASH # CHR ''u'' # hex4 n)"
proof -
  obtain out where st: "st = (out, length s)" using assms(1) by (cases st) (simp add: out_holds_def)
  let ?w = "BACKSLASH # CHR ''u'' # hex4 n"
  have out: "length out = cap" "cap \<le> SIZE_MAX" "take (length s) out = map Some s"
    using assms(1) by (auto simp: st out_holds_def)
  have w: "length ?w = 6" by (simp add: hex4_def)
  have room: "size_sub (length out) (length s) = cap - length s" "6 < cap - length s"
    using out assms(2) by (auto simp: size_sub_exact)
  have all: "take (cap - length s - 1) ?w = ?w" using w room(2) by (intro take_all) simp
  obtain out' where o: "write_at (length s) (?w @ [CHR 0x00]) out = Some out'" "length out' = cap"
      "take (length s + length (?w @ [CHR 0x00])) out' = map Some (s @ ?w @ [CHR 0x00])"
    using write_at_prefix [OF out(3), of "?w @ [CHR 0x00]"] w out(1) assms(2) by auto
  have "take (length s + 6) (take (length s + length (?w @ [CHR 0x00])) out') = map Some (s @ ?w)"
    unfolding o(3) using w by simp
  then have "take (length s + 6) out' = map Some (s @ ?w)" using w by (simp add: min_def)
  then have "emit_unicode n st = Some (out', length s + 6)" "out_holds (out', length s + 6) cap (s @ ?w)"
    using o(1,2) room all w out(2) assms(2) by (simp_all add: emit_unicode_def st out_holds_def Let_def)
  then show ?thesis by blast
qed

lemma escape_loop_ok:
  "out_holds st cap s \<Longrightarrow> length s + 6 * length cs + 1 \<le> cap \<Longrightarrow>
   \<exists>os' r. escape_loop cs os st = Some (os', r) \<and> runs_to os os' \<and> (granted os os' \<longrightarrow> r \<noteq> None) \<and>
     (\<forall>st'. r = Some st' \<longrightarrow> out_holds st' cap (s @ json_escape cs))"
proof (induction cs arbitrary: os st s)
  case Nil
  then show ?case by (cases st) auto
next
  case (Cons c cs)
  have fit: "length s + 6 + 6 * length cs + 1 \<le> cap" using Cons.prems(2) by simp
  have step: "\<exists>os' r. escape_loop cs os1 st1 = Some (os', r) \<and> runs_to os1 os' \<and> (granted os1 os' \<longrightarrow> r \<noteq> None) \<and>
     (\<forall>st'. r = Some st' \<longrightarrow> out_holds st' cap (s @ escape_char c @ json_escape cs))"
    if "out_holds st1 cap (s @ escape_char c)" for os1 :: "'a os_scheme" and st1
  proof -
    have "length (s @ escape_char c) + 6 * length cs + 1 \<le> cap"
      using fit length_escape_char [of c] by simp
    from Cons.IH [OF that this, of os1] show ?thesis by simp
  qed
  show ?case
  proof (cases "code c < 32 \<and> code c \<noteq> 10 \<and> code c \<noteq> 13 \<and> code c \<noteq> 9")
    case False
    define w where "w = escape_char c"
    have "length s + length w \<le> cap" using fit length_escape_char [of c] by (simp add: w_def)
    then obtain st1 where st1: "emit w st = Some st1" "out_holds st1 cap (s @ w)"
      using emit_ok [OF Cons.prems(1)] by blast
    have "escape_loop (c # cs) os st = escape_loop cs os st1"
      using False st1(1) by (auto simp: w_def escape_char_def Let_def)
    then show ?thesis using step [of st1 os] st1(2) by (simp add: w_def)
  next
    case True
    then have w: "escape_char c = BACKSLASH # CHR ''u'' # hex4 (code c)"
      and plain: "c \<noteq> DQUOTE" "c \<noteq> BACKSLASH" by (auto simp: escape_char_def)
    obtain st1 where st1: "emit_unicode (code c) st = Some st1" "out_holds st1 cap (s @ escape_char c)"
      using emit_unicode_ok [OF Cons.prems(1), of "code c"] fit w by auto
    obtain ok os1 where sc: "sys_call os = (ok, os1)" by fastforce
    have rt: "runs_to os os1" "granted os os1 \<Longrightarrow> ok"
      using sc sys_call_granted by blast+
    have run: "escape_loop (c # cs) os st = (if ok then escape_loop cs os1 st1 else Some (os1, None))"
      using True plain st1(1) sc by (simp add: Let_def)
    show ?thesis
    proof (cases ok)
      case False
      then show ?thesis using run rt by auto
    next
      case True
      obtain os' r where r: "escape_loop cs os1 st1 = Some (os', r)" "runs_to os1 os'" "granted os1 os' \<Longrightarrow> r \<noteq> None"
          "\<forall>st'. r = Some st' \<longrightarrow> out_holds st' cap (s @ escape_char c @ json_escape cs)"
        using step [OF st1(2), of os1] by blast
      have "runs_to os os'" "granted os os' \<Longrightarrow> granted os1 os'"
        using rt(1) r(2) runs_to_trans granted_right by blast+
      then show ?thesis using run r True by auto
    qed
  qed
qed

lemma hex4_printable: "\<forall>c\<in>set (hex4 n). 32 \<le> code c \<and> c \<noteq> DQUOTE \<and> c \<noteq> BACKSLASH"
proof -
  have "32 \<le> code (hex_digit d) \<and> hex_digit d \<noteq> DQUOTE \<and> hex_digit d \<noteq> BACKSLASH" if "d < 16" for d
  proof -
    have "hex_digit d \<in> set ''0123456789abcdef''"
      unfolding hex_digit_def by (rule nth_mem) (use that in simp)
    moreover have "\<forall>c\<in>set ''0123456789abcdef''. 32 \<le> code c \<and> c \<noteq> DQUOTE \<and> c \<noteq> BACKSLASH" by simp
    ultimately show ?thesis by blast
  qed
  then show ?thesis by (simp add: hex4_def)
qed

text \<open>The escaped text has no control character, so no NUL.\<close>

lemma json_escape_printable: "c \<in> set (json_escape s) \<Longrightarrow> 32 \<le> code c"
proof (induction s)
  case (Cons a s)
  have "\<forall>c\<in>set (escape_char a). 32 \<le> code c"
    using hex4_printable [of "code a"] by (simp add: escape_char_def)
  then show ?case using Cons.IH Cons.prems by (simp del: One_nat_def) blast
qed simp

lemma json_escape_dup_ok:
  assumes "length input < JSON_MAX"
  shows "\<exists>os' r. json_escape_dup input os = Some (os', r) \<and> runs_to os os' \<and>
    (granted os os' \<longrightarrow> 6 * length input < JSON_MAX \<longrightarrow> r \<noteq> None) \<and>
    (\<forall>out. r = Some out \<longrightarrow> c_string out = Some (json_escape input))"
proof (cases "length input > size_sub SIZE_MAX 1 div 6")
  case True
  then have "\<not> 6 * length input < JSON_MAX" by (simp add: size_sub_exact SIZE_MAX_def JSON_MAX_def)
  then show ?thesis using True by (auto simp: json_escape_dup_def)
next
  case False
  define cap where "cap = length input * 6 + 1"
  have le: "cap \<le> SIZE_MAX" using False by (simp add: cap_def size_sub_exact SIZE_MAX_def)
  then have cap: "size_add (size_mul (length input) 6) 1 = cap"
    by (simp add: cap_def size_mul_exact size_add_exact)
  obtain ok os1 where sc: "sys_call os = (ok, os1)" by fastforce
  have rt: "runs_to os os1" "granted os os1 \<Longrightarrow> ok"
    using sc sys_call_granted by blast+
  have start: "out_holds (fresh_block cap, 0) cap []" using le by (simp add: out_holds_def)
  obtain os2 r where loop: "escape_loop input os1 (fresh_block cap, 0) = Some (os2, r)" "runs_to os1 os2"
      "granted os1 os2 \<Longrightarrow> r \<noteq> None" "\<forall>st'. r = Some st' \<longrightarrow> out_holds st' cap (json_escape input)"
    using escape_loop_ok [OF start, of input os1] by (auto simp: cap_def)
  have rt2: "runs_to os os2" "granted os os2 \<Longrightarrow> granted os1 os2"
    using rt(1) loop(2) runs_to_trans granted_right by blast+
  show ?thesis
  proof (cases "ok \<and> r \<noteq> None")
    case bad: False
    then have "json_escape_dup input os = Some (if ok then os2 else os1, None)"
      using False loop(1) cap sc by (cases r; cases ok) (simp_all add: json_escape_dup_def Let_def)
    then show ?thesis using bad rt rt2 loop(3) granted_left by (auto split: if_splits)
  next
    case True
    then obtain out pos where st: "r = Some (out, pos)" by auto
    then have o: "pos = length (json_escape input)" "length out = cap" "take pos out = map Some (json_escape input)"
      using loop(4) by (auto simp: out_holds_def)
    have fit: "length (json_escape input) + length [CHR 0x00] \<le> length out"
      using length_json_escape [of input] o(2) by (simp add: cap_def)
    obtain out' where w: "write_at (length (json_escape input)) [CHR 0x00] out = Some out'"
        "take (length (json_escape input) + length [CHR 0x00]) out' = map Some (json_escape input @ [CHR 0x00])"
      using write_at_prefix [OF o(3) [unfolded o(1)] fit] by blast
    have "CHR 0x00 \<notin> set (json_escape input)" using json_escape_printable by fastforce
    then have "c_string out' = Some (json_escape input)" by (rule c_string_prefix) (use w(2) in simp)
    moreover have "json_escape_dup input os = Some (os2, Some out')"
      using False True loop(1) cap sc st w(1) o(1) by (simp add: json_escape_dup_def Let_def)
    ultimately show ?thesis using rt2 by auto
  qed
qed

text \<open>
  A decoder for the text between the quotes of a JSON string: the escapes of RFC 8259 except code
  points above one byte; a raw quote or control character is an error.
\<close>

definition hex_val :: "char \<Rightarrow> nat" where
  "hex_val c = length (takeWhile (\<lambda>x. x \<noteq> c) ''0123456789abcdef'')"

fun json_unescape :: "string \<Rightarrow> string option" where
  "json_unescape [] = Some []"
| "json_unescape [c] = (if c = BACKSLASH \<or> c = DQUOTE \<or> code c < 32 then None else Some [c])"
| "json_unescape (c # e # cs) =
     (if c = DQUOTE \<or> code c < 32 then None
      else if c \<noteq> BACKSLASH then map_option ((#) c) (json_unescape (e # cs))
      else if e = DQUOTE \<or> e = BACKSLASH \<or> e = CHR ''/'' then map_option ((#) e) (json_unescape cs)
      else if e = CHR ''n'' then map_option ((#) (CHR 0x0A)) (json_unescape cs)
      else if e = CHR ''r'' then map_option ((#) (CHR 0x0D)) (json_unescape cs)
      else if e = CHR ''t'' then map_option ((#) (CHR 0x09)) (json_unescape cs)
      else if e = CHR ''u'' then
        (case cs of
           h1 # h2 # h3 # h4 # rest \<Rightarrow>
             if hex_val h1 = 0 \<and> hex_val h2 = 0 \<and> hex_val h3 < 16 \<and> hex_val h4 < 16
             then map_option ((#) (char_of (16 * hex_val h3 + hex_val h4))) (json_unescape rest)
             else None
         | _ \<Rightarrow> None)
      else None)"

lemma takeWhile_until: "distinct xs \<Longrightarrow> i < length xs \<Longrightarrow> takeWhile (\<lambda>x. x \<noteq> xs ! i) xs = take i xs"
  by (rule takeWhile_eq_take_P_nth) (auto simp: nth_eq_iff_index_eq)

lemma hex_val_digit: "d < 16 \<Longrightarrow> hex_val (hex_digit d) = d"
proof -
  have d: "distinct ''0123456789abcdef''" by simp
  show "hex_val (hex_digit d) = d" if "d < 16"
    unfolding hex_val_def hex_digit_def by (subst takeWhile_until [OF d]) (use that in \<open>simp_all add: min_def\<close>)
qed

lemma json_unescape_plain:
  "c \<noteq> BACKSLASH \<Longrightarrow> c \<noteq> DQUOTE \<Longrightarrow> \<not> code c < 32 \<Longrightarrow>
   json_unescape (c # cs) = map_option ((#) c) (json_unescape cs)"
  by (cases cs) auto

lemma json_unescape_hex4:
  assumes "code c < 32"
  shows "json_unescape (BACKSLASH # CHR ''u'' # hex4 (code c) @ cs) = map_option ((#) c) (json_unescape cs)"
proof -
  have "hex_val (hex_digit 0) = 0" "hex_val (hex_digit (code c div 16 mod 16)) = code c div 16"
    "hex_val (hex_digit (code c mod 16)) = code c mod 16"
    using assms by (simp_all add: hex_val_digit)
  moreover have "16 * (code c div 16) + code c mod 16 = code c" by simp
  moreover have "code c div 4096 mod 16 = 0" "code c div 256 mod 16 = 0" "code c div 16 < 16" using assms by simp_all
  ultimately show ?thesis by (simp add: hex4_def)
qed

lemma json_unescape_short:
  "json_unescape (BACKSLASH # DQUOTE # cs) = map_option ((#) DQUOTE) (json_unescape cs)"
  "json_unescape (BACKSLASH # BACKSLASH # cs) = map_option ((#) BACKSLASH) (json_unescape cs)"
  "json_unescape (BACKSLASH # CHR ''n'' # cs) = map_option ((#) (CHR 0x0A)) (json_unescape cs)"
  "json_unescape (BACKSLASH # CHR ''r'' # cs) = map_option ((#) (CHR 0x0D)) (json_unescape cs)"
  "json_unescape (BACKSLASH # CHR ''t'' # cs) = map_option ((#) (CHR 0x09)) (json_unescape cs)"
  by simp_all

declare json_unescape.simps [simp del]

lemma json_unescape_char: "json_unescape (escape_char c @ cs) = map_option ((#) c) (json_unescape cs)"
proof -
  have ctl: "code c = 10 \<Longrightarrow> c = CHR 0x0A" "code c = 13 \<Longrightarrow> c = CHR 0x0D" "code c = 9 \<Longrightarrow> c = CHR 0x09"
    by (simp_all flip: of_char_eq_iff [where 'a = nat, of c])
  show ?thesis
    using ctl json_unescape_hex4 [of c cs] json_unescape_plain [of c cs] json_unescape_short
    by (simp add: escape_char_def)
qed

lemma json_unescape_escape: "json_unescape (json_escape s) = Some s"
  by (induction s) (simp_all add: json_unescape_char json_unescape.simps(1))


subsection \<open>Strings, creation and the final text\<close>

definition json_quote :: "string \<Rightarrow> string" where
  "json_quote s = DQUOTE # json_escape s @ [DQUOTE]"

lemma length_json_quote: "length (json_quote s) \<le> 6 * length s + 2"
  using length_json_escape [of s] by (simp add: json_quote_def)

lemma json_builder_append_string_appends:
  assumes "6 * length t < JSON_MAX"
  shows "jb_appends (json_builder_append_string t) (json_quote t)"
proof (rule jb_appendsI)
  fix os :: "'a os_scheme" and b s assume h: "jb_holds b s"
  obtain os1 r where e: "json_escape_dup t os = Some (os1, r)" "runs_to os os1" "granted os os1 \<Longrightarrow> r \<noteq> None"
      "\<And>out. r = Some out \<Longrightarrow> c_string out = Some (json_escape t)"
    using json_escape_dup_ok [of t os] assms by auto
  show "jb_result (json_builder_append_string t (os, b)) os JSON_MAX (s @ json_quote t)"
  proof (cases r)
    case None
    then show ?thesis using e(1-3) by (auto simp: json_builder_append_string_def jb_result_Some)
  next
    case (Some out)
    have "jb_appends (chain [json_builder_append [DQUOTE], json_builder_append (json_escape t), json_builder_append [DQUOTE]])
        (json_quote t)"
      using jb_appends_chain3 [OF json_builder_append_appends json_builder_append_appends json_builder_append_appends,
          of "[DQUOTE]" "json_escape t" "[DQUOTE]"] by (simp add: json_quote_def)
    from jb_result_later [OF jb_appendsD [OF this h, of os1] e(2)] show ?thesis
      using e(1) e(4) [OF Some] Some by (simp add: json_builder_append_string_def)
  qed
qed

lemma json_builder_init_ok:
  assumes "json_builder_init os = (ok, os', b)"
  shows "runs_to os os'" "ok \<Longrightarrow> jb_holds b []" "granted os os' \<Longrightarrow> ok"
proof -
  have "\<exists>k. (256 :: nat) = 2 ^ k" by (rule exI [of _ 8]) simp
  then show "runs_to os os'" "ok \<Longrightarrow> jb_holds b []" "granted os os' \<Longrightarrow> ok"
    using assms by (auto simp: json_builder_init_def sys_call_def runs_to_def granted_def jb_holds_def jb_room_def
        read_at_def SIZE_MAX_def split: if_splits)
qed

lemma jb_holds_text:
  assumes "jb_holds b s" "CHR 0x00 \<notin> set s"
  shows "\<exists>buf. fst (json_builder_take b) = Some buf \<and> c_string buf = Some s"
proof -
  obtain buf where b: "jb_data b = Some buf" "take (length s) buf = map Some s" "read_at (length s) buf = Some (CHR 0x00)"
    using assms(1) by (auto simp: jb_holds_def jb_room_def split: option.splits)
  then have "length s < length buf" "buf ! length s = Some (CHR 0x00)" by (auto simp: read_at_def split: if_splits)
  then have "take (Suc (length s)) buf = map Some (s @ [CHR 0x00])" using b(2) by (simp add: take_Suc_conv_app_nth)
  then show ?thesis using c_string_prefix [OF assms(2)] b(1) by (simp add: json_builder_take_def)
qed

end
