(* ===== verification/DbJson.thy ===== *)
theory DbJson
  imports DbEngine JsonCorrect
begin

section \<open>Rows as JSON text\<close>

text \<open>
  The text the engine writes for a row and for a list of rows, and the proof that
  \<open>append_record_json\<close> and the scan of \<open>db_select_projected\<close> write exactly it: they meet the
  contract \<open>jb_appends\<close> of the builder.
\<close>

definition row_ok :: "Record \<Rightarrow> bool" where
  "row_ok r \<longleftrightarrow> 0 < rec_id r \<and> rec_id r \<le> INT_MAX \<and> name_is_valid (rec_name r) \<and>
     length (rec_name r) < DB_NAME_MAX \<and> CHR 0x00 \<notin> set (rec_name r) \<and> 0 \<le> rec_age r \<and> rec_age r \<le> INT_MAX"

definition proj_ok :: "DbProjection \<Rightarrow> bool" where
  "proj_ok p \<longleftrightarrow> length (proj_columns p) = DB_MAX_PROJECTION_COLUMNS \<and> column_count p \<le> DB_MAX_PROJECTION_COLUMNS"

definition columns_of :: "DbProjection \<Rightarrow> DbColumn list" where
  "columns_of p =
     (if column_count p > 0 then take (column_count p) (proj_columns p)
      else (if include_id p then [DB_COLUMN_ID] else []) @ (if include_name p then [DB_COLUMN_NAME] else []) @
           (if include_age p then [DB_COLUMN_AGE] else []))"

fun field_json :: "Record \<Rightarrow> DbColumn \<Rightarrow> string" where
  "field_json r DB_COLUMN_ID = json_quote ''id'' @ '':'' @ dec_int (rec_id r)"
| "field_json r DB_COLUMN_NAME = json_quote ''name'' @ '':'' @ json_quote (rec_name r)"
| "field_json r DB_COLUMN_AGE = json_quote ''age'' @ '':'' @ dec_int (rec_age r)"

fun comma_join :: "string list \<Rightarrow> string" where
  "comma_join [] = []"
| "comma_join [x] = x"
| "comma_join (x # xs) = x @ '','' @ comma_join xs"

definition record_json :: "DbColumn list \<Rightarrow> Record \<Rightarrow> string" where
  "record_json cols r = ''{'' @ comma_join (map (field_json r) cols) @ ''}''"

definition rows_text :: "DbColumn list \<Rightarrow> Record list \<Rightarrow> string" where
  "rows_text cols rs = ''['' @ comma_join (map (record_json cols) rs) @ '']''"

text \<open>What follows a list element: nothing, or a comma and the rest.\<close>

definition comma_tail :: "bool \<Rightarrow> string list \<Rightarrow> string" where
  "comma_tail need_comma xs = (if xs = [] then [] else (if need_comma then '','' else []) @ comma_join xs)"

lemma comma_join_Cons: "comma_join (x # xs) = x @ comma_tail True xs"
  by (cases xs) (auto simp: comma_tail_def)

lemma comma_tail_simps [simp]:
  "comma_tail b [] = []"
  "comma_tail b (x # xs) = (if b then '','' else []) @ x @ comma_tail True xs"
  "comma_tail False xs = comma_join xs"
  by (auto simp: comma_tail_def comma_join_Cons)

lemma length_dec_int: "\<bar>v\<bar> \<le> INT_MAX \<Longrightarrow> length (dec_int v) \<le> 11"
proof -
  assume "\<bar>v\<bar> \<le> INT_MAX"
  then have "nat v < 10 ^ 10" "nat (- v) < 10 ^ 10" by (auto simp: INT_MAX_def)
  then have "length (dec_digits (nat v)) \<le> 10" "length (dec_digits (nat (- v))) \<le> 10"
    by (auto intro: length_dec_digits)
  then show ?thesis by (simp add: dec_int_def)
qed

lemma length_field_json:
  assumes "row_ok r"
  shows "length (field_json r c) \<le> 780"
proof -
  have "length (dec_int (rec_id r)) \<le> 11" "length (dec_int (rec_age r)) \<le> 11"
    using assms by (auto simp: row_ok_def intro!: length_dec_int)
  moreover have "length (json_quote (rec_name r)) \<le> 764"
    using assms length_json_quote [of "rec_name r"] by (simp add: row_ok_def)
  ultimately show ?thesis
    by (cases c) (simp_all add: json_quote_def escape_char_def)
qed

subsection \<open>Fields\<close>

lemma append_json_separator_appends:
  "jb_appends (append_json_separator b) (if b then '','' else [])"
  using json_builder_append_appends [of "'',''"]
  by (auto simp: append_json_separator_def jb_appends_def jb_result_Some)

lemma append_int_appends: "\<bar>v\<bar> \<le> INT_MAX \<Longrightarrow> jb_appends (json_builder_appendf (dec_int v)) (dec_int v)"
  by (rule json_builder_appendf_appends) (use length_dec_int [of v] in \<open>simp add: JSON_MAX_def\<close>)

lemma append_record_field_json_appends:
  assumes "row_ok r"
  shows "jb_appends (append_record_field_json r c b) ((if b then '','' else []) @ field_json r c)"
proof -
  have i: "jb_appends (json_builder_appendf (dec_int (rec_id r))) (dec_int (rec_id r))"
    "jb_appends (json_builder_appendf (dec_int (rec_age r))) (dec_int (rec_age r))"
    "jb_appends (json_builder_append_string (rec_name r)) (json_quote (rec_name r))"
    using assms by (auto simp: row_ok_def JSON_MAX_def intro!: append_int_appends json_builder_append_string_appends)
  note three = jb_appends_chain3 [OF append_json_separator_appends json_builder_append_appends]
  have q: "json_quote ''id'' = DQUOTE # ''id'' @ [DQUOTE]" "json_quote ''name'' = DQUOTE # ''name'' @ [DQUOTE]"
    "json_quote ''age'' = DQUOTE # ''age'' @ [DQUOTE]"
    by (simp_all add: json_quote_def escape_char_def)
  show ?thesis
    using three [OF i(1), of b "DQUOTE # ''id'' @ DQUOTE # '':''"] three [OF i(2), of b "DQUOTE # ''age'' @ DQUOTE # '':''"]
      three [OF i(3), of b "DQUOTE # ''name'' @ DQUOTE # '':''"]
    by (cases c) (simp_all add: append_record_field_json_def q)
qed

subsection \<open>Rows\<close>

text \<open>A step that returns what a chain of one operation and the rest would return.\<close>

lemma jb_step:
  assumes f: "jb_appends f t" and h: "jb_holds b s"
    and rest: "\<And>os1 b1. jb_holds b1 (s @ t) \<Longrightarrow> jb_result (g (os1, b1)) os1 JSON_MAX (s @ t @ u)"
  shows "jb_result (case f (os, b) of None \<Rightarrow> None | Some (ok, s') \<Rightarrow> if \<not> ok then Some (False, s') else g s')
    os JSON_MAX (s @ t @ u)"
proof -
  obtain ok os1 b1 where 1: "f (os, b) = Some (ok, os1, b1)" "runs_to os os1" "ok \<Longrightarrow> jb_holds b1 (s @ t)"
      "granted os os1 \<Longrightarrow> length (s @ t) < JSON_MAX \<Longrightarrow> ok"
    by (rule jb_resultE [OF jb_appendsD [OF f h, of os]]) blast
  show ?thesis
  proof (cases ok)
    case True
    then show ?thesis using jb_result_later [OF rest [OF 1(3)] 1(2)] 1(1) by simp
  next
    case False
    then show ?thesis using 1(1,2,4) by (auto simp: jb_result_Some)
  qed
qed

lemma append_columns_loop_appends:
  assumes "row_ok r" "column_count p \<le> length (proj_columns p)"
  shows "jb_appends (append_columns_loop r p i b)
    (comma_tail b (map (field_json r) (drop i (take (column_count p) (proj_columns p)))))"
proof (induction "column_count p - i" arbitrary: i b)
  case 0
  then show ?case using assms(2)
    by (auto intro!: jb_appendsI simp: append_columns_loop.simps [of _ _ i] jb_result_Some)
next
  case (Suc n)
  let ?cols = "take (column_count p) (proj_columns p)"
  have i: "i < column_count p" "i < length (proj_columns p)" using Suc.hyps(2) assms(2) by auto
  have cut: "drop i ?cols = proj_columns p ! i # drop (Suc i) ?cols"
    using i assms(2) by (simp add: drop_take_Cons)
  note IH = Suc.hyps(1) [of "Suc i" True]
  show ?case
  proof (rule jb_appendsI)
    fix os :: "'a os_scheme" and bu s assume h: "jb_holds bu s"
    have "jb_result (append_columns_loop r p (Suc i) True (os1, b1)) os1 JSON_MAX
        (s @ ((if b then '','' else []) @ field_json r (proj_columns p ! i)) @
          comma_tail True (map (field_json r) (drop (Suc i) ?cols)))"
      if "jb_holds b1 (s @ (if b then '','' else []) @ field_json r (proj_columns p ! i))"
      for os1 :: "'a os_scheme" and b1
      using jb_appendsD [OF IH that, of os1] Suc.hyps(2) by auto
    from jb_step [OF append_record_field_json_appends [OF assms(1)] h this]
    show "jb_result (append_columns_loop r p i b (os, bu)) os JSON_MAX
        (s @ comma_tail b (map (field_json r) (drop i ?cols)))"
      using i by (simp add: append_columns_loop.simps [of _ _ i] cut)
  qed
qed

text \<open>Fields each with the comma flag it is called with, up to the closing brace.\<close>

lemma fields_chain:
  assumes "row_ok r"
  shows "jb_appends (chain (map (\<lambda>(c, b). append_record_field_json r c b) xs @ [json_builder_append ''}'']))
    (concat (map (\<lambda>(c, b). (if b then '','' else []) @ field_json r c) xs) @ ''}'')"
proof (induction xs)
  case Nil
  show ?case using jb_appends_Cons [OF json_builder_append_appends jb_appends_Nil] by (simp del: chain.simps)
next
  case (Cons x xs)
  obtain c b where x: "x = (c, b)" by fastforce
  show ?case using jb_appends_Cons [OF append_record_field_json_appends [OF assms, of c b] Cons.IH]
    by (simp add: x del: chain.simps)
qed

lemma append_record_json_appends:
  assumes "row_ok r" "proj_ok p"
  shows "jb_appends (append_record_json r p) (record_json (columns_of p) r)"
proof -
  note cons = jb_appends_Cons [OF json_builder_append_appends]
  note close = cons [OF jb_appends_Nil, of "''}''"]
  show ?thesis
  proof (cases "column_count p > 0")
    case True
    have "column_count p \<le> length (proj_columns p)" using assms(2) by (simp add: proj_ok_def)
    from cons [OF jb_appends_Cons [OF append_columns_loop_appends [OF assms(1) this, of 0 False] close], of "''{''"]
    show ?thesis using True by (simp add: append_record_json_def record_json_def columns_of_def)
  next
    case False
    define xs where "xs = (if include_id p then [(DB_COLUMN_ID, False)] else []) @
      (if include_name p then [(DB_COLUMN_NAME, include_id p)] else []) @
      (if include_age p then [(DB_COLUMN_AGE, include_id p \<or> include_name p)] else [])"
    have ops: "append_record_json r p = chain (json_builder_append ''{'' #
        map (\<lambda>(c, b). append_record_field_json r c b) xs @ [json_builder_append ''}''])"
      using False by (simp add: append_record_json_def xs_def)
    have joined: "concat (map (\<lambda>(c, b). (if b then '','' else []) @ field_json r c) xs) =
        comma_join (map (field_json r) (columns_of p))"
      using False by (auto simp: xs_def columns_of_def)
    show ?thesis using cons [OF fields_chain [OF assms(1), of xs], of "''{''"]
      by (simp add: record_json_def ops joined del: chain.simps)
  qed
qed

subsection \<open>The text of rows is a C string\<close>

lemma dec_int_no_nul: "CHR 0x00 \<notin> set (dec_int v)"
proof -
  have "\<not> isdigit (CHR 0x00)" by (simp add: isdigit_def)
  then show ?thesis using dec_digits_digits by (auto simp: dec_int_def)
qed

lemma json_quote_no_nul: "CHR 0x00 \<notin> set (json_quote s)"
  using json_escape_printable [of "CHR 0x00" s] by (auto simp: json_quote_def)

lemma comma_join_no_nul: "\<forall>x\<in>set xs. CHR 0x00 \<notin> set x \<Longrightarrow> CHR 0x00 \<notin> set (comma_join xs)"
  by (induction xs rule: comma_join.induct) auto

lemma record_json_no_nul: "CHR 0x00 \<notin> set (record_json cols r)"
proof -
  have "CHR 0x00 \<notin> set (field_json r c)" for c
    by (cases c) (simp_all add: dec_int_no_nul json_quote_no_nul)
  then have "CHR 0x00 \<notin> set (comma_join (map (field_json r) cols))"
    by (intro comma_join_no_nul) auto
  then show ?thesis by (simp add: record_json_def)
qed

lemma rows_text_no_nul: "CHR 0x00 \<notin> set (rows_text cols rs)"
proof -
  have "CHR 0x00 \<notin> set (comma_join (map (record_json cols) rs))"
    by (intro comma_join_no_nul) (auto simp: record_json_no_nul)
  then show ?thesis by (simp add: rows_text_def)
qed

lemma length_comma_join: "\<forall>x\<in>set xs. length x \<le> k \<Longrightarrow> length (comma_join xs) \<le> Suc k * length xs"
proof (induction xs rule: comma_join.induct)
  case (3 x y ys)
  then show ?case by simp
qed auto

lemma length_record_json:
  assumes "row_ok r" "length cols \<le> 3"
  shows "length (record_json cols r) \<le> 2345"
proof -
  have "length (comma_join (map (field_json r) cols)) \<le> Suc 780 * length (map (field_json r) cols)"
    by (rule length_comma_join) (use length_field_json [OF assms(1)] in auto)
  also have "\<dots> \<le> 781 * 3" using assms(2) by simp
  finally show ?thesis by (simp add: record_json_def)
qed

lemma length_columns_of: "proj_ok p \<Longrightarrow> length (columns_of p) \<le> 3"
  by (simp add: columns_of_def proj_ok_def)

lemma length_rows_text:
  assumes "\<forall>r\<in>set rs. row_ok r" "length cols \<le> 3"
  shows "length (rows_text cols rs) \<le> 2346 * length rs + 2"
proof -
  have "length (comma_join (map (record_json cols) rs)) \<le> Suc 2345 * length (map (record_json cols) rs)"
    by (rule length_comma_join) (use length_record_json [OF _ assms(2)] assms(1) in auto)
  then show ?thesis by (simp add: rows_text_def)
qed

lemma all_columns_ok: "proj_ok all_columns_projection"
  "columns_of all_columns_projection = [DB_COLUMN_ID, DB_COLUMN_NAME, DB_COLUMN_AGE]"
  by (simp_all add: proj_ok_def columns_of_def all_columns_projection_def)

end
