(* ===== verification/KvList.thy ===== *)
theory KvList
  imports Prelude "HOL-Library.Sublist"
begin

section \<open>Sorted key/value lists: the abstract contents of the index\<close>

text \<open>
  The in-order contents of the tree is a list of key/value pairs with strictly increasing keys.
  \<open>kv_insert\<close> is insertion into such a list, replacing the value of a key that is there;
  through \<^const>\<open>map_of\<close> it is a map update. The lemmas say how it distributes over a list cut
  where the key belongs, which is how the tree computes it. \<open>route\<close> is the child a key belongs
  to under a list of separators.
\<close>

abbreviation kv_sorted :: "(int \<times> 'v) list \<Rightarrow> bool" where
  "kv_sorted es \<equiv> sorted_wrt (<) (map fst es)"

definition kv_insert :: "int \<Rightarrow> 'v \<Rightarrow> (int \<times> 'v) list \<Rightarrow> (int \<times> 'v) list" where
  "kv_insert k v es =
     takeWhile (\<lambda>e. fst e < k) es @ (k, v) # dropWhile (\<lambda>e. fst e \<le> k) es"

definition route :: "int list \<Rightarrow> int \<Rightarrow> nat" where
  "route ss k = length (takeWhile (\<lambda>s. s \<le> k) ss)"

subsection \<open>Insertion\<close>

lemma kv_insert_Nil [simp]: "kv_insert k v [] = [(k, v)]"
  by (simp add: kv_insert_def)

lemma kv_insert_not_Nil [simp]: "kv_insert k v es \<noteq> []"
  by (simp add: kv_insert_def)

lemma takeWhile_all_append: "\<forall>x\<in>set ys. \<not> P x \<Longrightarrow> takeWhile P (xs @ ys) = takeWhile P xs"
  by (induction xs) (auto simp: takeWhile_eq_Nil_iff intro: hd_in_set)

lemma dropWhile_all_append: "\<forall>x\<in>set ys. \<not> P x \<Longrightarrow> dropWhile P (xs @ ys) = dropWhile P xs @ ys"
  by (induction xs) (auto simp: dropWhile_eq_self_iff)

lemma kv_insert_middle:
  assumes "\<forall>e\<in>set xs. fst e < k" "\<forall>e\<in>set zs. k < fst e"
  shows "kv_insert k v (xs @ ys @ zs) = xs @ kv_insert k v ys @ zs"
proof -
  have "takeWhile (\<lambda>e. fst e < k) (xs @ ys @ zs) = xs @ takeWhile (\<lambda>e. fst e < k) ys"
  proof -
    have "\<forall>e\<in>set zs. \<not> fst e < k" using assms(2) by auto
    then have "takeWhile (\<lambda>e. fst e < k) (ys @ zs) = takeWhile (\<lambda>e. fst e < k) ys"
      by (rule takeWhile_all_append)
    with assms(1) show ?thesis by (simp add: takeWhile_append2)
  qed
  moreover have "dropWhile (\<lambda>e. fst e \<le> k) (xs @ ys @ zs) = dropWhile (\<lambda>e. fst e \<le> k) ys @ zs"
    using assms by (subst dropWhile_append2) (auto simp: dropWhile_all_append not_le)
  ultimately show ?thesis by (simp add: kv_insert_def)
qed

lemma kv_insert_Cons:
  assumes "kv_sorted (e # es)"
  shows "kv_insert k v (e # es) =
    (if fst e < k then e # kv_insert k v es
     else if fst e = k then (k, v) # es else (k, v) # e # es)"
proof -
  have "dropWhile (\<lambda>x. fst x \<le> k) es = es" if "k \<le> fst e"
    using assms that by (cases es) auto
  then show ?thesis by (auto simp: kv_insert_def)
qed

lemma set_kv_insert_subset: "set (kv_insert k v es) \<subseteq> insert (k, v) (set es)"
  by (auto simp: kv_insert_def dest: set_takeWhileD set_dropWhileD)

lemma keys_kv_insert: "kv_sorted es \<Longrightarrow> fst ` set (kv_insert k v es) = insert k (fst ` set es)"
  by (induction es) (auto simp: kv_insert_Cons)

lemma keys_kv_insert_subset: "fst ` set (kv_insert k v es) \<subseteq> insert k (fst ` set es)"
  using set_kv_insert_subset [of k v es] by fastforce

lemma kv_insert_by_position:
  assumes "kv_sorted es" and "p = length (takeWhile (\<lambda>x. x < k) (map fst es))"
  shows "kv_insert k v es =
    (if p < length es \<and> fst (es ! p) = k then es[p := (k, v)] else ins_at p (k, v) es)"
  using assms
proof (induction es arbitrary: p)
  case Nil
  then show ?case by (simp add: ins_at_def)
next
  case (Cons e es)
  show ?case
  proof (cases "fst e < k")
    case True
    then obtain q where "p = Suc q" "q = length (takeWhile (\<lambda>x. x < k) (map fst es))"
      using Cons.prems by simp
    with True Cons show ?thesis by (simp add: kv_insert_Cons ins_at_def)
  next
    case False
    then show ?thesis using Cons.prems by (simp add: kv_insert_Cons ins_at_def)
  qed
qed

lemma kv_sorted_insert: "kv_sorted es \<Longrightarrow> kv_sorted (kv_insert k v es)"
proof (induction es)
  case Nil
  then show ?case by simp
next
  case (Cons e es)
  have tail: "kv_sorted es" "\<forall>x\<in>fst ` set es. fst e < x" using Cons.prems by auto
  have low: "\<forall>x\<in>fst ` set (kv_insert k v es). fst e < x" if "fst e < k"
  proof
    fix x assume "x \<in> fst ` set (kv_insert k v es)"
    then have "x = k \<or> x \<in> fst ` set es" using subsetD [OF keys_kv_insert_subset] by fast
    then show "fst e < x" using that tail(2) by blast
  qed
  consider "fst e < k" | "fst e = k" | "k < fst e" by linarith
  then show ?case
  proof cases
    case 1
    with Cons.IH [OF tail(1)] low show ?thesis by (simp add: kv_insert_Cons [OF Cons.prems])
  next
    case 2
    with Cons.prems show ?thesis by (simp add: kv_insert_Cons [OF Cons.prems])
  next
    case 3
    with tail have "\<forall>x\<in>set es. k < fst x" by fastforce
    with 3 Cons.prems show ?thesis by (simp add: kv_insert_Cons [OF Cons.prems])
  qed
qed

lemma map_of_kv_insert: "kv_sorted es \<Longrightarrow> map_of (kv_insert k v es) = (map_of es)(k \<mapsto> v)"
proof (induction es)
  case Nil
  then show ?case by simp
next
  case (Cons e es)
  then show ?case by (cases e) (auto simp: kv_insert_Cons)
qed

lemma map_of_middle:
  assumes "k \<notin> fst ` set xs" "k \<notin> fst ` set zs"
  shows "map_of (xs @ ys @ zs) k = map_of ys k"
proof -
  have "map_of xs k = None" "map_of zs k = None" using assms by (metis map_of_eq_None_iff)+
  then show ?thesis by (auto simp: map_add_def split: option.splits)
qed

lemma position_absent:
  fixes K :: "int list"
  assumes "sorted_wrt (<) K" "pos = length (takeWhile (\<lambda>k. k < key) K)"
    "\<not> (pos < length K \<and> K ! pos = key)"
  shows "key \<notin> set K"
proof
  assume "key \<in> set K"
  then obtain j where j: "j < length K" "K ! j = key" by (auto simp: in_set_conv_nth)
  have "\<not> j < pos"
    using j(2) nth_mem [of j "takeWhile (\<lambda>k. k < key) K"] assms(2)
    by (auto simp: takeWhile_nth dest!: set_takeWhileD)
  moreover have "\<not> pos < j"
    using sorted_wrt_nth_less [OF assms(1), of pos j] j
      nth_length_takeWhile [of "\<lambda>k. k < key" K] assms(2) by auto
  ultimately have "pos = j" by simp
  with assms(3) j show False by blast
qed

lemma kv_sorted_distinct: "kv_sorted es \<Longrightarrow> distinct (map fst es)"
  by (simp add: strict_sorted_iff)

lemma length_kv_insert:
  assumes "kv_sorted es"
  shows "length (kv_insert k v es) = (if k \<in> fst ` set es then length es else Suc (length es))"
proof -
  have "length (kv_insert k v es) = card (fst ` set (kv_insert k v es))"
    using kv_sorted_distinct [OF kv_sorted_insert [OF assms, of k v]]
    by (metis distinct_card length_map list.set_map)
  moreover have "length es = card (fst ` set es)"
    using kv_sorted_distinct [OF assms] by (metis distinct_card length_map list.set_map)
  ultimately show ?thesis using assms by (simp add: keys_kv_insert card_insert_if)
qed

lemma sorted_wrt_subseq: "subseq xs ys \<Longrightarrow> sorted_wrt P ys \<Longrightarrow> sorted_wrt P xs"
  by (induction rule: list_emb.induct) (auto dest: list_emb_set)

lemma kv_sorted_subseq: "subseq xs ys \<Longrightarrow> kv_sorted ys \<Longrightarrow> kv_sorted xs"
  by (rule sorted_wrt_subseq) (auto intro: subseq_map)

lemma kv_sorted_concat:
  "\<forall>es\<in>set ess. kv_sorted es \<Longrightarrow>
   sorted_wrt (\<lambda>xs ys. \<forall>x\<in>fst ` set xs. \<forall>y\<in>fst ` set ys. x < y) ess \<Longrightarrow> kv_sorted (concat ess)"
  by (induction ess) (auto simp: sorted_wrt_append)

subsection \<open>Routing\<close>

lemma route_le: "route ss k \<le> length ss"
  by (simp add: route_def length_takeWhile_le)

lemma route_Nil [simp]: "route [] k = 0"
  by (simp add: route_def)

lemma route_Cons [simp]: "route (s # ss) k = (if s \<le> k then Suc (route ss k) else 0)"
  by (simp add: route_def)

lemma route_mono: "sorted_wrt (<) ss \<Longrightarrow> k \<le> l \<Longrightarrow> route ss k \<le> route ss l"
  by (induction ss) auto

lemma route_nth_le: "i < route ss k \<Longrightarrow> ss ! i \<le> k"
  unfolding route_def by (metis nth_mem set_takeWhileD takeWhile_nth)

lemma route_nth_gt: "sorted_wrt (<) ss \<Longrightarrow> route ss k \<le> i \<Longrightarrow> i < length ss \<Longrightarrow> k < ss ! i"
proof (induction ss arbitrary: i)
  case Nil
  then show ?case by simp
next
  case (Cons s ss)
  then have "\<forall>x\<in>set ss. s < x" by simp
  then have "\<not> s \<le> k \<Longrightarrow> j < length ss \<Longrightarrow> k < ss ! j" for j
    using nth_mem [of j ss] by fastforce
  with Cons show ?case by (cases i) (auto split: if_splits)
qed

lemma route_append:
  "route (xs @ ys) k = (if \<forall>x\<in>set xs. x \<le> k then length xs + route ys k else route xs k)"
  by (induction xs) auto

lemma route_take: "route (take m ss) k = min m (route ss k)"
  by (induction ss arbitrary: m) (auto simp: take_Cons split: nat.splits)

lemma route_drop: "m \<le> route ss k \<Longrightarrow> route (drop m ss) k = route ss k - m"
  by (induction ss arbitrary: m) (auto simp: drop_Cons split: nat.splits if_splits)

lemma route_ins_at_below:
  assumes "sorted_wrt (<) ss" "i \<le> length ss" "route ss k = j" "j < i"
  shows "route (ins_at i p ss) k = j"
proof -
  have "\<not> (\<forall>x\<in>set (take i ss). x \<le> k)"
    using route_nth_gt [OF assms(1), of k j] assms
    by (metis linorder_not_le length_take min.absorb2 nth_mem nth_take order.strict_trans2 order_refl)
  then show ?thesis using assms by (simp add: ins_at_def route_append route_take)
qed

lemma route_ins_at_above:
  assumes "i \<le> route ss k" "p \<le> k"
  shows "route (ins_at i p ss) k = Suc (route ss k)"
proof -
  have "\<forall>x\<in>set (take i ss). x \<le> k"
    using assms(1) route_nth_le [of _ ss k] by (auto simp: in_set_conv_nth)
  moreover have "i \<le> length ss" using assms(1) route_le [of ss k] by linarith
  ultimately show ?thesis using assms by (simp add: ins_at_def route_append route_drop)
qed

lemma route_ins_at_left:
  assumes "route ss k = i" "k < p"
  shows "route (ins_at i p ss) k = i"
proof -
  have "\<forall>x\<in>set (take i ss). x \<le> k"
    using assms(1) route_nth_le [of _ ss k] by (auto simp: in_set_conv_nth)
  moreover have "i \<le> length ss" using assms(1) route_le [of ss k] by linarith
  ultimately show ?thesis using assms by (simp add: ins_at_def route_append)
qed

end
