(* ===== verification/BpInvariant.thy ===== *)
theory BpInvariant
  imports BpTree KvList
begin

section \<open>The B+ tree: contents, invariant and insertion\<close>

text \<open>
  \<open>entries\<close> is the in-order contents of the live cells. \<open>bp_wf ml mi h t\<close> is the B+ tree
  invariant at height \<open>h\<close>: arrays of the declared lengths, at least \<open>ml\<close> keys in a leaf and
  \<open>mi\<close> in an inner node (16 and 15 below the root), keys strictly increasing, every key below
  child \<open>i\<close> routed to \<open>i\<close> by the separators, all leaves at the same depth and no stale child
  pointers. The main lemma \<open>node_insert_correct\<close> is about every allocation oracle.
\<close>

subsection \<open>Contents\<close>

fun entries :: "bpnode \<Rightarrow> (int \<times> nat) list" where
  "entries Null = []"
| "entries (BpNode a leaf n ks cs vs nx) =
     (if leaf then zip (take n ks) (take n vs) else concat (map entries (take (Suc n) cs)))"

abbreviation keyset :: "bpnode \<Rightarrow> int set" where
  "keyset t \<equiv> fst ` set (entries t)"

fun height :: "bpnode \<Rightarrow> nat" where
  "height Null = 0"
| "height (BpNode a leaf n ks cs vs nx) = (if leaf then 0 else Suc (height (child_at cs 0)))"

subsection \<open>The invariant\<close>

definition inner_ok :: "(bpnode \<Rightarrow> bool) \<Rightarrow> int list \<Rightarrow> bpnode list \<Rightarrow> bool" where
  "inner_ok P K C \<longleftrightarrow>
     length C = Suc (length K) \<and> sorted_wrt (<) K \<and> (\<forall>c\<in>set C. P c) \<and>
     (\<forall>i<length C. \<forall>k\<in>keyset (C ! i). route K k = i)"

definition arrays_ok :: "bpnode \<Rightarrow> bool" where
  "arrays_ok t \<longleftrightarrow> \<not> is_Null t \<and> length (keys t) = BPTREE_MAX_KEYS \<and>
     length (children t) = BPTREE_MAX_KEYS + 1 \<and> length (vals t) = BPTREE_MAX_KEYS \<and>
     num_keys t \<le> BPTREE_MAX_KEYS"

abbreviation live_keys :: "bpnode \<Rightarrow> int list" where
  "live_keys t \<equiv> take (num_keys t) (keys t)"

abbreviation live_children :: "bpnode \<Rightarrow> bpnode list" where
  "live_children t \<equiv> take (Suc (num_keys t)) (children t)"

fun bp_wf :: "nat \<Rightarrow> nat \<Rightarrow> nat \<Rightarrow> bpnode \<Rightarrow> bool" where
  "bp_wf ml mi 0 t \<longleftrightarrow>
     arrays_ok t \<and> is_leaf t \<and> ml \<le> num_keys t \<and> sorted_wrt (<) (live_keys t)"
| "bp_wf ml mi (Suc h) t \<longleftrightarrow>
     arrays_ok t \<and> \<not> is_leaf t \<and> mi \<le> num_keys t \<and>
     inner_ok (bp_wf 16 15 h) (live_keys t) (live_children t) \<and>
     (\<forall>c\<in>set (drop (Suc (num_keys t)) (children t)). is_Null c)"

lemma entries_leaf:
  "\<not> is_Null t \<Longrightarrow> is_leaf t \<Longrightarrow> entries t = zip (live_keys t) (take (num_keys t) (vals t))"
  by (cases t) auto

lemma entries_inner:
  "\<not> is_Null t \<Longrightarrow> \<not> is_leaf t \<Longrightarrow> entries t = concat (map entries (live_children t))"
  by (cases t) auto

lemma keys_leaf:
  "arrays_ok t \<Longrightarrow> is_leaf t \<Longrightarrow> map fst (entries t) = live_keys t"
  by (simp add: entries_leaf arrays_ok_def)

lemma keyset_concat: "fst ` set (concat (map entries C)) = (\<Union>c\<in>set C. keyset c)"
  by auto

lemma inner_ok_route: "inner_ok P K C \<Longrightarrow> k \<in> keyset (C ! i) \<Longrightarrow> i < length C \<Longrightarrow> route K k = i"
  unfolding inner_ok_def by blast

lemma inner_ok_sorted:
  assumes "inner_ok P K C" "\<And>c. P c \<Longrightarrow> kv_sorted (entries c)"
  shows "kv_sorted (concat (map entries C))"
proof (rule kv_sorted_concat)
  show "\<forall>es\<in>set (map entries C). kv_sorted es"
    using assms by (auto simp: inner_ok_def)
  have "x < y" if "i < j" "j < length C" "x \<in> keyset (C ! i)" "y \<in> keyset (C ! j)" for i j x y
  proof (rule ccontr)
    assume "\<not> x < y"
    then have "route K y \<le> route K x" using assms(1) by (simp add: inner_ok_def route_mono)
    moreover have "route K x = i" "route K y = j"
      using assms(1) that by (auto intro: inner_ok_route)
    ultimately show False using \<open>i < j\<close> by simp
  qed
  then show "sorted_wrt (\<lambda>xs ys. \<forall>x\<in>fst ` set xs. \<forall>y\<in>fst ` set ys. x < y) (map entries C)"
    by (auto simp: sorted_wrt_iff_nth_less)
qed

lemma bp_wf_sorted: "bp_wf ml mi h t \<Longrightarrow> kv_sorted (entries t)"
proof (induction h arbitrary: ml mi t)
  case 0
  then show ?case by (simp add: keys_leaf)
next
  case (Suc h)
  then show ?case
    by (simp add: entries_inner arrays_ok_def) (metis inner_ok_sorted)
qed

lemma bp_wf_nonempty: "bp_wf ml mi h t \<Longrightarrow> 0 < ml \<Longrightarrow> entries t \<noteq> []"
proof (induction h arbitrary: ml mi t)
  case 0
  then have "length (entries t) = num_keys t" by (simp add: entries_leaf arrays_ok_def)
  with 0 show ?case by auto
next
  case (Suc h)
  then have "length (live_children t) = Suc (num_keys t)" by (simp add: arrays_ok_def)
  then obtain c where c: "c \<in> set (live_children t)" by (cases "live_children t") auto
  with Suc.prems have "bp_wf 16 15 h c" by (simp add: inner_ok_def)
  then have "entries c \<noteq> []" by (rule Suc.IH) simp
  with c Suc.prems show ?case by (simp add: entries_inner arrays_ok_def) blast
qed

lemma bp_wf_child_nonempty: "bp_wf 16 15 h t \<Longrightarrow> keyset t \<noteq> {}"
  using bp_wf_nonempty by fastforce

lemma bp_wf_mono: "bp_wf ml mi h t \<Longrightarrow> ml' \<le> ml \<Longrightarrow> mi' \<le> mi \<Longrightarrow> bp_wf ml' mi' h t"
  by (cases h) auto

lemma bp_wf_height: "bp_wf ml mi h t \<Longrightarrow> height t = h"
proof (induction h arbitrary: ml mi t)
  case 0
  then show ?case by (cases t) (auto simp: arrays_ok_def)
next
  case (Suc h)
  then have "live_children t ! 0 \<in> set (live_children t)" by (intro nth_mem) (simp add: arrays_ok_def)
  with Suc.prems have "bp_wf 16 15 h (live_children t ! 0)" by (simp add: inner_ok_def del: nth_take)
  then have "height (child_at (children t) 0) = h"
    using Suc.IH Suc.prems by (simp add: child_at_def arrays_ok_def)
  with Suc.prems show ?case by (cases t) (auto simp: arrays_ok_def)
qed

subsection \<open>The loops over the keys\<close>

lemma find_position_loop_eq:
  "pos \<le> n \<Longrightarrow> n \<le> length ks \<Longrightarrow>
   find_position_loop n ks key pos = pos + length (takeWhile (\<lambda>k. k < key) (drop pos (take n ks)))"
proof (induction n ks key pos rule: find_position_loop.induct)
  case (1 n ks key pos)
  show ?case
  proof (cases "pos < n")
    case True
    then have "drop pos (take n ks) = ks ! pos # drop (Suc pos) (take n ks)"
      using "1.prems" by (simp add: drop_take_Cons)
    with True "1" show ?thesis by (subst find_position_loop.simps) simp
  next
    case False
    then show ?thesis using "1.prems" by (subst find_position_loop.simps) simp
  qed
qed

lemma leaf_find_position_eq:
  "arrays_ok t \<Longrightarrow> leaf_find_position t key = length (takeWhile (\<lambda>k. k < key) (live_keys t))"
  by (simp add: leaf_find_position_def find_position_loop_eq arrays_ok_def)

lemma child_index_loop_eq:
  "idx \<le> n \<Longrightarrow> n \<le> length ks \<Longrightarrow>
   child_index_loop n ks key idx = idx + route (drop idx (take n ks)) key"
proof (induction n ks key idx rule: child_index_loop.induct)
  case (1 n ks key idx)
  show ?case
  proof (cases "idx < n")
    case True
    then have "drop idx (take n ks) = ks ! idx # drop (Suc idx) (take n ks)"
      using "1.prems" by (simp add: drop_take_Cons)
    with True "1" show ?thesis by (subst child_index_loop.simps) simp
  next
    case False
    then show ?thesis using "1.prems" by (subst child_index_loop.simps) simp
  qed
qed

lemma child_index_eq: "arrays_ok t \<Longrightarrow> child_index_for_key t key = route (live_keys t) key"
  by (simp add: child_index_for_key_def child_index_loop_eq arrays_ok_def)

subsection \<open>Inner nodes as lists of separators and children\<close>

lemma inner_ok_index: "inner_ok P K C \<Longrightarrow> route K key < length C"
  using route_le [of K key] by (simp add: inner_ok_def)

lemma entries_cut: "i < length C \<Longrightarrow> concat (map entries C) =
    concat (map entries (take i C)) @ entries (C ! i) @ concat (map entries (drop (Suc i) C))"
  by (subst id_take_nth_drop [of i C]) auto

lemma keyset_before:
  assumes "inner_ok P K C" "x \<in> set (concat (map entries (take (route K key) C)))"
  shows "fst x < key"
proof -
  from assms(2) obtain c where c: "c \<in> set (take (route K key) C)" "x \<in> set (entries c)"
    by auto
  from c(1) obtain j where "j < length (take (route K key) C)" "take (route K key) C ! j = c"
    unfolding in_set_conv_nth by blast
  with c(2) have j: "j < route K key" "j < length C" "fst x \<in> keyset (C ! j)" by auto
  then have "route K (fst x) = j" using assms(1) by (auto intro: inner_ok_route)
  then show ?thesis using j route_mono [of K key "fst x"] assms(1)
    by (auto simp: inner_ok_def not_le [symmetric])
qed

lemma keyset_after:
  assumes "inner_ok P K C" "x \<in> set (concat (map entries (drop (Suc (route K key)) C)))"
  shows "key < fst x"
proof -
  from assms(2) obtain c where c: "c \<in> set (drop (Suc (route K key)) C)" "x \<in> set (entries c)"
    by auto
  from c(1) obtain m where m: "m < length (drop (Suc (route K key)) C)"
      "drop (Suc (route K key)) C ! m = c"
    unfolding in_set_conv_nth by blast
  with c(2) have "Suc (route K key) + m < length C"
    "fst x \<in> keyset (C ! (Suc (route K key) + m))" by auto
  then have "route K (fst x) = Suc (route K key) + m"
    using assms(1) by (blast intro: inner_ok_route)
  then show ?thesis using route_mono [of K "fst x" key] assms(1)
    by (auto simp: inner_ok_def not_le [symmetric])
qed

lemma kv_insert_below:
  assumes "inner_ok P K C" "i = route K key"
  shows "kv_insert key v (concat (map entries C)) =
    concat (map entries (take i C)) @ kv_insert key v (entries (C ! i)) @
    concat (map entries (drop (Suc i) C))"
  using assms inner_ok_index [OF assms(1), of key]
  by (subst entries_cut [of i]) (auto intro!: kv_insert_middle dest: keyset_before keyset_after)

lemma keyset_below:
  assumes "inner_ok P K C" "i = route K key"
  shows "key \<in> fst ` set (concat (map entries C)) \<longleftrightarrow> key \<in> keyset (C ! i)"
proof -
  have "i < length C" using inner_ok_index assms by blast
  moreover have "key \<in> keyset c \<Longrightarrow> c \<in> set C \<Longrightarrow> c = C ! i" for c
    using assms inner_ok_route by (metis in_set_conv_nth)
  ultimately show ?thesis unfolding keyset_concat by (auto dest: nth_mem)
qed

lemma inner_replace:
  assumes "inner_ok P K C" "i = route K key" "P c" "keyset c \<subseteq> insert key (keyset (C ! i))"
  shows "inner_ok P K (C[i := c])"
proof -
  have "route K k = j" if "j < length C" "k \<in> keyset (C[i := c] ! j)" for j k
  proof (cases "j = i")
    case True
    then have "k = key \<or> k \<in> keyset (C ! i)" using that assms(4) by auto
    then show ?thesis using True assms(1,2) that(1) by (auto intro: inner_ok_route)
  next
    case False
    then show ?thesis using that assms(1) by (auto intro: inner_ok_route)
  qed
  moreover have "\<forall>x\<in>set (C[i := c]). P x"
    using assms(1,3) set_update_subset_insert [of C i c] unfolding inner_ok_def by blast
  ultimately show ?thesis using assms(1) by (simp add: inner_ok_def)
qed

lemma entries_replace:
  "i < length C \<Longrightarrow> concat (map entries (C[i := c])) =
    concat (map entries (take i C)) @ entries c @ concat (map entries (drop (Suc i) C))"
  by (simp add: upd_conv_take_nth_drop)

lemma entries_link:
  assumes "i < length C"
  shows "concat (map entries (ins_at (Suc i) r (C[i := c]))) =
    concat (map entries (take i C)) @ (entries c @ entries r) @
    concat (map entries (drop (Suc i) C))"
proof -
  have "take (Suc i) (C[i := c]) = take i C @ [c]"
    using assms by (simp add: upd_conv_take_nth_drop)
  then show ?thesis by (simp add: ins_at_def)
qed

end
