(* ===== verification/BpInsert.thy ===== *)
theory BpInsert
  imports BpInvariant
begin

section \<open>The B+ tree: correctness of insertion\<close>

text \<open>
  One lemma per function of \<open>bptree.c\<close>: \<open>leaf_insert_correct\<close>, \<open>node_link_correct\<close> (the part of
  \<open>node_insert\<close> after the recursive call), \<open>node_insert_correct\<close> and \<open>bptree_insert_correct\<close>.
  Each describes both outcomes: \<open>inserted\<close>, the contents are updated and the invariant holds, and
  \<open>refused\<close>, some allocation failed and the tree is well formed but may have lost entries.
\<close>

subsection \<open>Linking and splitting separator lists\<close>

lemma inner_link:
  assumes ok: "inner_ok P K C" and i: "i = route K key" and "P c" "P r"
    and sub: "keyset c \<subseteq> insert key (keyset (C ! i))" "keyset r \<subseteq> insert key (keyset (C ! i))"
    and low: "\<forall>k\<in>keyset c. k < p" and high: "\<forall>k\<in>keyset r. p \<le> k"
    and ne: "keyset c \<noteq> {}" "keyset r \<noteq> {}"
  shows "inner_ok P (ins_at i p K) (ins_at (Suc i) r (C[i := c]))"
proof -
  have iC: "i < length C" "i \<le> length K" using inner_ok_index [OF ok, of key] route_le [of K key] i by auto
  have sK: "sorted_wrt (<) K" using ok by (simp add: inner_ok_def)
  have at_i: "route K k = i" if "k \<in> keyset c \<union> keyset r" for k
  proof -
    from that sub have "k = key \<or> k \<in> keyset (C ! i)" by blast
    then show ?thesis using i inner_ok_route [OF ok] iC by blast
  qed
  from ne obtain kc kr where kcr: "kc \<in> keyset c" "kr \<in> keyset r"
    unfolding ex_in_conv [symmetric] by (elim exE) rule
  have rt: "route K kc = i" "route K kr = i" using kcr by (blast intro: at_i)+
  have mid: "kc < p" "p \<le> kr" using kcr low high by blast+
  have below: "K ! j < p" if "j < i" for j
    using route_nth_le [of j K kc] rt(1) mid(1) that by simp
  have above: "p < K ! j" if "i \<le> j" "j < length K" for j
    using route_nth_gt [OF sK, of kr j] rt(2) mid(2) that by simp
  have "\<forall>x\<in>set (take i K). x < p" "\<forall>x\<in>set (drop i K). p < x"
    using below above iC by (auto simp: in_set_conv_nth)
  moreover have "\<forall>x\<in>set (take i K). \<forall>y\<in>set (drop i K). x < y"
    using calculation by force
  moreover have "sorted_wrt (<) (take i K)" "sorted_wrt (<) (drop i K)"
    using sK by (auto simp: sorted_wrt_take sorted_wrt_drop)
  ultimately have sorted: "sorted_wrt (<) (ins_at i p K)"
    by (auto simp: ins_at_def sorted_wrt_append)
  have "route (ins_at i p K) k = j"
    if j: "j < length (ins_at (Suc i) r (C[i := c]))" and k: "k \<in> keyset (ins_at (Suc i) r (C[i := c]) ! j)" for j k
  proof -
    consider "j < i" | "j = i" | "j = Suc i" | "Suc i < j" by linarith
    then show ?thesis
    proof cases
      case 1
      then have "k \<in> keyset (C ! j)" using k iC by (simp add: nth_ins_at)
      then have "route K k = j" using inner_ok_route [OF ok] 1 iC by simp
      then show ?thesis using route_ins_at_below [OF sK] 1 iC by blast
    next
      case 2
      then have "k \<in> keyset c" using k iC by (simp add: nth_ins_at)
      then show ?thesis using route_ins_at_left [of K k i p] at_i low 2 by blast
    next
      case 3
      then have "k \<in> keyset r" using k iC by (simp add: nth_ins_at)
      then show ?thesis using route_ins_at_above [of i K k p] at_i high 3 by simp
    next
      case 4
      then have "k \<in> keyset (C ! (j - 1))" "j - 1 < length C" using k j iC by (auto simp: nth_ins_at)
      then have r: "route K k = j - 1" using inner_ok_route [OF ok] by blast
      then have "K ! i \<le> k" "i < length K" using route_nth_le [of i K k] route_le [of K k] 4 by auto
      then have "p \<le> k" using above [of i] by simp
      then show ?thesis using route_ins_at_above [of i K k p] r 4 by simp
    qed
  qed
  moreover have "\<forall>x\<in>set (ins_at (Suc i) r (C[i := c])). P x"
    using assms(3,4) ok set_update_subset_insert [of C i c] unfolding inner_ok_def by auto
  ultimately show ?thesis using sorted ok by (auto simp: inner_ok_def)
qed

lemma inner_ok_take:
  assumes "inner_ok P K C" "m \<le> length K"
  shows "inner_ok P (take m K) (take (Suc m) C)"
proof -
  have "route (take m K) k = i" if "i < length C" "i \<le> m" "k \<in> keyset (C ! i)" for k i
    using inner_ok_route [OF assms(1) that(3,1)] that(2) by (simp add: route_take)
  then show ?thesis using assms
    by (auto simp: inner_ok_def sorted_wrt_take dest: in_set_takeD)
qed

lemma inner_ok_drop:
  assumes "inner_ok P K C" "m < length K"
  shows "inner_ok P (drop (Suc m) K) (drop (Suc m) C)"
proof -
  have "route (drop (Suc m) K) k = i" if "Suc m + i < length C" "k \<in> keyset (C ! (Suc m + i))" for k i
    using inner_ok_route [OF assms(1) that(2,1)] by (simp add: route_drop)
  then show ?thesis using assms
    by (auto simp: inner_ok_def sorted_wrt_drop dest: in_set_dropD)
qed

lemma inner_split_low:
  assumes "inner_ok P K C" "m < length K" "k \<in> fst ` set (concat (map entries (take (Suc m) C)))"
  shows "k < K ! m"
proof -
  from assms(3) obtain c where c: "c \<in> set (take (Suc m) C)" "k \<in> keyset c" by auto
  from c(1) obtain j where "j < length (take (Suc m) C)" "take (Suc m) C ! j = c"
    unfolding in_set_conv_nth by blast
  with c have "route K k = j" "j \<le> m" using inner_ok_route [OF assms(1)] by auto
  then show ?thesis using route_nth_gt [of K k m] assms by (simp add: inner_ok_def)
qed

lemma inner_split_high:
  assumes "inner_ok P K C" "k \<in> fst ` set (concat (map entries (drop (Suc m) C)))"
  shows "K ! m \<le> k"
proof -
  from assms(2) obtain c where c: "c \<in> set (drop (Suc m) C)" "k \<in> keyset c" by auto
  from c(1) obtain j where "j < length (drop (Suc m) C)" "drop (Suc m) C ! j = c"
    unfolding in_set_conv_nth by blast
  with c have "route K k = Suc m + j" using inner_ok_route [OF assms(1), of k "Suc m + j"] by auto
  then show ?thesis by (intro route_nth_le) simp
qed

subsection \<open>The two outcomes of an insertion into a subtree\<close>

definition inserted ::
    "nat \<Rightarrow> nat \<Rightarrow> nat \<Rightarrow> int \<Rightarrow> nat \<Rightarrow> bpnode \<Rightarrow> bpnode \<Rightarrow> InsertResult \<Rightarrow> bool" where
  "inserted ml mi h key v t t' res \<longleftrightarrow>
     inserted_new res = (key \<notin> keyset t) \<and>
     (if split res
      then bp_wf 16 15 h t' \<and> bp_wf 16 15 h (right res) \<and>
           entries t' @ entries (right res) = kv_insert key v (entries t) \<and>
           (\<forall>k\<in>keyset t'. k < promoted_key res) \<and>
           (\<forall>k\<in>keyset (right res). promoted_key res \<le> k)
      else bp_wf ml mi h t' \<and> entries t' = kv_insert key v (entries t))"

definition refused ::
    "nat \<Rightarrow> nat \<Rightarrow> nat \<Rightarrow> int \<Rightarrow> nat \<Rightarrow> bpnode \<Rightarrow> bpnode \<Rightarrow> InsertResult \<Rightarrow> bool" where
  "refused ml mi h key v t t' res \<longleftrightarrow>
     \<not> split res \<and> \<not> inserted_new res \<and> bp_wf ml mi h t' \<and>
     subseq (entries t') (kv_insert key v (entries t))"

lemma node_create_cases:
  "node_create lf os = (t, os') \<Longrightarrow> runs_to os os' \<and>
    (t = Null \<and> \<not> granted os os' \<or>
     t = BpNode (Suc (calls os)) lf 0 (replicate 31 0) (replicate 32 Null) (replicate 31 0) 0)"
  by (auto simp: node_create_def alloc_def sys_call_def runs_to_def granted_def
      split: option.splits prod.splits if_splits)

lemma subseq_ins_at: "subseq xs (ins_at p x xs)"
proof -
  have "subseq (take p xs @ drop p xs) (take p xs @ x # drop p xs)"
    by (intro list_emb_append_mono) auto
  then show ?thesis by (simp add: ins_at_def)
qed

subsection \<open>Insertion into a leaf\<close>

lemma leaf_split_halves:
  fixes K :: "int list"
  assumes "sorted_wrt (<) K" "length K = 32" "length V = 32" "es = zip K V"
  shows "\<forall>k\<in>fst ` set (zip (take 16 K) (take 16 V)). k < K ! 16"
    and "\<forall>k\<in>fst ` set (zip (drop 16 K) (drop 16 V)). K ! 16 \<le> k"
    and "zip (take 16 K) (take 16 V) @ zip (drop 16 K) (drop 16 V) = es"
proof -
  have "k < K ! 16" if "k \<in> set (take 16 K)" for k
    using that assms(1,2) by (auto simp: in_set_conv_nth sorted_wrt_iff_nth_less)
  then show "\<forall>k\<in>fst ` set (zip (take 16 K) (take 16 V)). k < K ! 16"
    by (auto dest: set_zip_leftD)
  have "K ! 16 \<le> k" if k: "k \<in> set (drop 16 K)" for k
  proof -
    from k obtain j where "j < 16" "k = K ! (16 + j)" using assms(2) by (auto simp: in_set_conv_nth)
    then show ?thesis using assms(1,2) by (cases "j = 0") (auto simp: sorted_wrt_iff_nth_less less_imp_le)
  qed
  then show "\<forall>k\<in>fst ` set (zip (drop 16 K) (drop 16 V)). K ! 16 \<le> k"
    by (auto dest: set_zip_leftD)
  show "zip (take 16 K) (take 16 V) @ zip (drop 16 K) (drop 16 V) = es"
    using assms by (simp add: take_zip [symmetric] drop_zip [symmetric])
qed

lemma leaf_insert_correct:
  assumes wf: "bp_wf ml mi 0 t" and ml: "ml \<le> 16" and run: "leaf_insert os t key v = (os', t', res)"
  shows "runs_to os os' \<and>
    (inserted ml mi 0 key v t t' res \<or> refused ml mi 0 key v t t' res \<and> \<not> granted os os')"
proof -
  obtain a n ks cs vs nx where t: "t = BpNode a True n ks cs vs nx"
    using wf by (cases t) (auto simp: arrays_ok_def)
  have arr: "length ks = 31" "length cs = 32" "length vs = 31" "n \<le> 31" "ml \<le> n"
    and sK: "sorted_wrt (<) (take n ks)"
    using wf by (auto simp: t arrays_ok_def)
  define pos where "pos = length (takeWhile (\<lambda>k. k < key) (take n ks))"
  have pos: "leaf_find_position t key = pos" "pos \<le> n"
    using leaf_find_position_eq [of t key] wf length_takeWhile_le [of _ "take n ks"] arr
    by (auto simp: pos_def t)
  have es: "entries t = zip (take n ks) (take n vs)" "map fst (entries t) = take n ks"
    using arr by (auto simp: t)
  have ks_mem: "key \<in> keyset t \<longleftrightarrow> key \<in> set (take n ks)"
    by (metis es(2) list.set_map)
  have kv: "kv_insert key v (entries t) =
      (if pos < n \<and> ks ! pos = key then zip (take n ks) ((take n vs)[pos := v])
       else zip (ins_at pos key (take n ks)) (ins_at pos v (take n vs)))"
  proof -
    have "(zip (take n ks) (take n vs))[pos := (key, v)] = zip (take n ks) ((take n vs)[pos := v])"
      if "pos < n" "ks ! pos = key"
    proof -
      have "(take n ks)[pos := key] = take n ks"
        using that arr by (simp add: list_update_same_conv)
      then show ?thesis by (simp add: update_zip)
    qed
    moreover have "kv_insert key v (entries t) =
        (if pos < length (entries t) \<and> fst (entries t ! pos) = key then (entries t)[pos := (key, v)]
         else ins_at pos (key, v) (entries t))"
      by (rule kv_insert_by_position) (use sK es in \<open>simp_all add: pos_def\<close>)
    moreover have "length (entries t) = n" "pos < n \<Longrightarrow> fst (entries t ! pos) = ks ! pos"
      using arr by (auto simp: es(1))
    ultimately show ?thesis using arr by (auto simp: es(1) zip_ins_at)
  qed
  have absent: "key \<notin> set (take n ks)" if "\<not> (pos < n \<and> ks ! pos = key)"
    by (rule position_absent [OF sK pos_def]) (use that arr in auto)
  have sI: "sorted_wrt (<) (ins_at pos key (take n ks))" if "\<not> (pos < n \<and> ks ! pos = key)"
    using kv_sorted_insert [OF bp_wf_sorted [OF wf], of key v] that kv arr by simp
  consider (found) "pos < n" "ks ! pos = key"
    | (room) "\<not> (pos < n \<and> ks ! pos = key)" "n < 31"
    | (full) "\<not> (pos < n \<and> ks ! pos = key)" "n = 31"
    using arr by linarith
  then show ?thesis
  proof cases
    case found
    then have "os' = os" "t' = BpNode a True n ks cs (vs[pos := v]) nx" "res = no_split False"
      using run pos by (auto simp: leaf_insert_def t)
    then show ?thesis using found kv arr sK ks_mem
      by (auto simp: inserted_def no_split_def arrays_ok_def take_update_swap in_set_conv_nth)
  next
    case room
    then have "os' = os" "res = no_split True"
      "t' = BpNode a True (Suc n) ((shift_right n pos ks)[pos := key]) cs
              ((shift_right n pos vs)[pos := v]) nx"
      using run pos by (auto simp: leaf_insert_def t)
    then show ?thesis using room kv arr sI [OF room(1)] absent [OF room(1)] ks_mem pos(2)
      by (auto simp: inserted_def no_split_def arrays_ok_def take_shift_right_store)
  next
    case full
    define K where "K = ins_at pos key ks"
    define V where "V = ins_at pos v vs"
    have KV: "length K = 32" "length V = 32" "sorted_wrt (<) K" "kv_insert key v (entries t) = zip K V"
      using full(2) arr kv sI [OF full(1)] full(1) by (auto simp: K_def V_def)
    have temps: "build_temp (replicate 32 0) ks key pos 32 = K" "build_temp (replicate 32 0) vs v pos 32 = V"
      using arr full(2) pos(2) by (auto simp: build_temp_eq K_def V_def)
    obtain r os1 where nc: "node_create True os = (r, os1)" by fastforce
    show ?thesis
    proof (cases r)
      case Null
      then have "os' = os1" "t' = t" "res = no_split False"
        using run pos full nc by (auto simp: leaf_insert_def t)
      moreover have "subseq (entries t) (kv_insert key v (entries t))"
        using kv full arr es by (auto simp: zip_ins_at subseq_ins_at)
      ultimately show ?thesis using node_create_cases [OF nc] Null wf
        by (auto simp: refused_def no_split_def)
    next
      case (BpNode ra rl rn rks rcs rvs rnx)
      then have r: "rl = True" "rks = replicate 31 0" "rcs = replicate 32 Null" "rvs = replicate 31 0"
        and rt: "runs_to os os1" using node_create_cases [OF nc] by auto
      define R where "R = BpNode ra True 16 (drop 16 K @ replicate 15 0) (replicate 32 Null)
              (drop 16 V @ replicate 15 0) nx"
      define L where "L = BpNode a True 16 (take 16 K @ drop 16 ks) cs (take 16 V @ drop 16 vs) ra"
      have R_eq: "os' = os1" "t' = L" "split res" "right res = R" "promoted_key res = K ! 16" "inserted_new res"
        using run pos full nc BpNode r KV arr temps
        by (auto simp: leaf_insert_def t copy_block_eq R_def L_def Let_def nth_append)
      have ent: "entries L = zip (take 16 K) (take 16 V)" "entries R = zip (drop 16 K) (drop 16 V)"
        using KV by (auto simp: L_def R_def)
      have "bp_wf 16 15 0 L" "bp_wf 16 15 0 R"
        using KV arr by (auto simp: L_def R_def arrays_ok_def sorted_wrt_take sorted_wrt_drop)
      then show ?thesis
        using leaf_split_halves [OF KV(3,1,2,4)] rt absent [OF full(1)] ks_mem
        unfolding inserted_def R_eq(1,2,4,5) ent by (simp add: R_eq(3,6))
    qed
  qed
qed

subsection \<open>Insertion below an inner node\<close>

definition linked ::
    "nat \<Rightarrow> nat \<Rightarrow> nat \<Rightarrow> (int \<times> nat) list \<Rightarrow> bool \<Rightarrow> bpnode \<Rightarrow> InsertResult \<Rightarrow> bool" where
  "linked ml mi h es new t' res \<longleftrightarrow>
     inserted_new res = new \<and>
     (if split res
      then bp_wf 16 15 h t' \<and> bp_wf 16 15 h (right res) \<and> entries t' @ entries (right res) = es \<and>
           (\<forall>k\<in>keyset t'. k < promoted_key res) \<and> (\<forall>k\<in>keyset (right res). promoted_key res \<le> k)
      else bp_wf ml mi h t' \<and> entries t' = es)"

lemma node_link_correct:
  assumes t: "t = BpNode a False n ks cs vs nx" and arr: "arrays_ok t" and mi: "mi \<le> n" "mi \<le> 15"
    and nulls: "\<forall>c\<in>set (drop (Suc n) cs). is_Null c"
    and K: "K = ins_at i (promoted_key cr) (take n ks)"
    and C: "C = ins_at (Suc i) (right cr) (take (Suc n) cs)"
    and i: "i \<le> n" and ok: "inner_ok (bp_wf 16 15 h) K C"
    and run: "node_link os t i cr = (os', t', res)"
  shows "runs_to os os' \<and>
    (linked ml mi (Suc h) (concat (map entries C)) (inserted_new cr) t' res \<or>
     \<not> granted os os' \<and> t' = t \<and> res = no_split False)"
proof -
  have len: "length ks = 31" "length cs = 32" "length vs = 31" "n \<le> 31" using arr by (auto simp: t arrays_ok_def)
  show ?thesis
  proof (cases "n < 31")
    case True
    define T where "T = BpNode a False (Suc n) ((shift_right n i ks)[i := promoted_key cr])
        ((shift_right (n + 1) (i + 1) cs)[i + 1 := right cr]) vs nx"
    have r: "os' = os" "t' = T" "res = no_split (inserted_new cr)"
      using run True by (auto simp: node_link_def t T_def)
    have live: "live_keys T = K" "live_children T = C"
      using len True i by (auto simp: T_def K C take_shift_right_store)
    have "drop (Suc (num_keys T)) (children T) = drop (Suc (Suc n)) cs"
      using len True i by (simp add: T_def drop_shift_right)
    then have "\<forall>c\<in>set (drop (Suc (num_keys T)) (children T)). is_Null c"
      using nulls set_drop_subset_set_drop [of "Suc n" "Suc (Suc n)" cs] by auto
    moreover have "arrays_ok T" "num_keys T = Suc n" "\<not> is_leaf T"
      using len True by (auto simp: T_def arrays_ok_def)
    ultimately have "bp_wf ml mi (Suc h) T" using ok live mi by simp
    moreover have "entries T = concat (map entries C)" using live \<open>\<not> is_leaf T\<close>
      by (subst entries_inner) (auto simp: T_def)
    ultimately show ?thesis by (simp add: r linked_def no_split_def)
  next
    case False
    with len have n: "n = 31" by simp
    have KC: "length K = 32" "length C = 33" using len n by (auto simp: K C)
    have temps: "build_temp (replicate 32 0) ks (promoted_key cr) i 32 = K"
      "build_temp (Null # replicate 32 Null) cs (right cr) (Suc i) 33 = C"
      using len n i by (auto simp: K C build_temp_eq)
    obtain r os1 where nc: "node_create False os = (r, os1)" by fastforce
    show ?thesis
    proof (cases r)
      case Null
      then show ?thesis using run n nc node_create_cases [OF nc]
        by (auto simp: node_link_def t no_split_def)
    next
      case (BpNode ra rl rn rks rcs rvs rnx)
      then have rr: "rl = False" "rks = replicate 31 0" "rcs = replicate 32 Null" "rvs = replicate 31 0"
        and rt: "runs_to os os1" using node_create_cases [OF nc] by auto
      define R where "R = BpNode ra False 15 (drop 17 K @ replicate 16 0)
              (drop 17 C @ replicate 16 Null) (replicate 31 0) rnx"
      define L where "L = BpNode a False 16 (take 16 K @ drop 16 ks) (take 17 C @ replicate 15 Null) vs nx"
      have R_eq: "os' = os1" "t' = L" "split res" "right res = R" "promoted_key res = K ! 16"
          "inserted_new res = inserted_new cr"
        using run n nc BpNode rr KC len temps
        by (auto simp: node_link_def t copy_block_eq fill_block_eq R_def L_def Let_def)
      have live: "live_keys L = take 16 K" "live_children L = take 17 C"
        "live_keys R = drop 17 K" "live_children R = drop 17 C"
        using KC by (auto simp: L_def R_def)
      have oks: "inner_ok (bp_wf 16 15 h) (take 16 K) (take 17 C)"
          "inner_ok (bp_wf 16 15 h) (drop 17 K) (drop 17 C)"
        using inner_ok_take [OF ok, of 16] inner_ok_drop [OF ok, of 16] KC by simp_all
      have "bp_wf 16 15 (Suc h) L" using oks live KC len by (simp add: L_def arrays_ok_def)
      moreover have "bp_wf 16 15 (Suc h) R" using oks live KC len by (simp add: R_def arrays_ok_def)
      moreover have ent: "entries L = concat (map entries (take 17 C))"
          "entries R = concat (map entries (drop 17 C))"
        using live by (subst entries_inner; auto simp: L_def R_def)+
      moreover have "entries L @ entries R = concat (map entries C)"
        unfolding ent by (simp flip: concat_append map_append)
      moreover have "\<forall>k\<in>keyset L. k < K ! 16" "\<forall>k\<in>keyset R. K ! 16 \<le> k"
        using inner_split_low [OF ok, of 16] inner_split_high [OF ok, of _ 16] KC
        unfolding ent by simp_all
      ultimately show ?thesis using rt unfolding linked_def R_eq(1,2,4-) by (simp add: R_eq(3))
    qed
  qed
qed

lemma node_insert_correct:
  assumes "bp_wf ml mi h t" "ml \<le> 16" "mi \<le> 15"
  shows "\<exists>os' t' res. node_insert os t key v = Some (os', t', res) \<and> runs_to os os' \<and>
    (inserted ml mi h key v t t' res \<or> refused ml mi h key v t t' res \<and> \<not> granted os os')"
  using assms
proof (induction h arbitrary: ml mi t)
  case 0
  then obtain a n ks cs vs nx where t: "t = BpNode a True n ks cs vs nx"
    by (cases t) (auto simp: arrays_ok_def)
  obtain os' t' res where run: "leaf_insert os t key v = (os', t', res)" by (cases "leaf_insert os t key v")
  then have "node_insert os t key v = Some (os', t', res)" by (simp add: t Let_def)
  then show ?case using leaf_insert_correct [OF "0.prems"(1,2) run] by blast
next
  case (Suc h)
  obtain a n ks cs vs nx where t: "t = BpNode a False n ks cs vs nx"
    using Suc.prems by (cases t) (auto simp: arrays_ok_def)
  define K C i where KC: "K = take n ks" "C = take (Suc n) cs" "i = route K key"
  have arr: "arrays_ok t" "length ks = 31" "length cs = 32" "n \<le> 31" "mi \<le> n"
    and ok: "inner_ok (bp_wf 16 15 h) K C" and nulls: "\<forall>c\<in>set (drop (Suc n) cs). is_Null c"
    using Suc.prems(1) by (auto simp: t KC arrays_ok_def)
  have lenC: "length C = Suc n" using arr by (simp add: KC)
  have i: "i < length C" "i \<le> n" "child_index_for_key t key = i" "child_at cs i = C ! i"
    using inner_ok_index [OF ok, of key] child_index_eq [OF arr(1)] arr lenC
    by (auto simp: KC t child_at_def)
  have "bp_wf 16 15 h (C ! i)" using ok i(1) by (simp add: inner_ok_def)
  then obtain os1 c cr where rec: "node_insert os (C ! i) key v = Some (os1, c, cr)" "runs_to os os1"
    and out: "inserted 16 15 h key v (C ! i) c cr \<or> refused 16 15 h key v (C ! i) c cr \<and> \<not> granted os os1"
    using Suc.IH [of 16 15 "C ! i"] by auto
  define t1 where "t1 = BpNode a False n ks (cs[i := c]) vs nx"
  have step: "node_insert os t key v =
      (if split cr then Some (node_link os1 t1 i cr) else Some (os1, t1, cr))"
    using rec(1) i by (simp add: t t1_def Let_def)
  have arr1: "arrays_ok t1" using arr by (auto simp: t t1_def arrays_ok_def)
  have live1: "live_keys t1 = K" "live_children t1 = C[i := c]"
    using i by (auto simp: t1_def KC take_update_swap)
  have nulls1: "\<forall>c\<in>set (drop (Suc n) (cs[i := c])). is_Null c"
    using nulls i(2) by (simp add: drop_update_cancel)
  have E: "entries t = concat (map entries C)" by (simp add: t KC)
  have kv: "kv_insert key v (entries t) = concat (map entries (take i C)) @
      kv_insert key v (entries (C ! i)) @ concat (map entries (drop (Suc i) C))"
    unfolding E by (rule kv_insert_below [OF ok]) (simp add: KC)
  have mem: "key \<in> keyset t \<longleftrightarrow> key \<in> keyset (C ! i)"
    unfolding E by (rule keyset_below [OF ok]) (simp add: KC)
  have E1: "entries t1 = concat (map entries (take i C)) @ entries c @ concat (map entries (drop (Suc i) C))"
    using live1 entries_replace [OF i(1), of c] by (subst entries_inner) (auto simp: t1_def)
  have sub: "keyset x \<subseteq> insert key (keyset (C ! i))"
    if "set (entries x) \<subseteq> set (kv_insert key v (entries (C ! i)))" for x
    using that keys_kv_insert_subset [of key v "entries (C ! i)"] by (meson image_mono order_trans)
  have wf1: "bp_wf ml mi (Suc h) t1" if "bp_wf 16 15 h c" "keyset c \<subseteq> insert key (keyset (C ! i))"
    using inner_replace [OF ok KC(3) that] arr arr1 live1 nulls1 by (simp add: t1_def)
  consider (plain) "inserted 16 15 h key v (C ! i) c cr" "\<not> split cr"
    | (lost) "refused 16 15 h key v (C ! i) c cr" "\<not> granted os os1"
    | (link) "inserted 16 15 h key v (C ! i) c cr" "split cr" using out by blast
  then show ?case
  proof cases
    case plain
    then have c: "bp_wf 16 15 h c" "entries c = kv_insert key v (entries (C ! i))"
        "inserted_new cr = (key \<notin> keyset t)" by (auto simp: inserted_def mem)
    then have "bp_wf ml mi (Suc h) t1" using wf1 sub [of c] by simp
    then show ?thesis using step plain rec(2) c E1 kv by (auto simp: inserted_def simp del: bp_wf.simps)
  next
    case lost
    then have c: "bp_wf 16 15 h c" "subseq (entries c) (kv_insert key v (entries (C ! i)))"
        "\<not> split cr" "\<not> inserted_new cr" by (auto simp: refused_def)
    then have "set (entries c) \<subseteq> set (kv_insert key v (entries (C ! i)))"
      by (auto dest: list_emb_set)
    then have "bp_wf ml mi (Suc h) t1" using wf1 sub [of c] c(1) by simp
    moreover have "subseq (entries t1) (kv_insert key v (entries t))"
      unfolding E1 kv by (intro list_emb_append_mono c(2) subseq_order.refl)
    ultimately show ?thesis using step c lost rec(2) by (auto simp: refused_def simp del: bp_wf.simps)
  next
    case link
    define r p where rp: "r = right cr" "p = promoted_key cr"
    have c: "bp_wf 16 15 h c" "bp_wf 16 15 h r" "inserted_new cr = (key \<notin> keyset t)"
      "entries c @ entries r = kv_insert key v (entries (C ! i))"
      "\<forall>k\<in>keyset c. k < p" "\<forall>k\<in>keyset r. p \<le> k"
      using link by (auto simp: inserted_def rp mem)
    have subs: "keyset c \<subseteq> insert key (keyset (C ! i))" "keyset r \<subseteq> insert key (keyset (C ! i))"
      using sub [of c] sub [of r] c(4) by (metis set_append sup_ge1, metis set_append sup_ge2)
    have link_ok: "inner_ok (bp_wf 16 15 h) (ins_at i p K) (ins_at (Suc i) r (C[i := c]))"
      by (rule inner_link [OF ok KC(3) c(1,2) subs c(5,6) bp_wf_child_nonempty [OF c(1)]
            bp_wf_child_nonempty [OF c(2)]])
    have w1: "bp_wf ml mi (Suc h) t1" using wf1 [OF c(1) subs(1)] .
    obtain os2 t2 res where nl: "node_link os1 t1 i cr = (os2, t2, res)"
      by (cases "node_link os1 t1 i cr")
    have CE: "concat (map entries (ins_at (Suc i) r (C[i := c]))) = kv_insert key v (entries t)"
      unfolding entries_link [OF i(1)] kv c(4) by simp
    have linking: "runs_to os1 os2 \<and>
      (linked ml mi (Suc h) (kv_insert key v (entries t)) (inserted_new cr) t2 res \<or>
       \<not> granted os1 os2 \<and> t2 = t1 \<and> res = no_split False)"
      unfolding CE [symmetric]
      by (rule node_link_correct [OF t1_def arr1 arr(5) Suc.prems(3) nulls1 _ _ i(2) link_ok nl])
        (use live1 in \<open>auto simp: rp t1_def KC(1)\<close>)
    have run: "node_insert os t key v = Some (os2, t2, res)" using step link nl by simp
    have rt: "runs_to os os2" using rec(2) linking runs_to_trans by blast
    have "subseq (entries c @ []) (entries c @ entries r)"
      by (intro list_emb_append_mono subseq_order.refl list_emb_Nil)
    then have less: "subseq (entries t1) (kv_insert key v (entries t))" unfolding E1 kv c(4) [symmetric]
      by (intro list_emb_append_mono subseq_order.refl) simp
    have "inserted ml mi (Suc h) key v t t2 res"
      if "linked ml mi (Suc h) (kv_insert key v (entries t)) (inserted_new cr) t2 res"
      using that unfolding linked_def inserted_def c(3) by blast
    moreover have "refused ml mi (Suc h) key v t t1 (no_split False)"
      using w1 less by (simp add: refused_def no_split_def del: bp_wf.simps)
    moreover have "\<not> granted os1 os2 \<Longrightarrow> \<not> granted os os2"
      using rec(2) granted_right by blast
    ultimately show ?thesis using run rt linking by blast
  qed
qed

end
