(* ===== verification/BpIndex.thy ===== *)
theory BpIndex
  imports BpInsert
begin

section \<open>The index: the B+ tree as a finite map\<close>

text \<open>
  The tree-level operations \<open>bptree_init\<close>, \<open>bptree_insert\<close>, \<open>bptree_search\<close> and the interface
  the DB engine relies on: the locale \<open>ordered_index\<close> states insertion and search through the
  sorted contents and an invariant, the locale derives the map laws, and the interpretation
  \<open>bp\<close> discharges its assumptions for the tree of \<open>bptree.c\<close>.
\<close>

subsection \<open>The invariant of a tree\<close>

definition bptree_inv :: "BPlusTree \<Rightarrow> bool" where
  "bptree_inv tree \<longleftrightarrow> is_Null (root tree) \<or> bp_wf 0 1 (height (root tree)) (root tree)"

abbreviation tree_entries :: "BPlusTree \<Rightarrow> (int \<times> nat) list" where
  "tree_entries tree \<equiv> entries (root tree)"

lemma bptree_inv_wf: "bp_wf 0 1 h (root tree) \<Longrightarrow> bptree_inv tree"
  using bp_wf_height [of 0 1 h "root tree"] by (simp add: bptree_inv_def)

lemma bptree_inv_sorted: "bptree_inv tree \<Longrightarrow> kv_sorted (tree_entries tree)"
  by (cases "root tree") (auto simp: bptree_inv_def dest: bp_wf_sorted)

subsection \<open>Search\<close>

lemma search_leaf_wf:
  "bp_wf ml mi h t \<Longrightarrow> \<exists>l. search_leaf t key = l \<and> bp_wf 0 0 0 l \<and>
     map_of (entries l) key = map_of (entries t) key"
proof (induction h arbitrary: ml mi t)
  case 0
  then show ?case by (cases t) (auto simp: arrays_ok_def)
next
  case (Suc h)
  obtain a n ks cs vs nx where t: "t = BpNode a False n ks cs vs nx"
    using Suc.prems by (cases t) (auto simp: arrays_ok_def)
  define K C i where KC: "K = take n ks" "C = take (Suc n) cs" "i = route K key"
  have arr: "arrays_ok t" "length cs = 32" "n \<le> 31" and ok: "inner_ok (bp_wf 16 15 h) K C"
    using Suc.prems by (auto simp: t KC arrays_ok_def)
  have i: "i < length C" "child_index_for_key t key = i" "child_at cs i = C ! i"
    using inner_ok_index [OF ok, of key] child_index_eq [OF arr(1)] arr
    by (auto simp: KC t child_at_def)
  have "bp_wf 16 15 h (C ! i)" using ok i(1) by (simp add: inner_ok_def)
  then obtain l where l: "search_leaf (C ! i) key = l" "bp_wf 0 0 0 l"
      "map_of (entries l) key = map_of (entries (C ! i)) key"
    using Suc.IH by blast
  have notin: "key \<notin> fst ` set (concat (map entries (take i C)))"
      "key \<notin> fst ` set (concat (map entries (drop (Suc i) C)))"
    using keyset_before [OF ok, of _ key] keyset_after [OF ok, of _ key] unfolding KC(3) by force+
  have "map_of (entries t) key = map_of (entries (C ! i)) key"
    using map_of_middle [OF notin] entries_cut [OF i(1)] by (simp add: t KC(2))
  moreover have "search_leaf t key = search_leaf (C ! i) key"
    using i(2,3) by (simp add: t)
  ultimately show ?case using l by simp
qed

lemma leaf_lookup:
  assumes "bp_wf ml mi 0 t"
  shows "(let pos = leaf_find_position t key
          in if pos < num_keys t \<and> keys t ! pos = key then Some (vals t ! pos) else None) =
         map_of (entries t) key"
proof -
  obtain a n ks cs vs nx where t: "t = BpNode a True n ks cs vs nx"
    using assms by (cases t) (auto simp: arrays_ok_def)
  have arr: "length ks = 31" "length vs = 31" "n \<le> 31" "arrays_ok t" and s: "sorted_wrt (<) (take n ks)"
    using assms by (auto simp: t arrays_ok_def)
  define pos where "pos = length (takeWhile (\<lambda>k. k < key) (take n ks))"
  have es: "entries t = zip (take n ks) (take n vs)" and d: "distinct (map fst (entries t))"
    using kv_sorted_distinct [OF bp_wf_sorted [OF assms]] by (simp_all add: t)
  have found: "map_of (entries t) key = Some (vs ! pos)" if "pos < n" "ks ! pos = key"
  proof -
    have "(key, vs ! pos) \<in> set (entries t)"
      using that arr by (auto simp: es in_set_zip intro!: exI [of _ pos])
    then show ?thesis using d by (simp add: map_of_is_SomeI)
  qed
  have absent: "map_of (entries t) key = None" if no: "\<not> (pos < n \<and> ks ! pos = key)"
  proof -
    have "key \<notin> set (take n ks)"
      by (rule position_absent [OF s pos_def]) (use no arr in auto)
    then show ?thesis using arr by (auto simp: es map_of_eq_None_iff dest: set_zip_leftD)
  qed
  show ?thesis
    using found absent leaf_find_position_eq [OF arr(4), of key]
    by (simp add: t pos_def [symmetric] Let_def)
qed

lemma bptree_search_correct: "bptree_inv tree \<Longrightarrow> bptree_search tree key = map_of (tree_entries tree) key"
proof (cases "root tree")
  case Null
  then show ?thesis by (simp add: bptree_search_def)
next
  case (BpNode a lf n ks cs vs nx)
  assume inv: "bptree_inv tree"
  then have "bp_wf 0 1 (height (root tree)) (root tree)" using BpNode by (simp add: bptree_inv_def)
  then obtain l where l: "search_leaf (root tree) key = l" "bp_wf 0 0 0 l"
      "map_of (entries l) key = map_of (tree_entries tree) key"
    using search_leaf_wf by blast
  then show ?thesis using leaf_lookup [OF l(2), of key]
    by (cases l) (auto simp: bptree_search_def arrays_ok_def Let_def)
qed

subsection \<open>Insertion\<close>

lemma entries_new_node: "entries (BpNode a True 0 ks cs vs nx) = []"
  by simp

lemma insert_from_root_correct:
  assumes wf: "bp_wf 0 1 h (root tree)"
  shows "\<exists>os' tree' ok. insert_from_root os tree key v = Some (os', tree', ok) \<and> runs_to os os' \<and> bptree_inv tree' \<and>
    subseq (tree_entries tree') (kv_insert key v (tree_entries tree)) \<and>
    (granted os os' \<longrightarrow> ok \<and> tree_entries tree' = kv_insert key v (tree_entries tree) \<and>
      tree_size tree' =
        (if key \<in> fst ` set (tree_entries tree) then tree_size tree else Suc (tree_size tree)))"
proof -
  obtain os1 root1 r where ni: "node_insert os (root tree) key v = Some (os1, root1, r)"
    and rt1: "runs_to os os1"
    and out: "inserted 0 1 h key v (root tree) root1 r \<or>
      refused 0 1 h key v (root tree) root1 r \<and> \<not> granted os os1"
    using node_insert_correct [OF wf, of os key v] by auto
  define tree1 where "tree1 = \<lparr>root = root1,
      tree_size = (if inserted_new r then Suc (tree_size tree) else tree_size tree)\<rparr>"
  show ?thesis
  proof (cases "split r")
    case False
    then have "insert_from_root os tree key v = Some (os1, tree1, True)"
      using ni by (simp add: insert_from_root_def tree1_def Let_def)
    moreover have "bp_wf 0 1 h root1" "subseq (entries root1) (kv_insert key v (tree_entries tree))"
      using out False by (auto simp: inserted_def refused_def)
    moreover have "granted os os1 \<Longrightarrow> inserted 0 1 h key v (root tree) root1 r"
      using out by blast
    ultimately show ?thesis using rt1 False bptree_inv_wf [of h tree1]
      by (auto simp: tree1_def inserted_def)
  next
    case True
    then have ins: "inserted_new r = (key \<notin> keyset (root tree))" "bp_wf 16 15 h root1" "bp_wf 16 15 h (right r)"
      "entries root1 @ entries (right r) = kv_insert key v (tree_entries tree)"
      "\<forall>k\<in>keyset root1. k < promoted_key r" "\<forall>k\<in>keyset (right r). promoted_key r \<le> k"
      using out by (auto simp: inserted_def refused_def)
    have less: "subseq (entries root1) (kv_insert key v (tree_entries tree))"
    proof -
      have "subseq (entries root1 @ []) (entries root1 @ entries (right r))"
        by (intro list_emb_append_mono subseq_order.refl list_emb_Nil)
      then show ?thesis using ins(4) by simp
    qed
    obtain nr os2 where nc: "node_create False os1 = (nr, os2)" by fastforce
    have rt2: "runs_to os os2" using node_create_cases [OF nc] rt1 runs_to_trans by blast
    show ?thesis
    proof (cases nr)
      case Null
      then have "insert_from_root os tree key v = Some (os2, tree1, False)"
        using ni nc True by (simp add: insert_from_root_def tree1_def Let_def)
      moreover have "\<not> granted os os2"
        using node_create_cases [OF nc] Null rt1 granted_right by blast
      moreover have "bptree_inv tree1"
        using bptree_inv_wf [of h tree1] bp_wf_mono [OF ins(2)] by (simp add: tree1_def)
      ultimately show ?thesis using rt2 less by (auto simp: tree1_def)
    next
      case (BpNode na nlf nn nks ncs nvs nnx)
      then have new: "nlf = False" "nks = replicate 31 0" "ncs = replicate 32 Null" "nvs = replicate 31 0"
        using node_create_cases [OF nc] by auto
      define R where "R = BpNode na False 1 ((replicate 31 0)[0 := promoted_key r])
          ((replicate 32 Null)[0 := root1, 1 := right r]) (replicate 31 0) nnx"
      have res: "insert_from_root os tree key v = Some (os2, tree1\<lparr>root := R\<rparr>, True)"
        using ni nc True by (simp add: insert_from_root_def tree1_def Let_def BpNode new R_def)
      have upd: "(replicate 32 Null)[0 := root1, 1 := right r] = root1 # right r # replicate 30 Null"
        "(replicate 31 (0 :: int))[0 := promoted_key r] = promoted_key r # replicate 30 0"
        by (simp_all add: numeral_eq_Suc)
      have live: "live_keys R = [promoted_key r]" "live_children R = [root1, right r]"
        unfolding R_def upd by (simp_all add: numeral_eq_Suc)
      have "\<forall>k\<in>keyset root1. route [promoted_key r] k = 0" "\<forall>k\<in>keyset (right r). route [promoted_key r] k = 1"
        using ins(5,6) by auto
      then have "inner_ok (bp_wf 16 15 h) (live_keys R) (live_children R)"
        unfolding live inner_ok_def using ins(2,3) by (auto simp: less_Suc_eq nth_Cons')
      moreover have "\<forall>c\<in>set (drop (Suc (num_keys R)) (children R)). is_Null c"
        unfolding R_def upd by simp
      moreover have "arrays_ok R" "\<not> is_leaf R" "num_keys R = 1" by (simp_all add: R_def arrays_ok_def)
      ultimately have "bp_wf 0 1 (Suc h) R" by simp
      moreover have "entries R = kv_insert key v (tree_entries tree)"
        using live \<open>\<not> is_leaf R\<close> ins(4) by (subst entries_inner) (auto simp: R_def)
      ultimately show ?thesis using res rt2 ins(1) bptree_inv_wf [of "Suc h" "tree1\<lparr>root := R\<rparr>"]
        by (auto simp: tree1_def)
    qed
  qed
qed

lemma bptree_insert_correct:
  assumes inv: "bptree_inv tree"
  shows "\<exists>os' tree' ok. bptree_insert os tree key v = Some (os', tree', ok) \<and> runs_to os os' \<and>
    bptree_inv tree' \<and> subseq (tree_entries tree') (kv_insert key v (tree_entries tree)) \<and>
    (granted os os' \<longrightarrow> ok \<and> tree_entries tree' = kv_insert key v (tree_entries tree) \<and>
      tree_size tree' =
        (if key \<in> fst ` set (tree_entries tree) then tree_size tree else Suc (tree_size tree)))"
proof (cases "root tree")
  case Null
  obtain r os0 where nc: "node_create True os = (r, os0)" by fastforce
  show ?thesis
  proof (cases r)
    case r: Null
    then have "bptree_insert os tree key v = Some (os0, tree\<lparr>root := Null\<rparr>, False)"
      using Null nc by (simp add: bptree_insert_def)
    then show ?thesis using node_create_cases [OF nc] r Null by (auto simp: bptree_inv_def)
  next
    case (BpNode na nlf nn nks ncs nvs nnx)
    then have new: "runs_to os os0" "bp_wf 0 1 0 r" "entries r = []"
      using node_create_cases [OF nc] by (auto simp: arrays_ok_def)
    have "bptree_insert os tree key v = insert_from_root os0 (tree\<lparr>root := r\<rparr>) key v"
      using Null nc BpNode by (simp add: bptree_insert_def)
    moreover obtain os' tree' ok where
      "insert_from_root os0 (tree\<lparr>root := r\<rparr>) key v = Some (os', tree', ok)" "runs_to os0 os'"
      "bptree_inv tree'" "subseq (tree_entries tree') (kv_insert key v [])"
      "granted os0 os' \<longrightarrow> ok \<and> tree_entries tree' = kv_insert key v [] \<and> tree_size tree' = Suc (tree_size tree)"
      using insert_from_root_correct [of 0 "tree\<lparr>root := r\<rparr>" os0 key v] new by auto
    moreover have "runs_to os os'" "granted os os' \<Longrightarrow> granted os0 os'"
      using new(1) calculation(3) granted_right [of os os' os0] runs_to_trans [of os os0 os'] by blast+
    ultimately show ?thesis using Null by auto
  qed
next
  case (BpNode a lf n ks cs vs nx)
  then have "bp_wf 0 1 (height (root tree)) (root tree)" using inv by (simp add: bptree_inv_def)
  then show ?thesis
    using insert_from_root_correct [of "height (root tree)" tree os key v] BpNode
    by (simp add: bptree_insert_def)
qed

subsection \<open>Height\<close>

lemma entries_at_least:
  assumes "m \<le> length C" "\<forall>c\<in>set C. N \<le> length (entries c)"
  shows "m * N \<le> length (concat (map entries C))"
proof -
  have "m * N \<le> length C * N" using assms(1) by (rule mult_le_mono1)
  also have "\<dots> = (\<Sum>c\<leftarrow>C. N)" by (simp add: sum_list_triv)
  also have "\<dots> \<le> (\<Sum>c\<leftarrow>C. length (entries c))"
    by (rule sum_list_mono) (use assms(2) in blast)
  finally show ?thesis by (simp add: length_concat comp_def)
qed

lemma bp_wf_size: "bp_wf 16 15 h t \<Longrightarrow> 16 ^ Suc h \<le> length (entries t)"
proof (induction h arbitrary: t)
  case 0
  then show ?case by (simp add: entries_leaf arrays_ok_def)
next
  case (Suc h)
  define C where "C = live_children t"
  have C: "16 \<le> length C" "\<forall>c\<in>set C. bp_wf 16 15 h c" "entries t = concat (map entries C)"
    using Suc.prems by (auto simp: C_def arrays_ok_def inner_ok_def entries_inner)
  have "16 * 16 ^ Suc h \<le> length (entries t)"
    unfolding C(3) by (rule entries_at_least [OF C(1)]) (use C(2) Suc.IH in blast)
  then show ?case by simp
qed

lemma tree_height_bound:
  assumes "bptree_inv tree" "height (root tree) = Suc h"
  shows "2 * 16 ^ Suc h \<le> length (tree_entries tree)"
proof -
  define t where "t = root tree"
  have wf: "bp_wf 0 1 (Suc h) t" using assms by (cases "root tree") (auto simp: bptree_inv_def t_def)
  define C where "C = live_children t"
  have C: "2 \<le> length C" "\<forall>c\<in>set C. bp_wf 16 15 h c" "entries t = concat (map entries C)"
    using wf by (auto simp: C_def arrays_ok_def inner_ok_def entries_inner)
  have "2 * 16 ^ Suc h \<le> length (entries t)"
    unfolding C(3) by (rule entries_at_least [OF C(1)]) (use C(2) bp_wf_size in blast)
  then show ?thesis by (simp add: t_def)
qed

subsection \<open>The interface of an index\<close>

text \<open>A run of insertions, as a client makes it: the first one that reports failure stops it.\<close>

fun insert_all ::
    "('s \<Rightarrow> 't \<Rightarrow> int \<Rightarrow> nat \<Rightarrow> ('s \<times> 't \<times> bool) option) \<Rightarrow> 's \<Rightarrow> 't \<Rightarrow> (int \<times> nat) list \<Rightarrow> ('s \<times> 't) option" where
  "insert_all ins s t [] = Some (s, t)"
| "insert_all ins s t ((k, v) # kvs) =
     (case ins s t k v of
        None \<Rightarrow> None
      | Some (s', t', ok) \<Rightarrow> if ok then insert_all ins s' t' kvs else None)"

locale ordered_index =
  fixes empty :: "'t"
    and insert_op :: "'s \<Rightarrow> 't \<Rightarrow> int \<Rightarrow> nat \<Rightarrow> ('s \<times> 't \<times> bool) option"
    and search_op :: "'t \<Rightarrow> int \<Rightarrow> nat option"
    and contents :: "'t \<Rightarrow> (int \<times> nat) list"
    and inv :: "'t \<Rightarrow> bool"
    and count :: "'t \<Rightarrow> nat"
    and later :: "'s \<Rightarrow> 's \<Rightarrow> bool"
    and quiet :: "'s \<Rightarrow> 's \<Rightarrow> bool"
  assumes empty_inv: "inv empty" and empty_contents: "contents empty = []" and empty_count: "count empty = 0"
    and later_refl: "later s s" and later_trans: "later a b \<Longrightarrow> later b c \<Longrightarrow> later a c"
    and quiet_right: "quiet a c \<Longrightarrow> later a b \<Longrightarrow> quiet b c"
    and inv_sorted: "inv t \<Longrightarrow> kv_sorted (contents t)"
    and search_contents: "inv t \<Longrightarrow> search_op t k = map_of (contents t) k"
    and insert_returns: "inv t \<Longrightarrow> \<exists>s' t' ok. insert_op s t k v = Some (s', t', ok) \<and> later s s' \<and> inv t'"
    and insert_contents: "inv t \<Longrightarrow> insert_op s t k v = Some (s', t', ok) \<Longrightarrow> quiet s s' \<Longrightarrow>
      ok \<and> contents t' = kv_insert k v (contents t) \<and>
      count t' = (if k \<in> fst ` set (contents t) then count t else Suc (count t))"
    and insert_subseq: "inv t \<Longrightarrow> insert_op s t k v = Some (s', t', ok) \<Longrightarrow>
      subseq (contents t') (kv_insert k v (contents t))"
begin

lemma search_empty: "search_op empty k = None"
  by (simp add: search_contents empty_inv empty_contents)

lemma insert_inv: "inv t \<Longrightarrow> insert_op s t k v = Some (s', t', ok) \<Longrightarrow> inv t'"
  using insert_returns [of t s k v] by auto

lemma insert_later: "inv t \<Longrightarrow> insert_op s t k v = Some (s', t', ok) \<Longrightarrow> later s s'"
  using insert_returns [of t s k v] by auto

lemma search_insert:
  assumes "inv t" "insert_op s t k v = Some (s', t', ok)" "quiet s s'"
  shows "search_op t' = (search_op t)(k \<mapsto> v)"
proof -
  have "search_op t' = map_of (kv_insert k v (contents t))"
    using search_contents [OF insert_inv [OF assms(1,2)]] insert_contents [OF assms] by auto
  also have "\<dots> = (map_of (contents t))(k \<mapsto> v)" by (rule map_of_kv_insert) (rule inv_sorted [OF assms(1)])
  also have "map_of (contents t) = search_op t" using search_contents [OF assms(1)] by auto
  finally show ?thesis .
qed

text \<open>The number the structure reports is the number of its keys, and stays so.\<close>

lemma insert_count:
  assumes "inv t" "insert_op s t k v = Some (s', t', ok)" "quiet s s'" "count t = length (contents t)"
  shows "count t' = length (contents t')"
  using insert_contents [OF assms(1-3)] assms(4) inv_sorted [OF assms(1)]
  by (auto simp: length_kv_insert)

text \<open>A run in which no call fails, from any state: it succeeds and the last binding of a key wins.\<close>

lemma insert_all_correct:
  assumes "inv t" "count t = length (contents t)" "\<And>s'. later s s' \<Longrightarrow> quiet s s'"
  shows "\<exists>s' t'. insert_all insert_op s t kvs = Some (s', t') \<and> later s s' \<and> inv t' \<and>
    search_op t' = search_op t ++ map_of (rev kvs) \<and> count t' = length (contents t')"
  using assms
proof (induction kvs arbitrary: s t)
  case Nil
  then show ?case by (simp add: later_refl)
next
  case (Cons kv kvs)
  obtain k v where kv: "kv = (k, v)" by fastforce
  obtain s1 t1 ok where ins: "insert_op s t k v = Some (s1, t1, ok)" "later s s1" "inv t1"
    using insert_returns [OF Cons.prems(1)] by blast
  note q = Cons.prems(3) [OF ins(2)]
  have step: "ok" "search_op t1 = (search_op t)(k \<mapsto> v)" "count t1 = length (contents t1)"
    using insert_contents [OF Cons.prems(1) ins(1) q] search_insert [OF Cons.prems(1) ins(1) q]
      insert_count [OF Cons.prems(1) ins(1) q Cons.prems(2)] by auto
  have "quiet s1 s'" if "later s1 s'" for s'
    using quiet_right [OF Cons.prems(3) [OF later_trans [OF ins(2) that]] ins(2)] .
  note IH = Cons.IH [OF ins(3) step(3) this, unfolded step(2)]
  from IH obtain s' t' where r: "insert_all insert_op s1 t1 kvs = Some (s', t')" "later s1 s'" "inv t'"
      "search_op t' = (search_op t)(k \<mapsto> v) ++ map_of (rev kvs)" "count t' = length (contents t')"
    by blast
  moreover have "search_op t ++ map_of (rev (kv # kvs)) = (search_op t)(k \<mapsto> v) ++ map_of (rev kvs)"
    by (simp add: kv)
  ultimately show ?case using ins(1) step(1) later_trans [OF ins(2) r(2)] by (simp add: kv)
qed

lemma count_keys: "inv t \<Longrightarrow> count t = length (contents t) \<Longrightarrow> count t = card (dom (search_op t))"
  using distinct_card [OF kv_sorted_distinct [OF inv_sorted, of t]] search_contents [of t]
  by (simp add: dom_def map_of_eq_None_iff)

text \<open>Whatever calls fail, an insertion never makes a search return a wrong value.\<close>

lemma search_insert_sound:
  assumes "inv t" "insert_op s t k v = Some (s', t', ok)"
  shows "search_op t' \<subseteq>\<^sub>m (search_op t)(k \<mapsto> v)"
  unfolding map_le_def
proof
  fix j assume "j \<in> dom (search_op t')"
  then obtain w where w: "search_op t' j = Some w" by auto
  have s': "kv_sorted (kv_insert k v (contents t))" by (rule kv_sorted_insert) (rule inv_sorted [OF assms(1)])
  have "(j, w) \<in> set (contents t')"
    using w search_contents [OF insert_inv [OF assms]] by (auto dest: map_of_SomeD)
  then have "(j, w) \<in> set (kv_insert k v (contents t))"
    using insert_subseq [OF assms] by (auto dest: list_emb_set)
  then have "map_of (kv_insert k v (contents t)) j = Some w"
    using kv_sorted_distinct [OF s'] by simp
  moreover have "(search_op t)(k \<mapsto> v) = map_of (kv_insert k v (contents t))"
    using search_contents [OF assms(1)] map_of_kv_insert [OF inv_sorted [OF assms(1)]] by (auto simp: fun_eq_iff)
  ultimately show "search_op t' j = ((search_op t)(k \<mapsto> v)) j" using w by simp
qed

end

interpretation bp: ordered_index bptree_init bptree_insert bptree_search
  "\<lambda>tree. tree_entries tree" bptree_inv tree_size runs_to granted
proof unfold_locales
  fix s s' t t' k v ok
  assume "bptree_inv t" "bptree_insert s t k v = Some (s', t', ok)"
  then show "subseq (tree_entries t') (kv_insert k v (tree_entries t))"
    using bptree_insert_correct [of t s k v] by auto
next
  fix s s' t t' k v ok
  assume "bptree_inv t" "bptree_insert s t k v = Some (s', t', ok)" "granted s s'"
  then show "ok \<and> tree_entries t' = kv_insert k v (tree_entries t) \<and>
      tree_size t' = (if k \<in> fst ` set (tree_entries t) then tree_size t else Suc (tree_size t))"
    using bptree_insert_correct [of t s k v] by auto
next
  fix t s k v assume "bptree_inv t"
  then show "\<exists>s' t' ok. bptree_insert s t k v = Some (s', t', ok) \<and> runs_to s s' \<and> bptree_inv t'"
    using bptree_insert_correct [of t s k v] by auto
qed (auto simp: bptree_init_def bptree_inv_def bptree_inv_sorted bptree_search_correct
      intro: runs_to_trans granted_right)

end
