(* ===== verification/DbCorrect.thy ===== *)
theory DbCorrect
  imports DbJson BpIndex
begin

section \<open>The DB engine: invariant and insertion\<close>

text \<open>
  \<open>rows_of db\<close> is the table, in insertion order; \<open>index_of\<close> the index it ought to have (the last
  row of an id). \<open>db_inv\<close> holds after every operation whatever calls fail; \<open>db_indexed\<close>, that the
  index is complete, as long as none fails. \<open>DB_ROWS_MAX\<close> bounds the number of rows the lemmas
  speak about (2 to the 40, far above what the memory holds), so that no \<open>size_t\<close> wraps.
\<close>

definition DB_ROWS_MAX :: nat where
  "DB_ROWS_MAX = 1099511627776"

definition rows_of :: "DbEngine \<Rightarrow> Record list" where
  "rows_of db = map the (take (db_count db) (records db))"

definition index_of :: "Record list \<Rightarrow> int \<Rightarrow> nat option" where
  "index_of rs = map_of (rev (zip (map rec_id rs) [0..<length rs]))"

definition store_ok :: "DbEngine \<Rightarrow> bool" where
  "store_ok db \<longleftrightarrow> length (records db) = capacity db \<and> db_count db \<le> capacity db \<and>
     None \<notin> set (take (db_count db) (records db)) \<and> capacity db \<le> max 64 (2 * db_count db)"

text \<open>The next id after the rows of a table: above all of them, but never above \<open>INT_MAX\<close>.\<close>

definition next_step :: "Record \<Rightarrow> int \<Rightarrow> int" where
  "next_step r n = (if rec_id r \<ge> n \<and> rec_id r < INT_MAX then rec_id r + 1 else n)"

definition next_of :: "Record list \<Rightarrow> int" where
  "next_of rs = fold next_step rs 1"

definition db_inv :: "DbEngine \<Rightarrow> bool" where
  "db_inv db \<longleftrightarrow> store_ok db \<and> (\<forall>r\<in>set (rows_of db). row_ok r) \<and> bptree_inv (index db) \<and>
     bptree_search (index db) \<subseteq>\<^sub>m index_of (rows_of db) \<and> next_id db = next_of (rows_of db)"

definition db_indexed :: "DbEngine \<Rightarrow> bool" where
  "db_indexed db \<longleftrightarrow> bptree_search (index db) = index_of (rows_of db)"

subsection \<open>What the world keeps\<close>

definition keeps_files :: "'w world_scheme \<Rightarrow> 'w world_scheme \<Rightarrow> bool" where
  "keeps_files w w' \<longleftrightarrow> goes_to w w' \<and> files w' = files w"

lemma keeps_files_refl [simp]: "keeps_files w w"
  by (simp add: keeps_files_def)

lemma keeps_files_trans [trans]: "keeps_files a b \<Longrightarrow> keeps_files b c \<Longrightarrow> keeps_files a c"
  by (auto simp: keeps_files_def intro: goes_to_trans)

lemma keeps_files_runs_to: "runs_to w w' \<Longrightarrow> keeps_files w w'"
proof -
  assume r: "runs_to w w'"
  then have "w' = w\<lparr>calls := calls w'\<rparr>" by (simp add: runs_to_def)
  then have "files w' = files (w\<lparr>calls := calls w'\<rparr>)" by (rule arg_cong)
  then show ?thesis using runs_to_goes_to [OF r] by (simp add: keeps_files_def)
qed

lemma keeps_files_sys_call: "sys_call w = (ok, w') \<Longrightarrow> keeps_files w w'"
  by (rule keeps_files_runs_to) (rule runs_to_sys_call)

lemma keeps_files_now: "now_us w = (t, w') \<Longrightarrow> keeps_files w w' \<and> granted w w'"
  by (auto simp: now_us_def keeps_files_def goes_to_def granted_def split: prod.splits)

lemma keeps_files_goes_to: "keeps_files w w' \<Longrightarrow> goes_to w w'"
  by (simp add: keeps_files_def)

lemma keeps_files_text: "keeps_files w w' \<Longrightarrow> file_text w' p = file_text w p"
  by (simp add: keeps_files_def file_text_def)

lemma granted_now: "now_us w1 = (t, w2) \<Longrightarrow> granted w w2 \<longleftrightarrow> granted w w1"
  by (auto simp: now_us_def granted_def split: prod.splits)

text \<open>A call that was refused on the way refutes \<open>granted\<close> for the whole run.\<close>

lemma refused_later: "\<not> granted a b \<Longrightarrow> goes_to b c \<Longrightarrow> \<not> granted a c"
  using granted_before by blast

lemma unlock_error_result:
  "\<exists>w1 r. unlock_error m t w db = Some (w1, db\<lparr>db_lock := Unlocked\<rparr>, r) \<and> keeps_files w w1 \<and> \<not> res_ok r"
proof -
  obtain r w1 where e: "make_error_result m t w = (r, w1)" by fastforce
  then have "keeps_files w w1 \<and> \<not> res_ok r"
    using keeps_files_now by (auto simp: make_error_result_def split: prod.splits)
  then show ?thesis using e by (simp add: unlock_error_def)
qed

subsection \<open>The array of records\<close>

lemma index_of_Nil [simp]: "index_of [] = Map.empty"
  by (simp add: index_of_def)

lemma index_of_snoc [simp]: "index_of (rs @ [r]) = (index_of rs)(rec_id r \<mapsto> length rs)"
  by (simp add: index_of_def)

lemma next_of_snoc [simp]: "next_of (rs @ [r]) = next_step r (next_of rs)"
  by (simp add: next_of_def)

lemma next_of_Nil [simp]: "next_of [] = 1"
  by (simp add: next_of_def)

lemma next_of_bounds: "1 \<le> next_of rs \<and> next_of rs \<le> INT_MAX"
  by (induction rs rule: rev_induct) (auto simp: next_step_def INT_MAX_def)

lemma next_of_above: "\<forall>r\<in>set rs. rec_id r \<le> INT_MAX \<Longrightarrow> r \<in> set rs \<Longrightarrow> rec_id r < next_of rs \<or> rec_id r = INT_MAX"
  by (induction rs rule: rev_induct) (auto simp: next_step_def)

lemma index_of_Some: "index_of rs k = Some i \<Longrightarrow> i < length rs \<and> rec_id (rs ! i) = k"
  by (induction rs rule: rev_induct) (auto simp: nth_append split: if_splits)

lemma index_of_None: "index_of rs k = None \<longleftrightarrow> k \<notin> rec_id ` set rs"
  by (induction rs rule: rev_induct) auto

lemma length_rows_of [simp]: "store_ok db \<Longrightarrow> length (rows_of db) = db_count db"
  by (simp add: store_ok_def rows_of_def)

lemma read_row: "store_ok db \<Longrightarrow> i < db_count db \<Longrightarrow> read_at i (records db) = Some (rows_of db ! i)"
proof -
  assume s: "store_ok db" and i: "i < db_count db"
  then have "i < length (records db)" "records db ! i \<in> set (take (db_count db) (records db))"
    by (auto simp: store_ok_def in_set_conv_nth)
  moreover from this s obtain r where "records db ! i = Some r"
    by (cases "records db ! i") (auto simp: store_ok_def)
  ultimately show ?thesis using i by (simp add: read_at_def rows_of_def)
qed

lemma grow_capacity_doubles:
  assumes "0 < c" "n \<le> 2 * c" "2 * c \<le> SIZE_MAX"
  shows "grow_capacity c n = Some (if c < n then 2 * c else c)"
proof (cases "c < n")
  case True
  have "size_mul c 2 = 2 * c" using assms(3) by (simp add: size_mul_exact mult.commute)
  moreover have "grow_capacity (2 * c) n = Some (2 * c)"
    using assms(2) by (subst grow_capacity.simps) simp
  ultimately show ?thesis using True by (subst grow_capacity.simps) simp
next
  case False
  then show ?thesis by (subst grow_capacity.simps) simp
qed

lemma take_resized: "store_ok db \<Longrightarrow> db_count db \<le> c \<Longrightarrow>
    take (db_count db) (resize_block c (records db)) = take (db_count db) (records db)"
  by (simp add: store_ok_def take_resize_block)

text \<open>The growth keeps the rows; what changes is the array and its capacity.\<close>

lemma db_reserve_records_ok:
  assumes s: "store_ok db" and few: "db_count db < DB_ROWS_MAX"
  shows "\<exists>ok w' rs c. db_reserve_records (size_add (db_count db) 1) w db =
      Some (ok, w', db\<lparr>records := rs, capacity := c\<rparr>) \<and> runs_to w w' \<and> (granted w w' \<longrightarrow> ok) \<and>
    store_ok (db\<lparr>records := rs, capacity := c\<rparr>) \<and> rows_of (db\<lparr>records := rs, capacity := c\<rparr>) = rows_of db \<and>
    (ok \<longrightarrow> db_count db < c)"
proof -
  have needed: "size_add (db_count db) 1 = Suc (db_count db)"
    using few by (simp add: size_add_exact DB_ROWS_MAX_def SIZE_MAX_def)
  show ?thesis
  proof (cases "Suc (db_count db) \<le> capacity db")
    case True
    have "db\<lparr>records := records db, capacity := capacity db\<rparr> = db" by simp
    moreover from True have "db_reserve_records (Suc (db_count db)) w db = Some (True, w, db)"
      by (simp add: db_reserve_records_def)
    ultimately show ?thesis unfolding needed using s True
      by (intro exI [of _ True] exI [of _ w] exI [of _ "records db"] exI [of _ "capacity db"]) simp
  next
    case False
    define c0 where "c0 = (if capacity db = 0 then 64 else capacity db)"
    have c0: "0 < c0" "Suc (db_count db) \<le> 2 * c0" "2 * c0 \<le> 2 * DB_ROWS_MAX"
      using False s few by (auto simp: c0_def store_ok_def DB_ROWS_MAX_def)
    define c where "c = (if c0 < Suc (db_count db) then 2 * c0 else c0)"
    have grow: "grow_capacity c0 (Suc (db_count db)) = Some c" unfolding c_def
      by (rule grow_capacity_doubles) (use c0 in \<open>auto simp: DB_ROWS_MAX_def SIZE_MAX_def\<close>)
    have c: "Suc (db_count db) \<le> c" "c \<le> max 64 (2 * db_count db)" "c \<le> 2 * DB_ROWS_MAX"
      using c0 False s by (auto simp: c_def c0_def store_ok_def split: if_splits)
    have bytes: "size_mul SIZEOF_RECORD c div SIZEOF_RECORD = c"
      using c(3) by (simp add: size_mul_exact SIZEOF_RECORD_def DB_ROWS_MAX_def SIZE_MAX_def)
    obtain ok w' where sc: "sys_call w = (ok, w')" by fastforce
    have run: "db_reserve_records (Suc (db_count db)) w db =
        Some (ok, w', if ok then db\<lparr>records := resize_block c (records db), capacity := c\<rparr> else db)"
      using False grow sc bytes by (auto simp: db_reserve_records_def c0_def Let_def)
    have t: "take (db_count db) (resize_block c (records db)) = take (db_count db) (records db)"
      using take_resized [OF s] c(1) by simp
    show ?thesis
    proof (cases ok)
      case True
      then show ?thesis unfolding needed
        using run s c t runs_to_sys_call [OF sc]
        by (intro exI [of _ True] exI [of _ w'] exI [of _ "resize_block c (records db)"] exI [of _ c])
          (simp add: store_ok_def rows_of_def)
    next
      case False
      have "db\<lparr>records := records db, capacity := capacity db\<rparr> = db" by simp
      then show ?thesis unfolding needed using False run s runs_to_sys_call [OF sc] sys_call_granted [OF sc]
        by (intro exI [of _ False] exI [of _ w'] exI [of _ "records db"] exI [of _ "capacity db"]) auto
    qed
  qed
qed

text \<open>Storing a record in the cell behind the last one.\<close>

lemma store_row:
  assumes "store_ok db" "db_count db < capacity db" "db_count db < DB_ROWS_MAX"
  shows "\<exists>recs. write_at (db_count db) [r] (records db) = Some recs \<and>
    store_ok (db\<lparr>records := recs, db_count := size_add (db_count db) 1\<rparr>) \<and>
    rows_of (db\<lparr>records := recs, db_count := size_add (db_count db) 1\<rparr>) = rows_of db @ [r]"
proof -
  have one: "size_add (db_count db) 1 = Suc (db_count db)"
    using assms(3) by (simp add: size_add_exact DB_ROWS_MAX_def SIZE_MAX_def)
  define recs where "recs = take (db_count db) (records db) @ [Some r] @ drop (Suc (db_count db)) (records db)"
  have w: "write_at (db_count db) [r] (records db) = Some recs"
    using assms by (simp add: write_at_def store_ok_def recs_def)
  have t: "take (Suc (db_count db)) recs = take (db_count db) (records db) @ [Some r]"
    using assms by (simp add: recs_def store_ok_def)
  have "length recs = length (records db)" using assms by (simp add: recs_def store_ok_def)
  then show ?thesis unfolding one using w t assms by (auto simp: store_ok_def rows_of_def)
qed

subsection \<open>The result of an insertion\<close>

definition holds_rows :: "DbResult \<Rightarrow> DbColumn list \<Rightarrow> Record list \<Rightarrow> bool" where
  "holds_rows res cols rs \<longleftrightarrow>
     (\<exists>buf. rows_json res = Some buf \<and> c_string buf = Some (rows_text cols rs))"

abbreviation ALL_COLUMNS :: "DbColumn list" where
  "ALL_COLUMNS \<equiv> [DB_COLUMN_ID, DB_COLUMN_NAME, DB_COLUMN_AGE]"

lemma insert_result_ok:
  assumes "row_ok r"
  shows "\<exists>w' res. insert_result r t w db = Some (w', db\<lparr>db_lock := Unlocked\<rparr>, res) \<and> keeps_files w w' \<and>
    (granted w w' \<longrightarrow> res_ok res) \<and> (res_ok res \<longrightarrow> holds_rows res ALL_COLUMNS [r])"
proof -
  obtain created w1 b where init: "json_builder_init w = (created, w1, b)" by (cases "json_builder_init w") auto
  note init_ok = json_builder_init_ok [OF init]
  let ?ops = "[json_builder_append ''['', append_record_json r all_columns_projection, json_builder_append '']'']"
  have ops: "jb_appends (chain ?ops) (rows_text ALL_COLUMNS [r])"
    using jb_appends_chain3 [OF json_builder_append_appends append_record_json_appends [OF assms all_columns_ok(1)]
        json_builder_append_appends, of "''[''" "'']''"] by (simp add: rows_text_def all_columns_ok(2) del: chain.simps)
  have len: "length (rows_text ALL_COLUMNS [r]) < JSON_MAX"
    using length_rows_text [of "[r]" ALL_COLUMNS] assms by (simp add: JSON_MAX_def)
  obtain ok w2 b2 where run: "(if \<not> created then Some (False, w1, b) else chain ?ops (w1, b)) = Some (ok, w2, b2)"
      "runs_to w1 w2" "ok \<Longrightarrow> jb_holds b2 (rows_text ALL_COLUMNS [r])" "granted w w2 \<Longrightarrow> ok"
  proof (cases created)
    case True
    obtain ok w2 b2 where c: "chain ?ops (w1, b) = Some (ok, w2, b2)" "runs_to w1 w2"
        "ok \<Longrightarrow> jb_holds b2 ([] @ rows_text ALL_COLUMNS [r])"
        "granted w1 w2 \<Longrightarrow> length ([] @ rows_text ALL_COLUMNS [r]) < JSON_MAX \<Longrightarrow> ok"
      by (rule jb_resultE [OF jb_appendsD [OF ops init_ok(2) [OF True], of w1]]) blast
    then show thesis using that True len granted_right [OF _ init_ok(1)] by (simp del: chain.simps)
  next
    case False
    then show thesis using that [of False w1 b] init_ok by (auto simp del: chain.simps)
  qed
  have kf: "keeps_files w w2" using init_ok(1) run(2) keeps_files_runs_to keeps_files_trans by blast
  show ?thesis
  proof (cases ok)
    case False
    obtain w3 res where e: "unlock_error ''failed to serialize insert result'' t w2 db =
        Some (w3, db\<lparr>db_lock := Unlocked\<rparr>, res)" "keeps_files w2 w3" "\<not> res_ok res"
      using unlock_error_result by blast
    then have "insert_result r t w db = Some (w3, db\<lparr>db_lock := Unlocked\<rparr>, res)"
      using run(1) False by (simp add: insert_result_def init del: chain.simps)
    moreover have "\<not> granted w w3" using run(4) False refused_later keeps_files_goes_to [OF e(2)] by blast
    ultimately show ?thesis using e kf keeps_files_trans by blast
  next
    case True
    obtain now w3 where n: "now_us w2 = (now, w3)" by fastforce
    obtain buf where buf: "fst (json_builder_take b2) = Some buf" "c_string buf = Some (rows_text ALL_COLUMNS [r])"
      using jb_holds_text [OF run(3) [OF True] rows_text_no_nul] by blast
    show ?thesis using run(1) True n buf keeps_files_now [OF n] kf
      by (auto simp: insert_result_def init holds_rows_def intro: keeps_files_trans simp del: chain.simps)
  qed
qed

subsection \<open>The data file\<close>

lemma fopen_append_ok:
  assumes "fopen_append p w = (ok, w1)"
  shows "goes_to w w1" "granted w w1 \<Longrightarrow> ok" "file_text w1 q = file_text w q" "q \<noteq> p \<Longrightarrow> files w1 q = files w q"
proof -
  obtain w0 where sc: "sys_call w = (ok, w0)" and w1: "w1 = (if ok then w0\<lparr>files := (files w0)(p \<mapsto> file_text w0 p)\<rparr> else w0)"
    using assms by (auto simp: fopen_append_def split: prod.splits)
  have k: "keeps_files w w0" by (rule keeps_files_sys_call [OF sc])
  then show "goes_to w w1" by (simp add: keeps_files_def goes_to_def w1)
  have "granted w w1 \<longleftrightarrow> granted w w0" by (simp add: w1 granted_def)
  then show "granted w w1 \<Longrightarrow> ok" using sys_call_granted [OF sc] by simp
  show "file_text w1 q = file_text w q" "q \<noteq> p \<Longrightarrow> files w1 q = files w q"
    using k by (auto simp: w1 keeps_files_def file_text_def)
qed

lemma fprintf_fclose_ok:
  assumes "fprintf_fclose p txt w = (a, b, w1)"
  shows "goes_to w w1" "granted w w1 \<Longrightarrow> a \<and> b" "q \<noteq> p \<Longrightarrow> files w1 q = files w q"
    "a \<and> b \<Longrightarrow> file_text w1 p = file_text w p @ txt" "\<exists>n. file_text w1 p = file_text w p @ take n txt"
proof -
  obtain w2 w3 where sc: "sys_call w = (a, w2)" "sys_call w2 = (b, w3)"
    and w1: "w1 = w3\<lparr>files := (files w3)(p \<mapsto> file_text w3 p @ (if a \<and> b then txt else take (short_write w (calls w)) txt))\<rparr>"
    using assms unfolding fprintf_fclose_def by (auto split: prod.splits simp: Let_def)
  have k: "keeps_files w w2" "keeps_files w2 w3" by (rule keeps_files_sys_call [OF sc(1)], rule keeps_files_sys_call [OF sc(2)])
  note k3 = keeps_files_trans [OF k]
  show "goes_to w w1" using k3 by (simp add: keeps_files_def goes_to_def w1)
  have "granted w w1 \<longleftrightarrow> granted w w3" by (simp add: w1 granted_def)
  then show "granted w w1 \<Longrightarrow> a \<and> b"
    using sys_call_granted [OF sc(1)] sys_call_granted [OF sc(2)] keeps_files_goes_to [OF k(1)] keeps_files_goes_to [OF k(2)]
      granted_before granted_after by blast
  show "q \<noteq> p \<Longrightarrow> files w1 q = files w q" using k3 by (auto simp: w1 keeps_files_def)
  have t: "file_text w1 p = file_text w p @ (if a \<and> b then txt else take (short_write w (calls w)) txt)"
    using keeps_files_text [OF k3, of p] by (simp add: w1 file_text_def)
  then show "a \<and> b \<Longrightarrow> file_text w1 p = file_text w p @ txt" by simp
  show "\<exists>n. file_text w1 p = file_text w p @ take n txt"
    by (cases "a \<and> b") (use t in \<open>auto intro: exI [of _ "length txt"]\<close>)
qed

subsection \<open>Insertion\<close>

text \<open>
  Everything an insertion of the row \<open>r\<close> can do: the row is stored in the array and in the file,
  or neither (but a failed write may leave part of the line in the file).
\<close>

definition insert_outcome ::
    "Record \<Rightarrow> 'w world_scheme \<Rightarrow> DbEngine \<Rightarrow> 'w world_scheme \<Rightarrow> DbEngine \<Rightarrow> DbResult \<Rightarrow> bool" where
  "insert_outcome r w db w' db' res \<longleftrightarrow>
     goes_to w w' \<and> db_inv db' \<and> data_path db' = data_path db \<and> db_lock db' = Unlocked \<and>
     (\<forall>p. p \<noteq> data_path db \<longrightarrow> files w' p = files w p) \<and>
     (rows_of db' = rows_of db @ [r] \<and>
        file_text w' (data_path db) = file_text w (data_path db) @ record_line r \<and>
        (res_ok res \<longrightarrow> holds_rows res ALL_COLUMNS [r]) \<or>
      rows_of db' = rows_of db \<and> \<not> res_ok res \<and>
        (\<exists>n. file_text w' (data_path db) = file_text w (data_path db) @ take n (record_line r))) \<and>
     (granted w w' \<longrightarrow> res_ok res \<and> (db_indexed db \<longrightarrow> db_indexed db'))"

lemma db_inv_more [simp]: "db_inv (db\<lparr>db_lock := l\<rparr>) = db_inv db"
  by (simp add: db_inv_def store_ok_def rows_of_def)

lemma rows_of_lock [simp]: "rows_of (db\<lparr>db_lock := l\<rparr>) = rows_of db"
  by (simp add: rows_of_def)

lemma db_indexed_lock [simp]: "db_indexed (db\<lparr>db_lock := l\<rparr>) = db_indexed db"
  by (simp add: db_indexed_def)

lemma map_le_upd: "m \<subseteq>\<^sub>m m' \<Longrightarrow> m(k \<mapsto> v) \<subseteq>\<^sub>m m'(k \<mapsto> v)"
  by (auto simp: map_le_def)

text \<open>The engine after the row is stored and indexed: the array part and the index part.\<close>

definition pushed :: "Record \<Rightarrow> Record option list \<Rightarrow> DbEngine \<Rightarrow> DbEngine" where
  "pushed r recs db = db\<lparr>records := recs, db_count := size_add (db_count db) 1,
     next_id := next_step r (next_id db)\<rparr>"

lemma pushed_inv:
  assumes inv: "db_inv db" and r: "row_ok r" and room: "db_count db < capacity db" "db_count db < DB_ROWS_MAX"
  obtains recs where "write_at (db_count db) [r] (records db) = Some recs"
    "rows_of (pushed r recs db) = rows_of db @ [r]"
    "\<And>t. bptree_inv t \<Longrightarrow> bptree_search t \<subseteq>\<^sub>m (bptree_search (index db))(rec_id r \<mapsto> db_count db) \<Longrightarrow>
      db_inv ((pushed r recs db)\<lparr>index := t\<rparr>)"
proof -
  have s: "store_ok db" using inv by (simp add: db_inv_def)
  obtain recs where recs: "write_at (db_count db) [r] (records db) = Some recs"
      "store_ok (db\<lparr>records := recs, db_count := size_add (db_count db) 1\<rparr>)"
      "rows_of (db\<lparr>records := recs, db_count := size_add (db_count db) 1\<rparr>) = rows_of db @ [r]"
    using store_row [OF s room] by blast
  have rows: "rows_of (pushed r recs db) = rows_of db @ [r]" using recs(3) by (simp add: pushed_def rows_of_def)
  have rows': "rows_of ((pushed r recs db)\<lparr>index := t\<rparr>) = rows_of db @ [r]" for t
    using rows by (simp add: rows_of_def)
  have "db_inv ((pushed r recs db)\<lparr>index := t\<rparr>)"
    if t: "bptree_inv t" "bptree_search t \<subseteq>\<^sub>m (bptree_search (index db))(rec_id r \<mapsto> db_count db)" for t
  proof -
    have "(bptree_search (index db))(rec_id r \<mapsto> db_count db) \<subseteq>\<^sub>m index_of (rows_of db @ [r])"
      using inv by (simp add: db_inv_def map_le_upd)
    then have "bptree_search t \<subseteq>\<^sub>m index_of (rows_of db @ [r])" using t(2) map_le_trans by blast
    moreover have "store_ok ((pushed r recs db)\<lparr>index := t\<rparr>)" using recs(2) by (simp add: store_ok_def pushed_def)
    moreover have "next_id (pushed r recs db) = next_of (rows_of db @ [r])"
      using inv by (simp add: pushed_def db_inv_def)
    ultimately show ?thesis using inv r t(1) unfolding db_inv_def rows' by simp
  qed
  with recs(1) rows show thesis using that by blast
qed

text \<open>An early error: nothing was stored.\<close>

lemma refused_outcome:
  assumes "db_inv db'" "rows_of db' = rows_of db" "data_path db' = data_path db" "goes_to w w1" "\<not> granted w w1"
    "\<forall>p. p \<noteq> data_path db \<longrightarrow> files w1 p = files w p"
    "\<exists>n. file_text w1 (data_path db) = file_text w (data_path db) @ take n (record_line r)"
  shows "\<exists>w2 db2 res. unlock_error m t w1 db' = Some (w2, db2, res) \<and> insert_outcome r w db w2 db2 res"
proof -
  obtain w2 res where e: "unlock_error m t w1 db' = Some (w2, db'\<lparr>db_lock := Unlocked\<rparr>, res)" "keeps_files w1 w2" "\<not> res_ok res"
    using unlock_error_result by blast
  have "goes_to w w2" "\<not> granted w w2"
    using assms(4,5) keeps_files_goes_to [OF e(2)] goes_to_trans granted_before by blast+
  moreover have "file_text w2 (data_path db) = file_text w1 (data_path db)" "files w2 = files w1"
    using e(2) keeps_files_text by (auto simp: keeps_files_def)
  ultimately have "insert_outcome r w db w2 (db'\<lparr>db_lock := Unlocked\<rparr>) res"
    using assms e(3) by (simp add: insert_outcome_def)
  then show ?thesis using e(1) by blast
qed

lemma insert_record_ok:
  assumes inv: "db_inv db" and r: "row_ok r" and room: "db_count db < capacity db" "db_count db < DB_ROWS_MAX"
  shows "\<exists>w' db' res. insert_record r t w db = Some (w', db', res) \<and> insert_outcome r w db w' db' res"
proof -
  let ?p = "data_path db"
  obtain opened w1 where fo: "fopen_append ?p w = (opened, w1)" by fastforce
  note open_ok = fopen_append_ok [OF fo]
  have txt1: "\<exists>n. file_text w1 ?p = file_text w ?p @ take n (record_line r)"
    using open_ok(3) by (intro exI [of _ 0]) simp
  show ?thesis
  proof (cases opened)
    case False
    then have "\<not> granted w w1" using open_ok(2) by blast
    from refused_outcome [OF inv refl refl open_ok(1) this _ txt1] show ?thesis
      using open_ok(4) fo False by (auto simp: insert_record_def Let_def)
  next
    case opened: True
    obtain a b w2 where fp: "fprintf_fclose ?p (record_line r) w1 = (a, b, w2)" by (cases "fprintf_fclose ?p (record_line r) w1") auto
    note write_ok = fprintf_fclose_ok [OF fp]
    have to2: "goes_to w w2" using open_ok(1) write_ok(1) goes_to_trans by blast
    have other2: "\<forall>p. p \<noteq> ?p \<longrightarrow> files w2 p = files w p" using open_ok(4) write_ok(3) by auto
    show ?thesis
    proof (cases "a \<and> b")
      case False
      have "\<not> granted w w2" using False write_ok(2) granted_after [OF _ open_ok(1)] by blast
      moreover have "\<exists>n. file_text w2 ?p = file_text w ?p @ take n (record_line r)"
        using write_ok(5) open_ok(3) by simp
      ultimately show ?thesis using refused_outcome [OF inv refl refl to2 _ other2] opened fo fp False
        by (auto simp: insert_record_def Let_def)
    next
      case True
      have txt2: "file_text w2 ?p = file_text w ?p @ record_line r" using write_ok(4) True open_ok(3) by simp
      obtain recs where recs: "write_at (db_count db) [r] (records db) = Some recs"
          "rows_of (pushed r recs db) = rows_of db @ [r]"
          "\<And>t. bptree_inv t \<Longrightarrow> bptree_search t \<subseteq>\<^sub>m (bptree_search (index db))(rec_id r \<mapsto> db_count db) \<Longrightarrow>
            db_inv ((pushed r recs db)\<lparr>index := t\<rparr>)"
        by (rule pushed_inv [OF inv r room]) blast
      have bi: "bptree_inv (index db)" using inv by (simp add: db_inv_def)
      obtain w3 t2 ins where ix: "bptree_insert w2 (index db) (rec_id r) (db_count db) = Some (w3, t2, ins)"
          "runs_to w2 w3" "bptree_inv t2"
        using bp.insert_returns [OF bi] by blast
      define db2 where "db2 = (pushed r recs db)\<lparr>index := t2\<rparr>"
      have db2: "db_inv db2" "rows_of db2 = rows_of db @ [r]" "data_path db2 = ?p"
        using recs(2,3) ix(3) bp.search_insert_sound [OF bi ix(1)] by (auto simp: db2_def pushed_def rows_of_def)
      have k3: "keeps_files w2 w3" using ix(2) by (rule keeps_files_runs_to)
      have quiet: "ins \<and> (db_indexed db \<longrightarrow> db_indexed db2)" if g: "granted w w3"
      proof -
        have "granted w2 w3" using g to2 granted_after by blast
        then have "ins" "bptree_search t2 = (bptree_search (index db))(rec_id r \<mapsto> db_count db)"
          using bp.insert_contents [OF bi ix(1)] bp.search_insert [OF bi ix(1)] by blast+
        moreover have "length (rows_of db) = db_count db" using inv by (simp add: db_inv_def)
        ultimately show ?thesis using db2(2) by (simp add: db_indexed_def db2_def)
      qed
      define tail where "tail = (if \<not> ins then unlock_error ''failed to update B+ tree index'' t w3 db2 else insert_result r t w3 db2)"
      have run: "insert_record r t w db = tail"
        using fo opened fp True recs(1) ix(1)
        by (simp add: insert_record_def Let_def pushed_def next_step_def db2_def tail_def)
      obtain w4 res where res: "tail = Some (w4, db2\<lparr>db_lock := Unlocked\<rparr>, res)" "keeps_files w3 w4"
          "granted w w4 \<Longrightarrow> res_ok res" "res_ok res \<Longrightarrow> holds_rows res ALL_COLUMNS [r]"
      proof (cases ins)
        case False
        then have g: "\<not> granted w w3" using quiet by blast
        obtain w4 res where e: "tail = Some (w4, db2\<lparr>db_lock := Unlocked\<rparr>, res)" "keeps_files w3 w4" "\<not> res_ok res"
          using unlock_error_result [of "''failed to update B+ tree index''" t w3 db2] False unfolding tail_def by auto
        have "\<not> granted w w4" using g granted_before keeps_files_goes_to [OF e(2)] by blast
        then show thesis using that e by blast
      next
        case True
        obtain w4 res where e: "tail = Some (w4, db2\<lparr>db_lock := Unlocked\<rparr>, res)" "keeps_files w3 w4"
            "granted w3 w4 \<Longrightarrow> res_ok res" "res_ok res \<Longrightarrow> holds_rows res ALL_COLUMNS [r]"
          using insert_result_ok [OF r, of t w3 db2] True unfolding tail_def by auto
        have "granted w3 w4" if "granted w w4"
          using that goes_to_trans [OF to2 keeps_files_goes_to [OF k3]] granted_after by blast
        then show thesis using that e by blast
      qed
      have k4: "keeps_files w2 w4" using k3 res(2) keeps_files_trans by blast
      have "goes_to w w4" using to2 keeps_files_goes_to [OF k4] goes_to_trans by blast
      moreover have "file_text w4 ?p = file_text w ?p @ record_line r" "\<forall>p. p \<noteq> ?p \<longrightarrow> files w4 p = files w p"
        using txt2 keeps_files_text [OF k4] k4 other2 by (auto simp: keeps_files_def)
      moreover have "granted w w4 \<Longrightarrow> db_indexed db \<Longrightarrow> db_indexed db2"
        using quiet granted_before [OF _ keeps_files_goes_to [OF res(2)]] by blast
      ultimately have "insert_outcome r w db w4 (db2\<lparr>db_lock := Unlocked\<rparr>) res"
        using db2 res(3,4) by (simp add: insert_outcome_def)
      then show ?thesis using run res(1) by auto
    qed
  qed
qed

text \<open>
  The guards of \<open>db_insert_internal\<close>: the arguments that are refused without touching the store.
\<close>

definition insert_refused :: "bool \<Rightarrow> int \<Rightarrow> string \<Rightarrow> int \<Rightarrow> DbEngine \<Rightarrow> bool" where
  "insert_refused has_id i name age db \<longleftrightarrow>
     (has_id \<and> i \<le> 0) \<or> age < 0 \<or> \<not> name_is_valid name \<or> has_id \<and> bptree_search (index db) i \<noteq> None"

definition new_record :: "bool \<Rightarrow> int \<Rightarrow> string \<Rightarrow> int \<Rightarrow> DbEngine \<Rightarrow> Record" where
  "new_record has_id i name age db = \<lparr>rec_id = (if has_id then i else next_id db), rec_name = name, rec_age = age\<rparr>"

text \<open>Arguments of the C types: an \<open>int\<close> id and age, and a name that fits the buffers of its callers.\<close>

definition insert_args :: "int \<Rightarrow> string \<Rightarrow> int \<Rightarrow> bool" where
  "insert_args i name age \<longleftrightarrow> i \<le> INT_MAX \<and> age \<le> INT_MAX \<and> length name < DB_NAME_MAX \<and> CHR 0x00 \<notin> set name"

lemma db_insert_internal_ok:
  assumes inv: "db_inv db" and few: "db_count db < DB_ROWS_MAX" and args: "insert_args i name age"
    and unlocked: "db_lock db = Unlocked"
  shows "\<exists>w' db' res. db_insert_internal has_id i name age w db = Some (w', db', res) \<and>
    (if insert_refused has_id i name age db
     then keeps_files w w' \<and> db' = db \<and> \<not> res_ok res
     else insert_outcome (new_record has_id i name age db) w db w' db' res)"
proof -
  let ?r = "new_record has_id i name age db"
  obtain t w1 where now: "now_us w = (t, w1)" by fastforce
  obtain locked w2 where lock: "sys_call w1 = (locked, w2)" by fastforce
  have k2: "keeps_files w w2" using keeps_files_now [OF now] keeps_files_sys_call [OF lock] keeps_files_trans by blast
  have same: "db\<lparr>db_lock := Unlocked\<rparr> = db" using unlocked by (cases db) simp
  have txt2: "\<exists>n. file_text w2 (data_path db) = file_text w (data_path db) @ take n (record_line ?r)"
    using keeps_files_text [OF k2] by (intro exI [of _ 0]) simp
  have other2: "\<forall>p. p \<noteq> data_path db \<longrightarrow> files w2 p = files w p" using k2 by (simp add: keeps_files_def)
  show ?thesis
  proof (cases locked)
    case False
    have g: "\<not> granted w w2" using False sys_call_granted [OF lock] keeps_files_now [OF now] granted_after
        keeps_files_goes_to by blast
    obtain r w3 where e: "make_error_result ''failed to acquire write lock'' t w2 = (r, w3)" by fastforce
    have ue: "unlock_error ''failed to acquire write lock'' t w2 db = Some (w3, db, r)" using e same by (simp add: unlock_error_def)
    then have "keeps_files w2 w3 \<and> \<not> res_ok r" using unlock_error_result [of "''failed to acquire write lock''" t w2 db] by auto
    moreover have "insert_outcome ?r w db w3 db r"
      using refused_outcome [OF inv refl refl keeps_files_goes_to [OF k2] g other2 txt2, of "''failed to acquire write lock''" t] ue by auto
    moreover have "db_insert_internal has_id i name age w db = Some (w3, db, r)"
      using now lock False e by (simp add: db_insert_internal_def)
    ultimately show ?thesis using k2 keeps_files_trans by auto
  next
    case True
    define db1 where "db1 = db\<lparr>db_lock := WriteLocked\<rparr>"
    show ?thesis
    proof (cases "insert_refused has_id i name age db")
      case refused: True
      define m where "m = (if (has_id \<and> i \<le> 0) \<or> age < 0 \<or> \<not> name_is_valid name then ''invalid id, name, or age'' else ''duplicate id'')"
      have "db_insert_internal has_id i name age w db = unlock_error m t w2 db1"
        using now lock True refused by (auto simp: db_insert_internal_def insert_refused_def m_def db1_def)
      moreover have "db1\<lparr>db_lock := Unlocked\<rparr> = db" using same by (simp add: db1_def)
      ultimately show ?thesis using unlock_error_result [of m t w2 db1] k2 refused keeps_files_trans by auto
    next
      case fine: False
      have row: "row_ok ?r"
        using fine args inv next_of_bounds [of "rows_of db"]
        by (auto simp: insert_refused_def insert_args_def row_ok_def new_record_def db_inv_def)
      have inv1: "db_inv db1" "db_count db1 = db_count db" using inv by (simp_all add: db1_def)
      then have s1: "store_ok db1" by (simp add: db_inv_def)
      obtain ok w3 rs c where res: "db_reserve_records (size_add (db_count db1) 1) w2 db1 =
          Some (ok, w3, db1\<lparr>records := rs, capacity := c\<rparr>)" "runs_to w2 w3" "granted w2 w3 \<Longrightarrow> ok"
          "store_ok (db1\<lparr>records := rs, capacity := c\<rparr>)" "rows_of (db1\<lparr>records := rs, capacity := c\<rparr>) = rows_of db1"
          "ok \<Longrightarrow> db_count db1 < c"
        using db_reserve_records_ok [OF s1, of w2] few inv1(2) by auto
      define db2 where "db2 = db1\<lparr>records := rs, capacity := c\<rparr>"
      have db2: "db_inv db2" "rows_of db2 = rows_of db" "data_path db2 = data_path db" "db_count db2 = db_count db"
          "db_indexed db2 \<longleftrightarrow> db_indexed db"
        using inv1(1) res(4,5) by (auto simp: db2_def db_inv_def db1_def db_indexed_def)
      have k3: "keeps_files w w3" using k2 keeps_files_runs_to [OF res(2)] keeps_files_trans by blast
      have run: "db_insert_internal has_id i name age w db =
          (if \<not> ok then unlock_error ''out of memory'' t w3 db2 else insert_record ?r t w3 db2)"
      proof -
        have "rec_name ?r = snprintf_str DB_NAME_MAX name" using args by (simp add: new_record_def snprintf_str_def insert_args_def)
        then show ?thesis using now lock True fine res(1)
          by (auto simp: db_insert_internal_def insert_refused_def db1_def db2_def new_record_def)
      qed
      show ?thesis
      proof (cases ok)
        case False
        have "\<not> granted w w3" using False res(3) granted_after [OF _ keeps_files_goes_to [OF k2]] by blast
        from refused_outcome [OF db2(1-3) keeps_files_goes_to [OF k3] this, of ?r "''out of memory''" t]
        show ?thesis using run False fine k3 keeps_files_text [OF k3]
          by (auto simp: keeps_files_def intro: exI [of _ 0])
      next
        case True
        have "db_count db2 < capacity db2" "db_count db2 < DB_ROWS_MAX"
          using True res(6) few inv1(2) by (simp_all add: db2_def)
        then obtain w' db' r where ir: "insert_record ?r t w3 db2 = Some (w', db', r)" "insert_outcome ?r w3 db2 w' db' r"
          using insert_record_ok [OF db2(1) row, of t w3] by blast
        have "goes_to w w'" "granted w w' \<Longrightarrow> granted w3 w'"
          using keeps_files_goes_to [OF k3] ir(2) goes_to_trans granted_after unfolding insert_outcome_def by blast+
        then have "insert_outcome ?r w db w' db' r"
          using ir(2) db2 keeps_files_text [OF k3] k3 by (auto simp: insert_outcome_def keeps_files_def)
        then show ?thesis using run True fine ir(1) by auto
      qed
    qed
  qed
qed

end
