(* ===== verification/DbSelect.thy ===== *)
theory DbSelect
  imports DbCorrect
begin

section \<open>The DB engine: selection\<close>

text \<open>
  \<open>db_select_projected\<close> computes \<open>selected\<close>: by the index for an id, by the scan for a name or
  for all rows. \<open>rows_result\<close> is the contract the index lookup and the scan share: the rows'
  texts are appended and counted, or the message of a refused call comes back.
\<close>

definition selected :: "DbFilter \<Rightarrow> DbEngine \<Rightarrow> Record list" where
  "selected flt db =
     (if filter_type flt = DB_FILTER_ID
      then (case bptree_search (index db) (filter_id flt) of None \<Rightarrow> [] | Some i \<Rightarrow> [rows_of db ! i])
      else filter (row_included flt) (rows_of db))"

definition rows_result ::
    "('w world_scheme \<times> (string + JsonBuilder \<times> nat)) option \<Rightarrow> 'w world_scheme \<Rightarrow> string \<Rightarrow> nat \<Rightarrow> bool" where
  "rows_result r w s m \<longleftrightarrow>
     (case r of
        None \<Rightarrow> False
      | Some (w', Inl msg) \<Rightarrow> runs_to w w' \<and> \<not> (granted w w' \<and> length s < JSON_MAX)
      | Some (w', Inr (b, n)) \<Rightarrow> runs_to w w' \<and> jb_holds b s \<and> n = m)"

lemma rows_result_run: "rows_result r w s m \<Longrightarrow> \<exists>w' x. r = Some (w', x) \<and> runs_to w w'"
  by (auto simp: rows_result_def split: option.splits sum.splits prod.splits) (metis prod.exhaust sum.exhaust)

lemma rows_result_later:
  assumes "rows_result r w1 s m" "runs_to w w1"
  shows "rows_result r w s m"
  using assms by (auto simp: rows_result_def intro: runs_to_trans dest: granted_right split: option.splits sum.splits)

lemma rows_result_refused:
  "runs_to w w' \<Longrightarrow> \<not> (granted w w' \<and> length s < JSON_MAX) \<Longrightarrow> rows_result (Some (w', Inl msg)) w s m"
  by (simp add: rows_result_def)

lemma append_record_json_result:
  assumes "row_ok r" "proj_ok p" "jb_holds b s"
  obtains ok w' b' where "append_record_json r p (w, b) = Some (ok, w', b')" "runs_to w w'"
    "ok \<Longrightarrow> jb_holds b' (s @ record_json (columns_of p) r)"
    "granted w w' \<Longrightarrow> length (s @ record_json (columns_of p) r) < JSON_MAX \<Longrightarrow> ok"
  by (rule jb_resultE [OF jb_appendsD [OF append_record_json_appends [OF assms(1,2)] assms(3), of w]]) blast

lemma select_loop_result:
  assumes s: "store_ok db" and rows: "\<forall>r\<in>set (rows_of db). row_ok r" and p: "proj_ok p"
  shows "jb_holds b pre \<Longrightarrow> rows_result (select_loop db flt p i nc m w b) w
     (pre @ comma_tail nc (map (record_json (columns_of p)) (filter (row_included flt) (drop i (rows_of db)))))
     (m + length (filter (row_included flt) (drop i (rows_of db))))"
proof (induction "db_count db - i" arbitrary: i nc m w b pre)
  case 0
  then have "drop i (rows_of db) = []" using s by simp
  then show ?case using 0 by (simp add: select_loop.simps [of _ _ _ i] rows_result_def)
next
  case (Suc n)
  let ?json = "record_json (columns_of p)"
  let ?rest = "filter (row_included flt) (drop (Suc i) (rows_of db))"
  have i: "i < db_count db" "n = db_count db - Suc i" using Suc.hyps(2) by auto
  define r where "r = rows_of db ! i"
  have cut: "drop i (rows_of db) = r # drop (Suc i) (rows_of db)"
    using i s by (simp add: r_def Cons_nth_drop_Suc)
  have rd: "read_at i (records db) = Some r" using read_row [OF s i(1)] by (simp add: r_def)
  have row: "row_ok r" using rows i(1) s by (simp add: r_def)
  show ?case
  proof (cases "row_included flt r")
    case False
    then show ?thesis using Suc.hyps(1) [OF i(2) Suc.prems, of nc m w] i(1) rd cut
      by (simp add: select_loop.simps [of _ _ _ i])
  next
    case True
    let ?sep = "if nc then '','' else []"
    obtain ok1 w1 b1 where 1: "append_json_separator nc (w, b) = Some (ok1, w1, b1)" "runs_to w w1"
        "ok1 \<Longrightarrow> jb_holds b1 (pre @ ?sep)" "granted w w1 \<Longrightarrow> length (pre @ ?sep) < JSON_MAX \<Longrightarrow> ok1"
      by (rule jb_resultE [OF jb_appendsD [OF append_json_separator_appends Suc.prems, of nc w]]) blast
    define full where "full = pre @ ?sep @ ?json r @ comma_tail True (map ?json ?rest)"
    have goal: "rows_result (select_loop db flt p i nc m w b) w full (Suc m + length ?rest)"
    proof (cases ok1)
      case False
      then have "\<not> (granted w w1 \<and> length full < JSON_MAX)" using 1(4) by (auto simp: full_def)
      then show ?thesis using i(1) rd True 1 False by (simp add: select_loop.simps [of _ _ _ i] rows_result_refused)
    next
      case ok1: True
      obtain ok2 w2 b2 where 2: "append_record_json r p (w1, b1) = Some (ok2, w2, b2)" "runs_to w1 w2"
          "ok2 \<Longrightarrow> jb_holds b2 ((pre @ ?sep) @ ?json r)"
          "granted w1 w2 \<Longrightarrow> length ((pre @ ?sep) @ ?json r) < JSON_MAX \<Longrightarrow> ok2"
        by (rule append_record_json_result [OF row p 1(3) [OF ok1]]) blast
      have to2: "runs_to w w2" using 1(2) 2(2) runs_to_trans by blast
      show ?thesis
      proof (cases ok2)
        case False
        have "granted w w2 \<Longrightarrow> granted w1 w2" using 1(2) granted_right by blast
        then have "\<not> (granted w w2 \<and> length full < JSON_MAX)" using 2(4) False by (auto simp: full_def)
        then show ?thesis using i(1) rd True 1(1) ok1 2(1) False to2
          by (simp add: select_loop.simps [of _ _ _ i] rows_result_refused)
      next
        case ok2: True
        have "rows_result (select_loop db flt p (Suc i) True (Suc m) w2 b2) w2 full (Suc m + length ?rest)"
          using Suc.hyps(1) [OF i(2) 2(3) [OF ok2], of True "Suc m" w2] by (simp add: full_def)
        then show ?thesis using i(1) rd True 1(1) ok1 2(1) ok2 rows_result_later [OF _ to2]
          by (simp add: select_loop.simps [of _ _ _ i])
      qed
    qed
    then show ?thesis using cut True by (simp add: full_def)
  qed
qed

lemma select_by_id_result:
  assumes inv: "db_inv db" and p: "proj_ok p" and b: "jb_holds b pre"
  shows "rows_result (select_by_id db k p w b) w
     (pre @ comma_join (map (record_json (columns_of p))
       (case bptree_search (index db) k of None \<Rightarrow> [] | Some i \<Rightarrow> [rows_of db ! i])))
     (length (case bptree_search (index db) k of None \<Rightarrow> [] | Some i \<Rightarrow> [rows_of db ! i]))"
proof (cases "bptree_search (index db) k")
  case None
  then show ?thesis using b by (simp add: select_by_id_def rows_result_def)
next
  case (Some i)
  have s: "store_ok db" using inv by (simp add: db_inv_def)
  have "index_of (rows_of db) k = Some i"
    using inv Some unfolding db_inv_def map_le_def by (metis domI)
  then have i: "i < db_count db" using index_of_Some s by fastforce
  then have row: "row_ok (rows_of db ! i)" using inv s by (simp add: db_inv_def)
  obtain ok w1 b1 where a: "append_record_json (rows_of db ! i) p (w, b) = Some (ok, w1, b1)" "runs_to w w1"
      "ok \<Longrightarrow> jb_holds b1 (pre @ record_json (columns_of p) (rows_of db ! i))"
      "granted w w1 \<Longrightarrow> length (pre @ record_json (columns_of p) (rows_of db ! i)) < JSON_MAX \<Longrightarrow> ok"
    by (rule append_record_json_result [OF row p b]) blast
  then show ?thesis using Some i read_row [OF s i]
    by (cases ok) (auto simp: select_by_id_def rows_result_def)
qed

lemma selected_rows: "db_inv db \<Longrightarrow> set (selected flt db) \<subseteq> set (rows_of db) \<and> length (selected flt db) \<le> Suc (db_count db)"
proof -
  assume inv: "db_inv db"
  then have s: "store_ok db" by (simp add: db_inv_def)
  have "i < db_count db" if "bptree_search (index db) k = Some i" for k i
  proof -
    have "index_of (rows_of db) k = Some i" using inv that unfolding db_inv_def map_le_def by (metis domI)
    then show ?thesis using index_of_Some s by fastforce
  qed
  then show ?thesis using s length_filter_le [of "row_included flt" "rows_of db"]
    by (auto simp: selected_def split: option.splits)
qed

text \<open>The projection that is used: an empty one means all columns.\<close>

definition effective :: "DbProjection \<Rightarrow> DbProjection" where
  "effective p = (if column_count p = 0 \<and> \<not> include_id p \<and> \<not> include_name p \<and> \<not> include_age p
     then all_columns_projection else p)"

lemma effective_ok: "proj_ok p \<Longrightarrow> proj_ok (effective p)"
  by (simp add: effective_def all_columns_ok)

lemma db_select_projected_ok:
  assumes inv: "db_inv db" and few: "db_count db < DB_ROWS_MAX" and p: "proj_ok p" and unlocked: "db_lock db = Unlocked"
  shows "\<exists>w' res. db_select_projected flt p w db = Some (w', db, res) \<and> keeps_files w w' \<and>
    (granted w w' \<longrightarrow> res_ok res) \<and>
    (res_ok res \<longrightarrow> holds_rows res (columns_of (effective p)) (selected flt db) \<and>
      (index_used res \<longleftrightarrow> filter_type flt = DB_FILTER_ID) \<and>
      res_message res = snprintf_str 128 (''selected '' @ dec_digits (length (selected flt db)) @ '' row(s)''))"
proof -
  let ?p = "effective p" and ?rows = "selected flt db"
  let ?txt = "rows_text (columns_of ?p) ?rows"
  have same: "db\<lparr>db_lock := Unlocked\<rparr> = db" using unlocked by (cases db) simp
  define db1 where "db1 = db\<lparr>db_lock := ReadLocked\<rparr>"
  have same1: "db1\<lparr>db_lock := Unlocked\<rparr> = db" using same by (simp add: db1_def)
  have inv1: "db_inv db1" "rows_of db1 = rows_of db" "index db1 = index db" using inv by (simp_all add: db1_def)
  have len: "length ?txt < JSON_MAX"
  proof -
    have "length ?txt \<le> 2346 * length ?rows + 2"
      by (rule length_rows_text) (use selected_rows [OF inv] inv length_columns_of [OF effective_ok [OF p]] in \<open>auto simp: db_inv_def\<close>)
    also have "\<dots> \<le> 2346 * Suc (db_count db) + 2" using selected_rows [OF inv, of flt] by simp
    finally show ?thesis using few by (simp add: DB_ROWS_MAX_def JSON_MAX_def)
  qed
  obtain t w1 where now: "now_us w = (t, w1)" by fastforce
  obtain locked w2 where lock: "sys_call w1 = (locked, w2)" by fastforce
  have k2: "keeps_files w w2" using keeps_files_now [OF now] keeps_files_sys_call [OF lock] keeps_files_trans by blast
  have error: "\<exists>w' res. unlock_error m t w3 db1 = Some (w', db, res) \<and> keeps_files w w' \<and> (granted w w' \<longrightarrow> res_ok res) \<and> \<not> res_ok res"
    if "keeps_files w2 w3" "\<not> granted w2 w3" for m w3
  proof -
    obtain w4 res where e: "unlock_error m t w3 db1 = Some (w4, db, res)" "keeps_files w3 w4" "\<not> res_ok res"
      using unlock_error_result [of m t w3 db1] same1 by auto
    have "\<not> granted w w4" using that(2) keeps_files_goes_to [OF k2] keeps_files_goes_to [OF e(2)]
      granted_before granted_after by blast
    moreover have "keeps_files w w4" using k2 that(1) e(2) keeps_files_trans by blast
    ultimately show ?thesis using e by blast
  qed
  show ?thesis
  proof (cases locked)
    case False
    obtain r w3 where e: "make_error_result ''failed to acquire read lock'' t w2 = (r, w3)" by fastforce
    have ue: "unlock_error ''failed to acquire read lock'' t w2 db = Some (w3, db, r)" using e same by (simp add: unlock_error_def)
    then have r: "keeps_files w2 w3 \<and> \<not> res_ok r" using unlock_error_result [of "''failed to acquire read lock''" t w2 db] by auto
    have "\<not> granted w w2" using False sys_call_granted [OF lock] keeps_files_now [OF now] granted_after keeps_files_goes_to by blast
    then have "\<not> granted w w3" using r granted_before keeps_files_goes_to by blast
    moreover have "db_select_projected flt p w db = Some (w3, db, r)"
      using now lock False e by (simp add: db_select_projected_def)
    ultimately show ?thesis using r k2 keeps_files_trans by blast
  next
    case locked: True
    obtain created w3 b where init: "json_builder_init w2 = (created, w3, b)" by (cases "json_builder_init w2") auto
    note init_ok = json_builder_init_ok [OF init]
    obtain ok w4 b1 where start: "(if \<not> created then Some (False, w3, b) else json_builder_append ''['' (w3, b)) = Some (ok, w4, b1)"
        "runs_to w2 w4" "ok \<Longrightarrow> jb_holds b1 ''[''" "granted w2 w4 \<Longrightarrow> ok"
    proof (cases created)
      case True
      obtain ok w4 b1 where c: "json_builder_append ''['' (w3, b) = Some (ok, w4, b1)" "runs_to w3 w4"
          "ok \<Longrightarrow> jb_holds b1 ([] @ ''['')" "granted w3 w4 \<Longrightarrow> length ([] @ ''['') < JSON_MAX \<Longrightarrow> ok"
        by (rule jb_resultE [OF jb_appendsD [OF json_builder_append_appends init_ok(2) [OF True], of "''[''" w3]]) blast
      have "runs_to w2 w4" "granted w2 w4 \<Longrightarrow> granted w3 w4" using init_ok(1) c(2) runs_to_trans granted_right by blast+
      then show thesis using that True c by (simp add: JSON_MAX_def)
    next
      case False
      then show thesis using that [of False w3 b] init_ok by auto
    qed
    show ?thesis
    proof (cases ok)
      case False
      then have "db_select_projected flt p w db = unlock_error ''failed to serialize select result'' t w4 db1"
        using now lock locked init start(1) by (simp add: db_select_projected_def db1_def)
      then show ?thesis using error [OF keeps_files_runs_to [OF start(2)], of "''failed to serialize select result''"]
          start(4) False by auto
    next
      case ok: True
      define body where "body = select_rows db1 flt ?p w4 b1"
      define mid where "mid = ''['' @ comma_join (map (record_json (columns_of ?p)) ?rows)"
      have body: "rows_result body w4 mid (length ?rows)"
        using select_by_id_result [OF inv1(1) effective_ok [OF p] start(3) [OF ok], of "filter_id flt" w4, unfolded inv1(2,3)]
          select_loop_result [OF _ _ effective_ok [OF p] start(3) [OF ok], of db1 flt 0 False 0 w4] inv1
        by (auto simp: body_def select_rows_def mid_def selected_def db_inv_def)
      have whole: "?txt = mid @ '']''" by (simp add: mid_def rows_text_def)
      have sel: "db_select_projected flt p w db = select_finish flt t db1 body"
        unfolding db_select_projected_def now lock Let_def prod.case init effective_def [symmetric] db1_def [symmetric] body_def
        using locked start(1) ok by simp
      have g4: "granted w2 w5 \<Longrightarrow> granted w4 w5" for w5 using start(2) granted_right by blast
      obtain w5 x where x: "body = Some (w5, x)" "runs_to w4 w5" using rows_result_run [OF body] by blast
      have k5: "runs_to w2 w5" using start(2) x(2) runs_to_trans by blast
      show ?thesis
      proof (cases x)
        case (Inl m)
        then have "\<not> granted w2 w5" using body x(1) len whole g4 by (auto simp: rows_result_def)
        then show ?thesis using error [OF keeps_files_runs_to [OF k5], of m] x(1) Inl by (auto simp: sel select_finish_def)
      next
        case (Inr y)
        obtain b2 n where y: "y = (b2, n)" by fastforce
        have b2: "jb_holds b2 mid" "n = length ?rows" using body x(1) Inr y by (auto simp: rows_result_def)
        obtain ok2 w6 b3 where fin: "json_builder_append '']'' (w5, b2) = Some (ok2, w6, b3)" "runs_to w5 w6"
            "ok2 \<Longrightarrow> jb_holds b3 ?txt" "granted w5 w6 \<Longrightarrow> ok2"
          by (rule jb_resultE [OF jb_appendsD [OF json_builder_append_appends b2(1), of "'']''" w5]]) (use len whole in simp)
        have k6: "runs_to w2 w6" using k5 fin(2) runs_to_trans by blast
        show ?thesis
        proof (cases ok2)
          case False
          then have "\<not> granted w2 w6" using fin(4) k5 granted_right by blast
          then show ?thesis using error [OF keeps_files_runs_to [OF k6], of "''failed to finalize select result''"]
              x(1) Inr y fin(1) False by (auto simp: sel select_finish_def)
        next
          case True
          obtain u w7 where n7: "now_us w6 = (u, w7)" by fastforce
          obtain buf where buf: "fst (json_builder_take b3) = Some buf" "c_string buf = Some ?txt"
            using jb_holds_text [OF fin(3) [OF True] rows_text_no_nul] by blast
          have "keeps_files w w7" using k2 keeps_files_runs_to [OF k6] keeps_files_now [OF n7] keeps_files_trans by blast
          then show ?thesis using x(1) Inr y fin(1) True n7 buf same1 b2(2)
            by (auto simp: sel select_finish_def holds_rows_def)
        qed
      qed
    qed
  qed
qed

subsection \<open>Lookup and scan\<close>

text \<open>The condition of a row, and that the lookup of an id through a complete index selects by it.\<close>

definition row_matches :: "DbFilter \<Rightarrow> Record \<Rightarrow> bool" where
  "row_matches flt r = (case filter_type flt of
     DB_FILTER_ALL \<Rightarrow> True | DB_FILTER_ID \<Rightarrow> rec_id r = filter_id flt | DB_FILTER_NAME \<Rightarrow> rec_name r = filter_name flt)"

lemma index_lookup_is_filter:
  "distinct (map rec_id rs) \<Longrightarrow>
   (case index_of rs k of None \<Rightarrow> [] | Some i \<Rightarrow> [rs ! i]) = filter (\<lambda>r. rec_id r = k) rs"
proof (induction rs rule: rev_induct)
  case (snoc r rs)
  show ?case
  proof (cases "rec_id r = k")
    case True
    then have "filter (\<lambda>r. rec_id r = k) rs = []" using snoc.prems by (simp add: filter_empty_conv) (metis image_eqI)
    then show ?thesis using True by simp
  next
    case False
    have "(rs @ [r]) ! i = rs ! i" if "index_of rs k = Some i" for i
      using index_of_Some [OF that] by (simp add: nth_append)
    then show ?thesis using False snoc by (auto split: option.splits)
  qed
qed simp

lemma selected_is_filter:
  assumes "db_indexed db" "distinct (map rec_id (rows_of db))"
  shows "selected flt db = filter (row_matches flt) (rows_of db)"
  using index_lookup_is_filter [OF assms(2), of "filter_id flt"] assms(1)
  by (cases "filter_type flt") (auto simp: selected_def row_matches_def row_included_def db_indexed_def intro!: filter_cong)

end
