(* ===== verification/DbLoad.thy ===== *)
theory DbLoad
  imports DbSelect
begin

section \<open>The DB engine: reading the data file back\<close>

text \<open>
  \<open>db_init\<close> on any file: an engine it returns satisfies the invariant. On a file that holds the
  lines of a table, read without a failing call, it returns exactly that table: what the
  insertions wrote is what the next start of the server reads.
\<close>

definition table_text :: "Record list \<Rightarrow> string" where
  "table_text rs = concat (map record_line rs)"

lemma table_text_simps [simp]: "table_text [] = []" "table_text (r # rs) = record_line r @ table_text rs"
  "table_text (rs @ [r]) = table_text rs @ record_line r"
  by (simp_all add: table_text_def)

subsection \<open>A line of the table\<close>

lemma row_ok_chars: "row_ok r \<Longrightarrow> c \<in> set (rec_name r) \<Longrightarrow> c \<noteq> CHR '','' \<and> c \<noteq> CHR 0x0A \<and> c \<noteq> CHR 0x00"
  by (auto simp: row_ok_def name_is_valid_def list_all_iff split: if_splits)

lemma record_digits: "c \<in> set (dec_digits n) \<Longrightarrow> c \<noteq> CHR '','' \<and> c \<noteq> CHR 0x0A \<and> c \<noteq> CHR 0x00"
  using dec_digits_digits [of n] by (auto simp: isdigit_def)

lemma record_line_split:
  assumes "row_ok r"
  shows "\<exists>body. record_line r = body @ [CHR 0x0A] \<and> CHR 0x0A \<notin> set body \<and> CHR 0x00 \<notin> set body \<and> length body < 500 \<and>
    (\<exists>c cs. body = c # cs \<and> isdigit c)"
proof -
  have pos: "dec_int (rec_id r) = dec_digits (nat (rec_id r))" "dec_int (rec_age r) = dec_digits (nat (rec_age r))"
    using assms by (auto simp: row_ok_def dec_int_def)
  define body where "body = dec_int (rec_id r) @ '','' @ rec_name r @ '','' @ dec_int (rec_age r)"
  have "\<forall>c\<in>set body. c \<noteq> CHR 0x0A \<and> c \<noteq> CHR 0x00"
    using row_ok_chars [OF assms] record_digits by (auto simp: body_def pos)
  moreover have "length (dec_int (rec_id r)) \<le> 11" "length (dec_int (rec_age r)) \<le> 11"
    using assms by (auto simp: row_ok_def intro!: length_dec_int)
  then have "length body < 500" using assms by (simp add: body_def row_ok_def)
  moreover have "\<exists>c cs. body = c # cs \<and> isdigit c"
    using dec_digits_Cons [of "nat (rec_id r)"] by (auto simp: body_def pos)
  moreover have "record_line r = body @ [CHR 0x0A]" by (simp add: record_line_def body_def)
  ultimately show ?thesis by (intro exI [of _ body]) auto
qed

lemma fgets_line:
  assumes "row_ok r" "sys_call w = (True, w1)"
  shows "fgets 512 (record_line r @ rest) w = (Some (record_line r, rest), w1)"
proof -
  obtain body where b: "record_line r = body @ [CHR 0x0A]" "CHR 0x0A \<notin> set body" "length body < 500"
    using record_line_split [OF assms(1)] by blast
  have "takeWhile (\<lambda>c. c \<noteq> CHR 0x0A) (body @ CHR 0x0A # rest) = body"
    using b(2) by (subst takeWhile_append2) auto
  then show ?thesis using b(1,3) assms(2) by (simp add: fgets_def)
qed

lemma scan_int_dec:
  assumes "rest = [] \<or> \<not> isdigit (hd rest)" "0 \<le> v" "v \<le> INT_MAX"
  shows "scan_int (dec_int v @ rest) = Some (Some (v, rest))"
proof -
  have d: "dec_int v = dec_digits (nat v)" using assms(2) by (simp add: dec_int_def)
  obtain c cs where c: "dec_digits (nat v) = c # cs" "isdigit c" using dec_digits_Cons by blast
  have "dropWhile isspace (dec_digits (nat v) @ rest) = dec_digits (nat v) @ rest"
    using c by (simp add: isdigit_not_space)
  moreover have "sign_part (dec_digits (nat v) @ rest) = (False, dec_digits (nat v) @ rest)"
    using c by (simp add: sign_part_digit)
  ultimately show ?thesis unfolding scan_int_def d
    using assms by (simp add: dec_digits_takeWhile dec_digits_dropWhile int_fits_def INT_MAX_def)
qed

lemma scan_record_line:
  assumes "row_ok r"
  shows "scan_record (record_line r) = Some (Some (rec_id r, rec_name r, rec_age r))"
proof -
  have i: "0 \<le> rec_id r" "rec_id r \<le> INT_MAX" "0 \<le> rec_age r" "rec_age r \<le> INT_MAX"
    and name: "rec_name r \<noteq> []" "length (rec_name r) \<le> 127"
    using assms by (auto simp: row_ok_def name_is_valid_def split: if_splits)
  have c: "takeWhile (\<lambda>c. c \<noteq> CHR '','') (rec_name r @ CHR '','' # rest) = rec_name r" for rest
    using row_ok_chars [OF assms] by (subst takeWhile_append2) auto
  have comma: "\<not> isdigit (CHR '','')" "\<not> isdigit (CHR 0x0A)" by (simp_all add: isdigit_def)
  have 1: "scan_int (record_line r) = Some (Some (rec_id r, '','' @ rec_name r @ '','' @ dec_int (rec_age r) @ [CHR 0x0A]))"
    unfolding record_line_def by (rule scan_int_dec) (use i comma in auto)
  have 2: "scan_field 127 (rec_name r @ '','' @ dec_int (rec_age r) @ [CHR 0x0A]) =
      Some (rec_name r, '','' @ dec_int (rec_age r) @ [CHR 0x0A])"
    using name c by (simp add: scan_field_def)
  have 3: "scan_int (dec_int (rec_age r) @ [CHR 0x0A]) = Some (Some (rec_age r, [CHR 0x0A]))"
    by (rule scan_int_dec) (use i comma in auto)
  show ?thesis using 2 3 by (simp add: scan_record_def 1 scan_comma_def)
qed

lemma c_line_record: "row_ok r \<Longrightarrow> c_line (record_line r) = record_line r \<and> record_line r \<noteq> [] \<and> hd (record_line r) \<noteq> CHR 0x0A"
proof -
  assume "row_ok r"
  then obtain body c cs where b: "record_line r = body @ [CHR 0x0A]" "CHR 0x00 \<notin> set body" "body = c # cs" "isdigit c"
    using record_line_split by blast
  have "takeWhile (\<lambda>c. c \<noteq> CHR 0x00) (body @ [CHR 0x0A]) = body @ [CHR 0x0A]"
    using b(2) by (subst takeWhile_eq_all_conv) auto
  then show ?thesis using b by (auto simp: c_line_def isdigit_def)
qed

subsection \<open>Loading a record\<close>

text \<open>
  \<open>load_record\<close> with any oracle, for a row whose id is not \<open>INT_MAX\<close>: it stores the row, or
  reports failure because a call failed.
\<close>

lemma load_record_ok:
  assumes inv: "db_inv db" and few: "db_count db < DB_ROWS_MAX" and r: "row_ok r" and small: "rec_id r < INT_MAX"
  shows "\<exists>ok w' db'. load_record w db r = Some (ok, w', db') \<and> runs_to w w' \<and> (granted w w' \<longrightarrow> ok) \<and>
    (ok \<longrightarrow> db_inv db' \<and> rows_of db' = rows_of db @ [r] \<and> db_lock db' = db_lock db \<and> data_path db' = data_path db \<and>
      db_count db' = Suc (db_count db) \<and> (granted w w' \<longrightarrow> db_indexed db \<longrightarrow> db_indexed db'))"
proof -
  have s: "store_ok db" using inv by (simp add: db_inv_def)
  obtain ok w1 rs c where res: "db_reserve_records (size_add (db_count db) 1) w db =
      Some (ok, w1, db\<lparr>records := rs, capacity := c\<rparr>)" "runs_to w w1" "granted w w1 \<Longrightarrow> ok"
      "store_ok (db\<lparr>records := rs, capacity := c\<rparr>)" "rows_of (db\<lparr>records := rs, capacity := c\<rparr>) = rows_of db"
      "ok \<Longrightarrow> db_count db < c"
    using db_reserve_records_ok [OF s few, of w] by blast
  define db1 where "db1 = db\<lparr>records := rs, capacity := c\<rparr>"
  have db1: "db_inv db1" "rows_of db1 = rows_of db" "db_count db1 = db_count db" "index db1 = index db"
      "db_indexed db1 \<longleftrightarrow> db_indexed db" "next_id db1 = next_id db"
    using inv res(4,5) by (auto simp: db1_def db_inv_def db_indexed_def)
  show ?thesis
  proof (cases ok)
    case False
    then have "load_record w db r = Some (False, w1, db1)" using res(1) by (simp add: load_record_def db1_def)
    then show ?thesis using res(2,3) False by auto
  next
    case ok: True
    have room: "db_count db1 < capacity db1" "db_count db1 < DB_ROWS_MAX" using ok res(6) few by (simp_all add: db1_def)
    obtain recs where recs: "write_at (db_count db1) [r] (records db1) = Some recs"
        "rows_of (pushed r recs db1) = rows_of db1 @ [r]"
        "\<And>t. bptree_inv t \<Longrightarrow> bptree_search t \<subseteq>\<^sub>m (bptree_search (index db1))(rec_id r \<mapsto> db_count db1) \<Longrightarrow>
          db_inv ((pushed r recs db1)\<lparr>index := t\<rparr>)"
      by (rule pushed_inv [OF db1(1) r room]) blast
    have bi: "bptree_inv (index db)" using inv by (simp add: db_inv_def)
    obtain w2 t2 ins where ix: "bptree_insert w1 (index db) (rec_id r) (db_count db) = Some (w2, t2, ins)"
        "runs_to w1 w2" "bptree_inv t2"
      using bp.insert_returns [OF bi] by blast
    define db2 where "db2 = (pushed r recs db1)\<lparr>index := t2\<rparr>"
    have db2: "db_inv db2" "rows_of db2 = rows_of db @ [r]"
      using recs(2,3) ix(3) bp.search_insert_sound [OF bi ix(1)] db1 by (auto simp: db2_def rows_of_def)
    have cnt: "size_add (db_count db) 1 = Suc (db_count db)"
      using few by (simp add: size_add_exact DB_ROWS_MAX_def SIZE_MAX_def)
    have run: "load_record w db r = (if \<not> ins then Some (False, w2, db1\<lparr>records := recs, index := t2\<rparr>) else Some (True, w2, db2))"
      using res(1) ok recs(1) ix(1) small db1(3,4)
      by (simp add: load_record_def db1_def [symmetric] Let_def db2_def pushed_def next_step_def)
    have to2: "runs_to w w2" using res(2) ix(2) runs_to_trans by blast
    have quiet: "ins \<and> (db_indexed db \<longrightarrow> db_indexed db2)" if g: "granted w w2"
    proof -
      have "granted w1 w2" using g res(2) granted_right by blast
      then have "ins" "bptree_search t2 = (bptree_search (index db))(rec_id r \<mapsto> db_count db)"
        using bp.insert_contents [OF bi ix(1)] bp.search_insert [OF bi ix(1)] by blast+
      moreover have "length (rows_of db) = db_count db" using s by simp
      ultimately show ?thesis using db2(2) by (simp add: db_indexed_def db2_def)
    qed
    have "db_lock db2 = db_lock db" "data_path db2 = data_path db" "db_count db2 = Suc (db_count db)"
      by (simp_all add: db2_def pushed_def db1_def cnt del: One_nat_def)
    then show ?thesis using run to2 quiet db2 by auto
  qed
qed

subsection \<open>The loop\<close>

text \<open>What \<open>scan_record\<close> and the checks of \<open>db_init\<close> let through is a row.\<close>

lemma scan_int_fits: "scan_int s = Some (Some (v, r)) \<Longrightarrow> int_fits v"
  by (auto simp: scan_int_def Let_def split: prod.splits if_splits)

lemma scan_field_chars: "scan_field n s = Some (f, r) \<Longrightarrow> length f \<le> n \<and> set f \<subseteq> set s"
  by (auto simp: scan_field_def Let_def dest!: in_set_takeD set_takeWhileD split: if_splits)

lemma scan_comma_chars: "scan_comma s = Some r \<Longrightarrow> set r \<subseteq> set s"
  by (auto simp: scan_comma_def split: list.splits if_splits)

lemma scan_int_chars:
  assumes "scan_int s = Some (Some (v, r))"
  shows "set r \<subseteq> set s"
proof -
  have d: "set (dropWhile P xs) \<subseteq> set xs" for P and xs :: string by (auto dest: set_dropWhileD)
  define s1 where "s1 = dropWhile isspace s"
  have "set (snd (sign_part s1)) \<subseteq> set s1" by (auto simp: sign_part_def split: list.splits)
  moreover have "r = dropWhile isdigit (snd (sign_part s1))"
    using assms by (auto simp: scan_int_def s1_def Let_def split: prod.splits if_splits)
  moreover have "set s1 \<subseteq> set s" by (simp add: s1_def d)
  ultimately show ?thesis using d by blast
qed

lemma scan_record_row:
  assumes "scan_record (c_line bytes) = Some (Some (i, name, age))" "\<not> i \<le> 0" "\<not> age < 0"
    "name_is_valid (snprintf_str DB_NAME_MAX name)"
  shows "row_ok \<lparr>rec_id = i, rec_name = snprintf_str DB_NAME_MAX name, rec_age = age\<rparr>"
proof -
  obtain r1 r2 r3 r4 r5 where s: "scan_int (c_line bytes) = Some (Some (i, r1))" "scan_comma r1 = Some r2"
      "scan_field 127 r2 = Some (name, r3)" "scan_int r4 = Some (Some (age, r5))"
    using assms(1) by (auto simp: scan_record_def split: option.splits prod.splits)
  have "set name \<subseteq> set (c_line bytes)" "length name \<le> 127"
    using scan_int_chars [OF s(1)] scan_comma_chars [OF s(2)] scan_field_chars [OF s(3)] by blast+
  moreover have "CHR 0x00 \<notin> set (c_line bytes)" by (auto simp: c_line_def dest: set_takeWhileD)
  ultimately show ?thesis
    using assms(2-4) scan_int_fits [OF s(1)] scan_int_fits [OF s(4)]
    by (auto simp: row_ok_def snprintf_str_def int_fits_def dest: in_set_takeD)
qed

lemma load_record_small:
  assumes "db_inv db" "load_record w db r = Some (True, w', db')"
  shows "rec_id r \<noteq> INT_MAX"
proof
  assume "rec_id r = INT_MAX"
  moreover have "next_id db \<le> INT_MAX" using assms(1) next_of_bounds by (simp add: db_inv_def)
  moreover have "next_id db1 = next_id db" if "db_reserve_records n w db = Some (ok, w1, db1)" for n ok w1 db1
    using that by (auto simp: db_reserve_records_def Let_def split: if_splits option.splits prod.splits)
  ultimately show False using assms(2)
    by (auto simp: load_record_def Let_def split: option.splits prod.splits if_splits)
qed

text \<open>One round of the loop on a line that has the form of a record.\<close>

lemma db_load_step:
  assumes "fgets 512 rest w = (Some (bytes, rest'), w1)" "\<not> (c_line bytes = [] \<or> hd (c_line bytes) = CHR 0x0A)"
    "scan_record (c_line bytes) = Some (Some (i, name, age))"
    "r = \<lparr>rec_id = i, rec_name = snprintf_str DB_NAME_MAX name, rec_age = age\<rparr>"
  shows "db_load_loop rest w db =
    (if rec_id r \<le> 0 \<or> rec_age r < 0 \<or> \<not> name_is_valid (rec_name r) then Some (w1, Inl ''invalid record in data file'')
     else case load_record w1 db r of
            None \<Rightarrow> None
          | Some (ok, w2, db2) \<Rightarrow>
              if \<not> ok then Some (w2, Inl ''failed to load data file into memory'') else db_load_loop rest' w2 db2)"
  using assms by (simp add: db_load_loop.simps [of rest] Let_def)

text \<open>
  Any file, any oracle: an engine that comes out of the loop satisfies the invariant, and has at
  most one more row per byte read.
\<close>

lemma db_load_loop_inv:
  "db_load_loop rest w db = Some (w', Inr db') \<Longrightarrow> db_inv db \<Longrightarrow> db_count db + length rest < DB_ROWS_MAX \<Longrightarrow>
   db_inv db' \<and> db_lock db' = db_lock db \<and> data_path db' = data_path db \<and> db_count db' \<le> db_count db + length rest"
proof (induction "length rest" arbitrary: rest w db rule: less_induct)
  case less
  obtain l w1 where g: "fgets 512 rest w = (l, w1)" by fastforce
  show ?case
  proof (cases l)
    case None
    then show ?thesis using less.prems g by (simp add: db_load_loop.simps [of rest])
  next
    case (Some x)
    obtain bytes rest' where x: "x = (bytes, rest')" by fastforce
    have shorter: "length rest' < length rest" using fgets_shorter g Some x by fastforce
    show ?thesis
    proof (cases "c_line bytes = [] \<or> hd (c_line bytes) = CHR 0x0A")
      case True
      then have "db_load_loop rest' w1 db = Some (w', Inr db')"
        using less.prems(1) g Some x by (simp add: db_load_loop.simps [of rest])
      from less.hyps [OF shorter this less.prems(2)] show ?thesis using less.prems(3) shorter by simp
    next
      case False
      obtain i name age where sc: "scan_record (c_line bytes) = Some (Some (i, name, age))"
        using less.prems(1) g Some x False
        by (auto simp: db_load_loop.simps [of rest] Let_def split: option.splits)
      define r where "r = \<lparr>rec_id = i, rec_name = snprintf_str DB_NAME_MAX name, rec_age = age\<rparr>"
      note step = db_load_step [OF g [unfolded Some x] False sc r_def, of db]
      have valid: "\<not> (rec_id r \<le> 0 \<or> rec_age r < 0 \<or> \<not> name_is_valid (rec_name r))"
        using less.prems(1) step by (auto split: if_splits)
      obtain ok w2 db2 where ld: "load_record w1 db r = Some (ok, w2, db2)"
        using less.prems(1) step valid by (cases "load_record w1 db r") auto
      have ok: "ok" and run: "db_load_loop rest' w2 db2 = Some (w', Inr db')"
        using less.prems(1) step valid ld by (auto split: if_splits)
      have row: "row_ok r"
        using scan_record_row [OF sc] valid by (auto simp: r_def row_ok_def)
      have small: "rec_id r < INT_MAX"
        using load_record_small [OF less.prems(2), of w1 r w2 db2] ld ok row by (auto simp: row_ok_def)
      have few: "db_count db < DB_ROWS_MAX" using less.prems(3) by simp
      have db2: "db_inv db2" "db_lock db2 = db_lock db" "data_path db2 = data_path db" "db_count db2 = Suc (db_count db)"
        using load_record_ok [OF less.prems(2) few row small, of w1] ld ok by auto
      from less.hyps [OF shorter run db2(1)] show ?thesis using db2 less.prems(3) shorter by simp
    qed
  qed
qed

subsection \<open>The whole start\<close>

definition empty_engine :: "string \<Rightarrow> DbEngine" where
  "empty_engine path = \<lparr>data_path = path, records = [], db_count = 0, capacity = 0, next_id = 1,
     index = bptree_init, db_lock = Unlocked\<rparr>"

lemma empty_engine_inv: "db_inv (empty_engine path)" "db_indexed (empty_engine path)" "rows_of (empty_engine path) = []"
proof -
  have none: "bptree_search bptree_init = Map.empty" using bp.search_empty by auto
  show r: "rows_of (empty_engine path) = []" by (simp add: empty_engine_def rows_of_def)
  show "db_inv (empty_engine path)" unfolding db_inv_def r
    using bp.empty_inv none by (simp add: empty_engine_def store_ok_def)
  show "db_indexed (empty_engine path)" unfolding db_indexed_def r by (simp add: empty_engine_def none)
qed

lemma db_init_cases:
  assumes "length path < DB_PATH_MAX" "sys_call w = (True, w1)" "fopen_append path w1 = (True, w2)"
  shows "db_init path w = db_load_loop (file_text w2 path) w2 (empty_engine path)"
  using assms by (simp add: db_init_def empty_engine_def snprintf_str_def Let_def)

lemma db_init_inv:
  assumes "db_init path w = Some (w', Inr db)" "length (file_text w path) < DB_ROWS_MAX"
  shows "db_inv db \<and> db_lock db = Unlocked \<and> data_path db = path \<and> db_count db \<le> length (file_text w path)"
proof -
  obtain ok1 w1 where 1: "sys_call w = (ok1, w1)" by fastforce
  obtain ok2 w2 where 2: "fopen_append (snprintf_str DB_PATH_MAX path) w1 = (ok2, w2)" by fastforce
  have ok: "ok1" "ok2" "length path < DB_PATH_MAX"
    using assms(1) 1 2 by (auto simp: db_init_def Let_def split: if_splits)
  then have path: "snprintf_str DB_PATH_MAX path = path" by (simp add: snprintf_str_def)
  have "db_load_loop (file_text w2 path) w2 (empty_engine path) = Some (w', Inr db)"
    using db_init_cases [OF ok(3), of w w1 w2] 1 2 ok path assms(1) by simp
  moreover have "file_text w2 path = file_text w path"
    using fopen_append_ok(3) [OF 2] keeps_files_text [OF keeps_files_sys_call [OF 1]] by simp
  ultimately show ?thesis
    using db_load_loop_inv [OF _ empty_engine_inv(1)] assms(2) by (simp add: empty_engine_def)
qed

text \<open>No failing call: the loop reads every line.\<close>

lemma never_fails_sys_call: "never_fails w \<Longrightarrow> \<exists>w1. sys_call w = (True, w1) \<and> never_fails w1"
  by (simp add: sys_call_def never_fails_def)

lemma db_load_row:
  assumes n: "never_fails w" and r: "row_ok r" "rec_id r < INT_MAX" and inv: "db_inv db" and few: "db_count db < DB_ROWS_MAX"
  obtains w2 db2 where "db_load_loop (record_line r @ rest) w db = db_load_loop rest w2 db2" "keeps_files w w2" "never_fails w2"
    "db_inv db2" "rows_of db2 = rows_of db @ [r]" "db_lock db2 = db_lock db" "data_path db2 = data_path db"
    "db_count db2 = Suc (db_count db)" "db_indexed db \<Longrightarrow> db_indexed db2"
proof -
  obtain w1 where w1: "sys_call w = (True, w1)" "never_fails w1" using never_fails_sys_call [OF n] by blast
  have valid: "\<not> (rec_id r \<le> 0 \<or> rec_age r < 0 \<or> \<not> name_is_valid (rec_name r))" using r(1) by (simp add: row_ok_def)
  have line: "\<not> (c_line (record_line r) = [] \<or> hd (c_line (record_line r)) = CHR 0x0A)"
    "scan_record (c_line (record_line r)) = Some (Some (rec_id r, rec_name r, rec_age r))"
    using c_line_record [OF r(1)] scan_record_line [OF r(1)] by simp_all
  have rec: "r = \<lparr>rec_id = rec_id r, rec_name = snprintf_str DB_NAME_MAX (rec_name r), rec_age = rec_age r\<rparr>"
    using r(1) by (simp add: row_ok_def snprintf_str_def)
  obtain ok w2 db2 where ld: "load_record w1 db r = Some (ok, w2, db2)" "runs_to w1 w2" "granted w1 w2 \<longrightarrow> ok"
      "ok \<longrightarrow> db_inv db2 \<and> rows_of db2 = rows_of db @ [r] \<and> db_lock db2 = db_lock db \<and> data_path db2 = data_path db \<and>
        db_count db2 = Suc (db_count db) \<and> (granted w1 w2 \<longrightarrow> db_indexed db \<longrightarrow> db_indexed db2)"
    using load_record_ok [OF inv few r] by blast
  have g: "granted w1 w2" by (rule never_fails_granted [OF w1(2)])
  then have ok: "ok" using ld(3) by blast
  have step: "db_load_loop (record_line r @ rest) w db = db_load_loop rest w2 db2"
    using db_load_step [OF fgets_line [OF r(1) w1(1)] line(1,2) rec, of rest db] valid ld(1) ok by simp
  have k2: "keeps_files w w2" using keeps_files_sys_call [OF w1(1)] keeps_files_runs_to [OF ld(2)] keeps_files_trans by blast
  show thesis using that [OF step k2 never_fails_runs_to [OF w1(2) ld(2)]] ld(4) ok g by blast
qed

lemma db_load_table:
  "never_fails w \<Longrightarrow> \<forall>r\<in>set rs. row_ok r \<and> rec_id r < INT_MAX \<Longrightarrow> db_inv db \<Longrightarrow> db_indexed db \<Longrightarrow>
   db_count db + length rs < DB_ROWS_MAX \<Longrightarrow>
   \<exists>w' db'. db_load_loop (table_text rs) w db = Some (w', Inr db') \<and> keeps_files w w' \<and> db_inv db' \<and>
     rows_of db' = rows_of db @ rs \<and> db_indexed db' \<and> db_lock db' = db_lock db \<and> data_path db' = data_path db"
proof (induction rs arbitrary: w db)
  case Nil
  obtain w1 where "sys_call w = (True, w1)" using never_fails_sys_call [OF Nil(1)] by blast
  then have "db_load_loop (table_text []) w db = Some (w1, Inr db)" "keeps_files w w1"
    by (simp_all add: db_load_loop.simps fgets_def keeps_files_sys_call)
  then show ?case using Nil.prems by simp
next
  case (Cons r rs)
  have r: "row_ok r" "rec_id r < INT_MAX" and few: "db_count db < DB_ROWS_MAX" using Cons.prems(2,5) by auto
  obtain w2 db2 where step: "db_load_loop (record_line r @ table_text rs) w db = db_load_loop (table_text rs) w2 db2"
      and k2: "keeps_files w w2" and n2: "never_fails w2"
      and db2: "db_inv db2" "rows_of db2 = rows_of db @ [r]" "db_lock db2 = db_lock db" "data_path db2 = data_path db"
      "db_count db2 = Suc (db_count db)" "db_indexed db2"
    by (rule db_load_row [OF Cons.prems(1) r Cons.prems(3) few, where rest = "table_text rs"]) (use Cons.prems(4) in blast)
  have "\<forall>r\<in>set rs. row_ok r \<and> rec_id r < INT_MAX" "db_count db2 + length rs < DB_ROWS_MAX"
    using Cons.prems(2,5) db2(5) by simp_all
  from Cons.IH [OF n2 this(1) db2(1,6) this(2)] obtain w' db' where l:
      "db_load_loop (table_text rs) w2 db2 = Some (w', Inr db')" "keeps_files w2 w'" "db_inv db'"
      "rows_of db' = rows_of db2 @ rs" "db_indexed db'" "db_lock db' = db_lock db2" "data_path db' = data_path db2"
    by blast
  have "keeps_files w w'" by (rule keeps_files_trans [OF k2 l(2)])
  moreover have "rows_of db' = rows_of db @ r # rs" using l(4) db2(2) by simp
  ultimately show ?case using step l(1,3,5-7) db2(3,4) by simp
qed

lemma never_fails_fopen: "never_fails w \<Longrightarrow> \<exists>w1. fopen_append p w = (True, w1) \<and> never_fails w1"
proof -
  assume n: "never_fails w"
  obtain ok w1 where f: "fopen_append p w = (ok, w1)" by fastforce
  have "ok" using fopen_append_ok(2) [OF f] never_fails_granted [OF n] by blast
  moreover have "never_fails w1" using never_fails_goes_to [OF n fopen_append_ok(1) [OF f]] .
  ultimately show ?thesis using f by simp
qed

lemma db_init_table:
  assumes n: "never_fails w" and p: "length path < DB_PATH_MAX" and disk: "file_text w path = table_text rs"
    and rs: "\<forall>r\<in>set rs. row_ok r \<and> rec_id r < INT_MAX" "length rs < DB_ROWS_MAX"
  shows "\<exists>w' db. db_init path w = Some (w', Inr db) \<and> rows_of db = rs \<and> db_inv db \<and> db_indexed db \<and>
    db_lock db = Unlocked \<and> data_path db = path \<and> file_text w' path = table_text rs \<and> never_fails w'"
proof -
  obtain w1 where w1: "sys_call w = (True, w1)" "never_fails w1" using never_fails_sys_call [OF n] by blast
  obtain w2 where w2: "fopen_append path w1 = (True, w2)" "never_fails w2" using never_fails_fopen [OF w1(2)] by blast
  have t2: "file_text w2 path = table_text rs"
    using fopen_append_ok(3) [OF w2(1)] keeps_files_text [OF keeps_files_sys_call [OF w1(1)]] disk by simp
  have "db_count (empty_engine path) + length rs < DB_ROWS_MAX" using rs(2) by (simp add: empty_engine_def)
  then obtain w' db where l: "db_load_loop (table_text rs) w2 (empty_engine path) = Some (w', Inr db)" "keeps_files w2 w'"
      "db_inv db" "rows_of db = rows_of (empty_engine path) @ rs" "db_indexed db"
      "db_lock db = db_lock (empty_engine path)" "data_path db = data_path (empty_engine path)"
    using db_load_table [OF w2(2) rs(1) empty_engine_inv(1,2)] by blast
  moreover have "db_init path w = Some (w', Inr db)" using db_init_cases [OF p w1(1) w2(1)] t2 l(1) by simp
  moreover have "never_fails w'" using never_fails_goes_to [OF w2(2) keeps_files_goes_to [OF l(2)]] .
  ultimately show ?thesis using t2 keeps_files_text [OF l(2)] empty_engine_inv(3) by (auto simp: empty_engine_def)
qed

text \<open>The id \<open>INT_MAX\<close>: the row is stored and indexed, then \<open>next_id\<close> overflows.\<close>

lemma load_record_overflow:
  assumes inv: "db_inv db" and few: "db_count db < DB_ROWS_MAX" and n: "never_fails w" and r: "row_ok r" "rec_id r = INT_MAX"
  shows "load_record w db r = None"
proof -
  have s: "store_ok db" using inv by (simp add: db_inv_def)
  obtain ok w1 rs c where res: "db_reserve_records (size_add (db_count db) 1) w db =
      Some (ok, w1, db\<lparr>records := rs, capacity := c\<rparr>)" "runs_to w w1" "granted w w1 \<Longrightarrow> ok"
      "store_ok (db\<lparr>records := rs, capacity := c\<rparr>)" "ok \<Longrightarrow> db_count db < c"
    using db_reserve_records_ok [OF s few, of w] by blast
  have ok: "ok" using res(3) never_fails_granted [OF n] by blast
  obtain recs where recs: "write_at (db_count db) [r] rs = Some recs"
    using store_row [OF res(4), of r] res(5) [OF ok] few by auto
  have bi: "bptree_inv (index db)" using inv by (simp add: db_inv_def)
  obtain w2 t2 ins where ix: "bptree_insert w1 (index db) (rec_id r) (db_count db) = Some (w2, t2, ins)"
    using bp.insert_returns [OF bi] by blast
  have ins: "ins" using bp.insert_contents [OF bi ix] never_fails_granted [OF never_fails_runs_to [OF n res(2)]] by blast
  have "next_id db \<le> INT_MAX" using inv next_of_bounds by (simp add: db_inv_def)
  then show ?thesis using res(1) ok recs ix ins r(2) by (simp add: load_record_def Let_def)
qed

lemma db_load_overflow:
  "never_fails w \<Longrightarrow> \<forall>q\<in>set rs. row_ok q \<and> rec_id q < INT_MAX \<Longrightarrow> row_ok r \<Longrightarrow> rec_id r = INT_MAX \<Longrightarrow> db_inv db \<Longrightarrow>
   Suc (db_count db + length rs) < DB_ROWS_MAX \<Longrightarrow> db_load_loop (table_text rs @ record_line r) w db = None"
proof (induction rs arbitrary: w db)
  case Nil
  obtain w1 where w1: "sys_call w = (True, w1)" "never_fails w1" using never_fails_sys_call [OF Nil(1)] by blast
  have line: "\<not> (c_line (record_line r) = [] \<or> hd (c_line (record_line r)) = CHR 0x0A)"
    "scan_record (c_line (record_line r)) = Some (Some (rec_id r, rec_name r, rec_age r))"
    using c_line_record [OF Nil(3)] scan_record_line [OF Nil(3)] by simp_all
  have rec: "r = \<lparr>rec_id = rec_id r, rec_name = snprintf_str DB_NAME_MAX (rec_name r), rec_age = rec_age r\<rparr>"
    using Nil(3) by (simp add: row_ok_def snprintf_str_def)
  have "load_record w1 db r = None" by (rule load_record_overflow) (use Nil w1(2) in simp_all)
  then show ?case using db_load_step [OF fgets_line [OF Nil(3) w1(1)] line rec, of "[]" db] Nil(3)
    by (simp add: row_ok_def)
next
  case (Cons q rs)
  have q: "row_ok q" "rec_id q < INT_MAX" and few: "db_count db < DB_ROWS_MAX" using Cons.prems(2,6) by auto
  obtain w2 db2 where step: "db_load_loop (record_line q @ table_text rs @ record_line r) w db =
        db_load_loop (table_text rs @ record_line r) w2 db2" "never_fails w2" "db_inv db2" "db_count db2 = Suc (db_count db)"
    by (rule db_load_row [OF Cons.prems(1) q Cons.prems(5) few, where rest = "table_text rs @ record_line r"]) blast
  have "db_load_loop (table_text rs @ record_line r) w2 db2 = None"
    by (rule Cons.IH [OF step(2)]) (use Cons.prems step(3,4) in simp_all)
  then show ?case using step(1) by simp
qed

end
