(* ===== verification/HttpCorrect.thy ===== *)
theory HttpCorrect
  imports Http
begin

section \<open>Reading and writing on sockets\<close>

text \<open>
  What \<open>send_all\<close> and the two read loops do for every script of the peer and the kernel, and the
  lemmas on \<open>strstr\<close> and header lines from which the meaning of a well-formed request follows.
\<close>

subsection \<open>Sending\<close>

text \<open>Every socket call goes through; the other scripts stay as they are.\<close>

definition send_works :: "conn \<Rightarrow> bool" where
  "send_works c \<longleftrightarrow> (\<forall>e\<in>set (outgoing c). e = Send_Interrupted \<or> (\<exists>k. e = Takes (Suc k)))"

definition sends :: "conn \<Rightarrow> string \<Rightarrow> bool \<Rightarrow> conn \<Rightarrow> bool" where
  "sends c txt ok c' \<longleftrightarrow> incoming c' = incoming c \<and> (send_works c \<longrightarrow> send_works c' \<and> ok) \<and>
     (\<exists>k. sent c' = sent c @ take k txt \<and> (if ok then length txt \<le> k else k < length txt))"

lemma sendsI:
  "incoming c' = incoming c \<Longrightarrow> (send_works c \<Longrightarrow> send_works c' \<and> ok) \<Longrightarrow> sent c' = sent c @ take k txt \<Longrightarrow>
   (if ok then length txt \<le> k else k < length txt) \<Longrightarrow> sends c txt ok c'"
  unfolding sends_def by blast

lemma sends_Nil: "sends c [] True c"
  by (rule sendsI [where k = 0]) simp_all

lemma sends_True: "sends c txt True c' \<Longrightarrow> sent c' = sent c @ txt"
  by (auto simp: sends_def)

lemma sends_append:
  assumes "sends c s True c1" "sends c1 t ok c2"
  shows "sends c (s @ t) ok c2"
proof -
  obtain k where k: "sent c2 = sent c1 @ take k t" "if ok then length t \<le> k else k < length t"
    using assms(2) by (auto simp: sends_def)
  then show ?thesis
    using assms sends_True [OF assms(1)]
    by (intro sendsI [where k = "length s + k"]) (auto simp: sends_def split: if_splits)
qed

lemma sends_stop:
  assumes "sends c s False c1"
  shows "sends c (s @ t) False c1"
proof -
  obtain k where "sent c1 = sent c @ take k s" "k < length s" using assms by (auto simp: sends_def)
  then show ?thesis using assms by (intro sendsI [where k = k]) (auto simp: sends_def)
qed

lemma send_all_sends: "send_all buffer c = (ok, c') \<Longrightarrow> sends c buffer ok c'"
proof (induction buffer c arbitrary: ok c' rule: send_all.induct)
  case (1 buffer c)
  show ?case
  proof (cases "buffer = []")
    case True
    then show ?thesis using "1.prems" sends_Nil by (simp add: send_all.simps)
  next
    case False
    obtain r c1 where s: "send buffer c = (r, c1)" by fastforce
    show ?thesis
    proof (cases r)
      case (Result n)
      then have c1: "incoming c1 = incoming c" "sent c1 = sent c @ take n buffer" "n \<le> length buffer"
          "send_works c \<Longrightarrow> send_works c1 \<and> 0 < n"
        using s False by (auto simp: send_def send_works_def min_def split: list.splits send_event.splits)
      show ?thesis
      proof (cases "n = 0")
        case True
        then show ?thesis using "1.prems" s Result c1 False
          by (intro sendsI [where k = 0]) (auto simp: send_all.simps [of buffer])
      next
        case n: False
        then have "send_all (drop n buffer) c1 = (ok, c')"
          using "1.prems" s Result False by (simp add: send_all.simps [of buffer])
        from "1.IH"(1) [OF False s [symmetric] Result n this] have "sends c1 (drop n buffer) ok c'" .
        moreover have "sends c (take n buffer) True c1"
          using c1 by (intro sendsI [where k = n]) auto
        ultimately show ?thesis using sends_append by fastforce
      qed
    next
      case Eintr
      then have "send_all buffer c1 = (ok, c')" using "1.prems" s False by (simp add: send_all.simps [of buffer])
      from "1.IH"(2) [OF False s [symmetric] Eintr this] have "sends c1 buffer ok c'" .
      moreover have "incoming c1 = incoming c" "sent c1 = sent c" "send_works c \<Longrightarrow> send_works c1"
        using s Eintr by (auto simp: send_def send_works_def split: list.splits send_event.splits)
      ultimately show ?thesis by (simp add: sends_def)
    next
      case Error
      then have "\<not> ok" "c' = c1" using "1.prems" s False by (auto simp: send_all.simps [of buffer])
      moreover have "incoming c1 = incoming c" "sent c1 = sent c" "\<not> send_works c"
        using s Error by (auto simp: send_def send_works_def split: list.splits send_event.splits)
      ultimately show ?thesis using False by (intro sendsI [where k = 0]) auto
    qed
  qed
qed

subsection \<open>The response\<close>

definition payload :: "string \<Rightarrow> string" where
  "payload json_body = (if needs_newline json_body then json_body @ [CHR 0x0A] else json_body)"

definition response_text :: "int \<Rightarrow> string \<Rightarrow> nat \<Rightarrow> string" where
  "response_text status_code json_body worker_thread_id =
     response_header status_code (thread_header worker_thread_id) (length (payload json_body)) @ payload json_body"

lemma length_reason: "length (reason s) \<le> 21"
  by (simp add: reason_def)

lemma length_dec_int_digits: "\<bar>z\<bar> < 10 ^ k \<Longrightarrow> 0 < k \<Longrightarrow> length (dec_int z) \<le> Suc k"
proof -
  assume "\<bar>z\<bar> < 10 ^ k" "0 < k"
  then have "nat \<bar>z\<bar> < 10 ^ k" by (simp add: nat_less_iff)
  from length_dec_digits [OF this \<open>0 < k\<close>] show ?thesis by (auto simp: dec_int_def)
qed

lemma length_thread_header:
  assumes "tid \<le> SIZE_MAX"
  shows "length (thread_header tid) < 96"
proof -
  have "length (dec_digits tid) \<le> 20"
    using assms by (intro length_dec_digits) (simp_all add: SIZE_MAX_def)
  then show ?thesis by (simp add: thread_header_def)
qed

lemma length_response_header:
  assumes "tid \<le> SIZE_MAX" "n \<le> SIZE_MAX" "\<bar>status\<bar> < 10 ^ 10"
  shows "length (response_header status (thread_header tid) n) < 512"
proof -
  have "length (dec_digits n) \<le> 20"
    using assms(2) by (intro length_dec_digits) (simp_all add: SIZE_MAX_def)
  moreover have "length (dec_int status) \<le> 11" using length_dec_int_digits [OF assms(3)] by simp
  ultimately show ?thesis
    using length_reason [of status] length_thread_header [OF assms(1)] by (simp add: response_header_def)
qed

lemma snprintf_whole_ok:
  "snprintf_whole bytes txt os = (r, os') \<Longrightarrow> length txt < bytes \<Longrightarrow>
   runs_to os os' \<and> (r = None \<and> \<not> granted os os' \<or> r = Some txt)"
  by (auto simp: snprintf_whole_def sys_call_def runs_to_def granted_def split: if_splits)

text \<open>
  The outcome of writing a text: success means all of it was sent, failure that a proper prefix
  was; it succeeds when no call fails and the socket works.
\<close>

definition writes :: "'w os_scheme \<Rightarrow> conn \<Rightarrow> string \<Rightarrow> bool \<times> 'w os_scheme \<times> conn \<Rightarrow> bool" where
  "writes os c txt r \<longleftrightarrow> (case r of (ok, os', c') \<Rightarrow>
     runs_to os os' \<and> incoming c' = incoming c \<and> (send_works c \<longrightarrow> send_works c') \<and>
     (granted os os' \<and> send_works c \<longrightarrow> ok) \<and>
     (\<exists>k. sent c' = sent c @ take k txt \<and> (if ok then length txt \<le> k else k < length txt)))"

lemma writes_sends: "sends c txt ok c' \<Longrightarrow> runs_to os os' \<Longrightarrow> writes os c txt (ok, os', c')"
  by (auto simp: writes_def sends_def)

lemma writes_nothing: "txt \<noteq> [] \<Longrightarrow> runs_to os os' \<Longrightarrow> \<not> granted os os' \<Longrightarrow> writes os c txt (False, os', c)"
  by (auto simp: writes_def intro: exI [of _ 0])

lemma http_send_json_writes:
  assumes "tid \<le> SIZE_MAX" "length body < SIZE_MAX" "\<bar>status\<bar> < 10 ^ 10"
  shows "writes os c (response_text status body tid) (http_send_json_with_thread status body tid (os, c))"
proof -
  let ?n = "length (payload body)" and ?txt = "response_text status body tid"
  have n: "size_add (length body) (if needs_newline body then 1 else 0) = ?n"
    using assms(2) by (auto simp: payload_def size_add_exact)
  have ne: "?txt \<noteq> []" by (simp add: response_text_def response_header_def)
  obtain th os1 where th: "(if tid \<noteq> 0 then snprintf_whole 96 (thread_header tid) os else (Some [], os)) = (th, os1)"
    by fastforce
  have th': "runs_to os os1 \<and> (th = None \<and> \<not> granted os os1 \<or> th = Some (thread_header tid))"
    using th length_thread_header [OF assms(1)] snprintf_whole_ok [of 96 "thread_header tid" os th os1]
    by (auto simp: thread_header_def split: if_splits)
  show ?thesis
  proof (cases th)
    case None
    then have "\<not> granted os os1" "runs_to os os1" using th' by auto
    moreover have "http_send_json_with_thread status body tid (os, c) = (False, os1, c)"
      using th None by (simp add: http_send_json_with_thread_def Let_def)
    ultimately show ?thesis using writes_nothing [OF ne] by simp
  next
    case (Some t)
    then have t: "t = thread_header tid" "runs_to os os1" using th' by auto
    let ?h = "response_header status t ?n"
    obtain hd os2 where h: "snprintf_whole 512 ?h os1 = (hd, os2)" by fastforce
    have "length ?h < 512" using length_response_header [OF assms(1) _ assms(3), of ?n] assms(2)
      by (auto simp: t payload_def)
    from snprintf_whole_ok [OF h this] have h': "runs_to os1 os2" "hd = None \<and> \<not> granted os1 os2 \<or> hd = Some ?h" by auto
    have r2: "runs_to os os2" using t(2) h'(1) by (rule runs_to_trans)
    show ?thesis
    proof (cases hd)
      case None
      then have "\<not> granted os os2" using h'(2) granted_right [OF _ t(2)] by auto
      moreover have "http_send_json_with_thread status body tid (os, c) = (False, os2, c)"
        using th Some n h None by (simp add: http_send_json_with_thread_def Let_def)
      ultimately show ?thesis using writes_nothing [OF ne r2] by simp
    next
      case h_some: (Some hdr)
      then have hdr: "hdr = ?h" using h'(2) by auto
      obtain ok1 c1 where s1: "send_all hdr c = (ok1, c1)" by fastforce
      obtain ok2 c2 where s2: "send_all body c1 = (ok2, c2)" by fastforce
      obtain ok3 c3 where s3: "send_all [CHR 0x0A] c2 = (ok3, c3)" by fastforce
      have res: "http_send_json_with_thread status body tid (os, c) =
          (if \<not> ok1 then (False, os2, c1) else if \<not> ok2 then (False, os2, c2)
           else if needs_newline body then (ok3, os2, c3) else (True, os2, c2))"
        using th Some n h h_some s1 s2 s3 by (simp add: http_send_json_with_thread_def Let_def)
      note d = send_all_sends [OF s1] send_all_sends [OF s2] send_all_sends [OF s3]
      have whole: "?txt = hdr @ payload body" by (simp add: response_text_def hdr t(1))
      show ?thesis
      proof (cases ok1)
        case False
        then have "sends c ?txt False c1" using d(1) by (auto simp: whole intro: sends_stop)
        then show ?thesis using writes_sends [OF _ r2] False by (simp add: res)
      next
        case True1: True
        show ?thesis
        proof (cases ok2)
          case False
          have "sends c1 (payload body) False c2"
            using d(2) False sends_stop [of c1 body c2 "[CHR 0x0A]"] by (auto simp: payload_def)
          then have "sends c ?txt False c2" using d(1) True1 by (auto simp: whole intro: sends_append)
          then show ?thesis using writes_sends [OF _ r2] False True1 by (simp add: res)
        next
          case True
          have "sends c1 (payload body) (needs_newline body \<longrightarrow> ok3) (if needs_newline body then c3 else c2)"
            using d(2,3) True sends_append [of c1 body c2 "[CHR 0x0A]"] by (auto simp: payload_def)
          then have "sends c ?txt (needs_newline body \<longrightarrow> ok3) (if needs_newline body then c3 else c2)"
            using d(1) True1 by (auto simp: whole intro: sends_append)
          from writes_sends [OF this r2] show ?thesis using True True1 by (auto simp: res)
        qed
      qed
    qed
  qed
qed

subsection \<open>Reading is safe for every script\<close>

text \<open>The bytes the peer still sends.\<close>

definition bytes_of :: "recv_event list \<Rightarrow> string" where
  "bytes_of es = concat (map (\<lambda>e. case e of Arrives bs \<Rightarrow> bs | _ \<Rightarrow> []) es)"

lemma bytes_of_simps [simp]:
  "bytes_of [] = []" "bytes_of (Arrives bs # es) = bs @ bytes_of es"
  "bytes_of (Recv_Interrupted # es) = bytes_of es" "bytes_of (Recv_Broken # es) = bytes_of es"
  by (simp_all add: bytes_of_def)

text \<open>No error, and no empty read before the end.\<close>

definition recv_works :: "conn \<Rightarrow> bool" where
  "recv_works c \<longleftrightarrow> (\<forall>e\<in>set (incoming c). e \<noteq> Recv_Broken \<and> e \<noteq> Arrives [])"

text \<open>What no call on the receiving side touches.\<close>

definition same_out :: "conn \<Rightarrow> conn \<Rightarrow> bool" where
  "same_out c c' \<longleftrightarrow> outgoing c' = outgoing c \<and> sent c' = sent c"

lemma same_out_refl [simp]: "same_out c c"
  by (simp add: same_out_def)

lemma same_out_trans [trans]: "same_out a b \<Longrightarrow> same_out b c \<Longrightarrow> same_out a c"
  by (simp add: same_out_def)

lemma recv_cases:
  assumes "recv len c = (r, c')"
  shows "same_out c c'"
    and "r = Result bytes \<Longrightarrow> length bytes \<le> len \<and> bytes_of (incoming c) = bytes @ bytes_of (incoming c')"
    and "r = Eintr \<Longrightarrow> bytes_of (incoming c) = bytes_of (incoming c')"
    and "recv_works c \<Longrightarrow> r \<noteq> Error \<and> recv_works c'"
    and "recv_works c \<Longrightarrow> r = Result [] \<Longrightarrow> 0 < len \<Longrightarrow> bytes_of (incoming c) = []"
  using assms
  by (auto simp: recv_def recv_works_def same_out_def split: list.splits recv_event.splits if_splits)

lemma buffer_store_ok:
  "length buffer + length bytes \<le> HTTP_MAX_REQUEST \<Longrightarrow> buffer_store buffer bytes = Some (buffer @ bytes)"
  by (simp add: buffer_store_def)

text \<open>The first loop: it returns, within the buffer, and with \<open>headers_end\<close> where \<open>strstr\<close> finds it.\<close>

definition headers_read :: "(string + string \<times> string option) \<Rightarrow> conn \<Rightarrow> conn \<Rightarrow> string \<Rightarrow> bool" where
  "headers_read r c c' buffer \<longleftrightarrow> same_out c c' \<and>
     (case r of Inl err \<Rightarrow> True
      | Inr (buffer', he) \<Rightarrow> length buffer' \<le> HTTP_MAX_REQUEST \<and>
          buffer @ bytes_of (incoming c) = buffer' @ bytes_of (incoming c') \<and>
          (case he of None \<Rightarrow> length buffer' = HTTP_MAX_REQUEST \<and> (buffer' = buffer \<or> strstr (cstr buffer') (CRLF @ CRLF) = None)
           | Some h \<Rightarrow> strstr (cstr buffer') (CRLF @ CRLF) = Some h))"

lemma read_headers_ok:
  "length buffer \<le> HTTP_MAX_REQUEST \<Longrightarrow>
   \<exists>r c'. read_headers buffer c = Some (r, c') \<and> headers_read r c c' buffer"
proof (induction buffer c rule: read_headers.induct)
  case (1 buffer c)
  show ?case
  proof (cases "length buffer < HTTP_MAX_REQUEST")
    case False
    then show ?thesis using "1.prems" by (simp add: read_headers.simps [of buffer] headers_read_def)
  next
    case True
    obtain r c1 where rv: "recv (HTTP_MAX_REQUEST - length buffer) c = (r, c1)" by fastforce
    note rc = recv_cases [OF rv]
    have nn: "\<not> \<not> length buffer < HTTP_MAX_REQUEST" using True by simp
    show ?thesis
    proof (cases r)
      case Error
      then show ?thesis using rv rc(1) True by (simp add: read_headers.simps [of buffer] headers_read_def)
    next
      case Eintr
      from "1.IH"(2) [OF nn rv [symmetric] Eintr "1.prems"] obtain r' c' where
        r': "read_headers buffer c1 = Some (r', c')" "headers_read r' c1 c' buffer" by blast
      have "read_headers buffer c = Some (r', c')"
        using rv Eintr True r'(1) by (simp add: read_headers.simps [of buffer c])
      moreover have "headers_read r' c c' buffer"
        using r'(2) rc(1) rc(3) [OF Eintr] unfolding headers_read_def
        by (auto split: sum.splits option.splits intro: same_out_trans)
      ultimately show ?thesis by blast
    next
      case (Result bytes)
      show ?thesis
      proof (cases "bytes = []")
        case True
        then show ?thesis using rv rc(1) Result nn by (simp add: read_headers.simps [of buffer] headers_read_def)
      next
        case ne: False
        have len: "length (buffer @ bytes) \<le> HTTP_MAX_REQUEST"
          and b: "bytes_of (incoming c) = bytes @ bytes_of (incoming c1)"
          using rc(2) [OF Result] True by auto
        have st: "buffer_store buffer bytes = Some (buffer @ bytes)" using len by (intro buffer_store_ok) simp
        show ?thesis
        proof (cases "strstr (cstr (buffer @ bytes)) (CRLF @ CRLF)")
          case (Some he)
          then have "read_headers buffer c = Some (Inr (buffer @ bytes, Some he), c1)"
            using rv Result ne st True by (simp add: read_headers.simps [of buffer])
          then show ?thesis using Some rc(1) b len by (simp add: headers_read_def)
        next
          case None
          from "1.IH"(1) [OF nn rv [symmetric] Result ne st None len] obtain r' c' where
            r': "read_headers (buffer @ bytes) c1 = Some (r', c')" "headers_read r' c1 c' (buffer @ bytes)" by blast
          have "read_headers buffer c = Some (r', c')"
            using rv Result ne st True None r'(1) by (simp add: read_headers.simps [of buffer])
          moreover have "headers_read r' c c' buffer"
            using r'(2) rc(1) b None unfolding headers_read_def
            by (auto split: sum.splits option.splits intro: same_out_trans)
          ultimately show ?thesis by blast
        qed
      qed
    qed
  qed
qed

text \<open>The second loop.\<close>

lemma read_body_ok:
  "needed \<le> HTTP_MAX_REQUEST \<Longrightarrow>
   \<exists>r c'. read_body needed buffer c = Some (r, c') \<and> same_out c c' \<and>
     (\<forall>buffer'. r = Inr buffer' \<longrightarrow> needed \<le> length buffer' \<and> buffer @ bytes_of (incoming c) = buffer' @ bytes_of (incoming c')) \<and>
     (recv_works c \<and> needed \<le> length buffer + length (bytes_of (incoming c)) \<longrightarrow> (\<exists>buffer'. r = Inr buffer'))"
proof (induction needed buffer c rule: read_body.induct)
  case (1 needed buffer c)
  show ?case
  proof (cases "length buffer < needed")
    case False
    then show ?thesis by (simp add: read_body.simps [of needed])
  next
    case True
    obtain r c1 where rv: "recv (needed - length buffer) c = (r, c1)" by fastforce
    note rc = recv_cases [OF rv]
    have nn: "\<not> \<not> length buffer < needed" using True by simp
    show ?thesis
    proof (cases r)
      case Error
      then show ?thesis using rv rc(1,4) True by (auto simp: read_body.simps [of needed])
    next
      case Eintr
      from "1.IH"(2) [OF nn rv [symmetric] Eintr "1.prems"] rv rc(1,3,4) Eintr True show ?thesis
        by (auto simp: read_body.simps [of needed buffer c] intro: same_out_trans)
    next
      case (Result bytes)
      show ?thesis
      proof (cases "bytes = []")
        case True
        then show ?thesis using rv rc(1) rc(5) Result nn by (auto simp: read_body.simps [of needed])
      next
        case ne: False
        have len: "length buffer + length bytes \<le> HTTP_MAX_REQUEST"
          and b: "bytes_of (incoming c) = bytes @ bytes_of (incoming c1)"
          using rc(2) [OF Result] True "1.prems" by auto
        have st: "buffer_store buffer bytes = Some (buffer @ bytes)" using len by (rule buffer_store_ok)
        have "read_body needed buffer c = read_body needed (buffer @ bytes) c1"
          using rv Result ne st True by (simp add: read_body.simps [of needed buffer c])
        with "1.IH"(1) [OF nn rv [symmetric] Result ne st "1.prems"] rc(1,4) b show ?thesis
          by (auto intro: same_out_trans)
      qed
    qed
  qed
qed

end
