(* ===== verification/HttpText.thy ===== *)
theory HttpText
  imports HttpCorrect
begin

section \<open>Header text: lines, searching and the request line\<close>

text \<open>
  A well-formed head is lines, each not empty and without CR or NUL, each ended by CRLF, and an
  empty line. The searches of \<open>http.c\<close> find in it what they look for, whatever bytes follow.
\<close>

subsection \<open>\<open>strstr\<close>\<close>

lemma strstr_here: "take (length needle) s = needle \<Longrightarrow> strstr s needle = Some s"
  by (simp add: strstr.simps)

lemma strstr_step: "take (length needle) (c # s) \<noteq> needle \<Longrightarrow> strstr (c # s) needle = strstr s needle"
  by (simp add: strstr.simps [of "c # s"])

lemma strstr_skip: "n \<notin> set h \<Longrightarrow> strstr (h @ s) (n # needle) = strstr s (n # needle)"
proof (induction h)
  case (Cons c h)
  then have "strstr ((c # h) @ s) (n # needle) = strstr (h @ s) (n # needle)"
    using strstr_step [of "n # needle" c "h @ s"] by auto
  then show ?case using Cons by simp
qed simp

text \<open>What is found in a prefix is found in the whole.\<close>

lemma strstr_extend: "strstr s needle = Some r \<Longrightarrow> strstr (s @ t) needle = Some (r @ t)"
proof (induction s needle arbitrary: r rule: strstr.induct)
  case (1 s needle)
  show ?case
  proof (cases "take (length needle) s = needle")
    case True
    then have "length needle \<le> length s" by (metis length_take min_def nat_le_linear)
    then have "take (length needle) (s @ t) = needle" using True by simp
    moreover have "r = s" using "1.prems" True by (simp add: strstr.simps [of s])
    ultimately show ?thesis by (simp add: strstr_here)
  next
    case False
    then obtain c s' where s: "s = c # s'" "strstr s' needle = Some r"
      using "1.prems" by (auto simp: strstr.simps [of s] split: list.splits)
    have "length needle \<le> length s" using strstr_length [OF s(2)] strstr_length [OF "1.prems"] by simp
    then have "take (length needle) (c # s' @ t) \<noteq> needle" using False s(1) by (metis append_Cons take_append diff_is_0_eq take0 append_Nil2)
    then have "strstr (s @ t) needle = strstr (s' @ t) needle" using s(1) by (simp add: strstr_step)
    then show ?thesis using "1.IH" [OF False s(1) s(2)] by simp
  qed
qed

subsection \<open>C strings in a buffer\<close>

lemma cstr_plain: "CHR 0x00 \<notin> set h \<Longrightarrow> cstr (h @ s) = h @ cstr s"
  by (induction h) (auto simp: cstr_def)

lemma cstr_append: "\<exists>t'. cstr (s @ t) = cstr s @ t'"
  by (induction s) (auto simp: cstr_def)

lemma cstr_prefix: "\<exists>t. s = cstr s @ t"
  unfolding cstr_def by (metis takeWhile_dropWhile_id)

subsection \<open>Lines\<close>

definition plain_line :: "string \<Rightarrow> bool" where
  "plain_line h \<longleftrightarrow> h \<noteq> [] \<and> CHR 0x0D \<notin> set h \<and> CHR 0x00 \<notin> set h"

definition lines_text :: "string list \<Rightarrow> string" where
  "lines_text hs = concat (map (\<lambda>h. h @ CRLF) hs)"

lemma lines_text_simps [simp]:
  "lines_text [] = []" "lines_text (h # hs) = h @ CRLF @ lines_text hs"
  by (simp_all add: lines_text_def)

lemma lines_text_append [simp]: "lines_text (hs @ ks) = lines_text hs @ lines_text ks"
  by (induction hs) simp_all

lemma lines_text_no_nul: "\<forall>h\<in>set hs. plain_line h \<Longrightarrow> CHR 0x00 \<notin> set (lines_text hs)"
  by (induction hs) (auto simp: plain_line_def)

lemma find_line_end:
  assumes "plain_line h"
  shows "strstr (h @ CRLF @ s) CRLF = Some (CRLF @ s)"
proof -
  have "strstr (h @ CRLF @ s) CRLF = strstr (CRLF @ s) CRLF"
    by (rule strstr_skip) (use assms in \<open>simp add: plain_line_def\<close>)
  also have "\<dots> = Some (CRLF @ s)" by (rule strstr_here) simp
  finally show ?thesis .
qed

lemma find_head_end:
  "\<forall>h\<in>set hs. plain_line h \<Longrightarrow> hs \<noteq> [] \<Longrightarrow>
   strstr (lines_text hs @ CRLF @ s) (CRLF @ CRLF) = Some (CRLF @ CRLF @ s)"
proof (induction hs)
  case (Cons h hs)
  have skip: "strstr (h @ CRLF @ t) (CRLF @ CRLF) = strstr (CRLF @ t) (CRLF @ CRLF)" for t
    using strstr_skip [of "CHR 0x0D" h "CRLF @ t" "CHR 0x0A # CRLF"] Cons.prems by (simp add: plain_line_def)
  show ?case
  proof (cases hs)
    case Nil
    have "strstr (CRLF @ CRLF @ s) (CRLF @ CRLF) = Some (CRLF @ CRLF @ s)" by (rule strstr_here) simp
    then show ?thesis using skip [of "CRLF @ s"] Nil by simp
  next
    case (Cons k ks)
    obtain c k' where k: "k = c # k'" "c \<noteq> CHR 0x0D"
      using \<open>\<forall>h\<in>set (h # hs). plain_line h\<close> Cons by (cases k) (auto simp: plain_line_def)
    let ?t = "lines_text hs @ CRLF @ s"
    obtain u where t: "?t = c # u" by (simp add: Cons k)
    have "strstr (CRLF @ ?t) (CRLF @ CRLF) = strstr (CHR 0x0A # ?t) (CRLF @ CRLF)"
      unfolding t using strstr_step [of "CRLF @ CRLF" "CHR 0x0D" "CHR 0x0A # c # u"] k(2) by simp
    also have "\<dots> = strstr ?t (CRLF @ CRLF)"
      using strstr_step [of "CRLF @ CRLF" "CHR 0x0A" ?t] by simp
    also have "\<dots> = Some (CRLF @ CRLF @ s)"
      using Cons.IH \<open>\<forall>h\<in>set (h # hs). plain_line h\<close> Cons by simp
    finally show ?thesis using skip [of ?t] by simp
  qed
qed simp

subsection \<open>The Content-Length header\<close>

definition is_content_length :: "string \<Rightarrow> bool" where
  "is_content_length h \<longleftrightarrow> 15 \<le> length h \<and> strncasecmp_eq h ''Content-Length:'' 15"

lemma is_content_length_prefix:
  "15 \<le> length h \<Longrightarrow> strncasecmp_eq (h @ s) ''Content-Length:'' 15 = strncasecmp_eq h ''Content-Length:'' 15"
  by (simp add: strncasecmp_eq_def)

text \<open>One line of the loop.\<close>

lemma content_length_line:
  assumes "plain_line h" "he = CRLF @ CRLF @ s" "length (CRLF @ CRLF @ s) \<le> length (CRLF @ t)"
  shows "content_length_loop he (h @ CRLF @ t) =
    (if is_content_length h then strtoul (dropWhile isspace (drop 15 h @ CRLF @ t)) else content_length_loop he t)"
proof -
  have h: "h \<noteq> []" using assms(1) by (simp add: plain_line_def)
  have "length (CRLF @ t) < length (h @ CRLF @ t)" using h by simp
  then have "length he < length (h @ CRLF @ t)" using assms(2,3) by (simp only: le_less_trans)
  moreover have "\<not> length (CRLF @ t) < length he" using assms(2,3) by simp
  moreover have "length (h @ CRLF @ t) - length (CRLF @ t) = length h" by simp
  moreover have "strstr (h @ CRLF @ t) CRLF = Some (CRLF @ t)" by (rule find_line_end [OF assms(1)])
  ultimately have "content_length_loop he (h @ CRLF @ t) =
      (if 15 \<le> length h \<and> strncasecmp_eq (h @ CRLF @ t) ''Content-Length:'' 15
       then strtoul (dropWhile isspace (drop 15 (h @ CRLF @ t)))
       else content_length_loop he (drop 2 (CRLF @ t)))"
    using h by (subst content_length_loop.simps) (simp only: Let_def option.case if_True if_False not_le split: if_splits, simp)
  then show ?thesis
    using is_content_length_prefix [of h "CRLF @ t"] by (auto simp: is_content_length_def)
qed

text \<open>
  The loop over the header lines \<open>hs\<close> after the request line: without a \<open>Content-Length\<close> header the
  length is 0; the first one decides, with any case of its letters and any blanks before the number.
\<close>

lemma content_length_none:
  "\<forall>h\<in>set hs. plain_line h \<and> \<not> is_content_length h \<Longrightarrow>
   content_length_loop (CRLF @ CRLF @ s) (lines_text hs @ CRLF @ s) = Some 0"
proof (induction hs)
  case Nil
  then show ?case by (subst content_length_loop.simps) simp
next
  case (Cons h hs)
  have "content_length_loop (CRLF @ CRLF @ s) (h @ CRLF @ lines_text hs @ CRLF @ s) =
      content_length_loop (CRLF @ CRLF @ s) (lines_text hs @ CRLF @ s)"
    using Cons.prems by (subst content_length_line [where s = s]) simp_all
  then show ?case using Cons by simp
qed

definition blank :: "char \<Rightarrow> bool" where
  "blank c \<longleftrightarrow> c = CHR '' '' \<or> c = CHR 0x09"

lemma blank_space: "blank c \<Longrightarrow> isspace c"
  unfolding blank_def by (erule disjE) (simp_all add: isspace_def)

lemma not_blank: "\<not> blank (CHR 0x0D)" "\<not> blank (CHR 0x00)"
  by (simp_all add: blank_def)

definition length_header :: "string \<Rightarrow> nat \<Rightarrow> bool" where
  "length_header h n \<longleftrightarrow> (\<exists>name blanks. h = name @ blanks @ dec_digits n \<and> length name = 15 \<and>
     strcasecmp_eq name ''Content-Length:'' \<and> (\<forall>c\<in>set blanks. blank c) \<and>
     CHR 0x0D \<notin> set name \<and> CHR 0x00 \<notin> set name)"

lemma length_header_printed: "length_header (''Content-Length: '' @ dec_digits n) n"
  unfolding length_header_def
  by (intro exI [of _ "''Content-Length:''"] exI [of _ "'' ''"]) (simp add: strcasecmp_eq_def blank_def)

lemma dec_digits_chars: "c \<in> set (dec_digits n) \<Longrightarrow> isdigit c"
  using dec_digits_digits by blast

lemma not_digit: "\<not> isdigit (CHR 0x0D)" "\<not> isdigit (CHR 0x0A)" "\<not> isdigit (CHR 0x00)" "\<not> isdigit (CHR '' '')"
  by (simp_all add: isdigit_def)

lemma length_header_plain:
  assumes "length_header h n"
  shows "plain_line h" "is_content_length h"
proof -
  obtain name blanks where h: "h = name @ blanks @ dec_digits n" "length name = 15"
      "strcasecmp_eq name ''Content-Length:''" "\<forall>c\<in>set blanks. blank c"
      "CHR 0x0D \<notin> set name" "CHR 0x00 \<notin> set name"
    using assms unfolding length_header_def by blast
  have "CHR 0x0D \<notin> set (dec_digits n)" "CHR 0x00 \<notin> set (dec_digits n)"
    using dec_digits_chars not_digit by blast+
  moreover have "CHR 0x0D \<notin> set blanks" "CHR 0x00 \<notin> set blanks" using h(4) not_blank by blast+
  ultimately show "plain_line h" using h(2,5,6) by (auto simp: plain_line_def h(1))
  have "take 15 h = name" using h(1,2) by simp
  then show "is_content_length h" using h(1-3) by (simp add: is_content_length_def strncasecmp_eq_def)
qed

lemma strtoul_digits:
  assumes "n \<le> SIZE_MAX" "rest = [] \<or> \<not> isdigit (hd rest)"
  shows "strtoul (dec_digits n @ rest) = Some n"
proof -
  obtain c cs where d: "dec_digits n = c # cs" "isdigit c" using dec_digits_Cons by blast
  then have "dropWhile isspace (dec_digits n @ rest) = dec_digits n @ rest"
    by (simp add: isdigit_not_space)
  moreover have "sign_part (dec_digits n @ rest) = (False, dec_digits n @ rest)"
    using d by (simp add: sign_part_digit)
  ultimately show ?thesis using assms by (simp add: strtoul_def dec_digits_takeWhile)
qed

lemma content_length_found:
  assumes "\<forall>h\<in>set hs. plain_line h \<and> \<not> is_content_length h" "length_header cl n" "n \<le> SIZE_MAX"
  shows "content_length_loop (CRLF @ CRLF @ s) (lines_text (hs @ cl # ks) @ CRLF @ s) = Some n"
  using assms(1)
proof (induction hs)
  case Nil
  note cl = length_header_plain [OF assms(2)]
  obtain name blanks where h: "cl = name @ blanks @ dec_digits n" "length name = 15"
      "\<forall>c\<in>set blanks. blank c"
    using assms(2) unfolding length_header_def by blast
  let ?t = "lines_text ks @ CRLF @ s"
  have blank: "\<forall>c\<in>set blanks. isspace c" using h(3) blank_space by blast
  obtain c cs where d: "dec_digits n = c # cs" "isdigit c" using dec_digits_Cons by blast
  have "drop 15 cl @ CRLF @ ?t = blanks @ dec_digits n @ CRLF @ ?t" using h(1,2) by simp
  moreover have "dropWhile isspace (blanks @ dec_digits n @ CRLF @ ?t) = dec_digits n @ CRLF @ ?t"
    using blank d by (simp add: dropWhile_append2 isdigit_not_space)
  ultimately have "strtoul (dropWhile isspace (drop 15 cl @ CRLF @ ?t)) = Some n"
    using strtoul_digits [OF assms(3), of "CRLF @ ?t"] by (simp add: not_digit)
  then show ?case using content_length_line [OF cl(1), of "CRLF @ CRLF @ s" s ?t] cl(2) by simp
next
  case (Cons h hs)
  have "content_length_loop (CRLF @ CRLF @ s) (h @ CRLF @ lines_text (hs @ cl # ks) @ CRLF @ s) =
      content_length_loop (CRLF @ CRLF @ s) (lines_text (hs @ cl # ks) @ CRLF @ s)"
    using Cons.prems by (subst content_length_line [where s = s]) simp_all
  then show ?case using Cons by simp
qed

text \<open>The number the headers \<open>hs\<close> announce.\<close>

definition announces :: "string list \<Rightarrow> nat \<Rightarrow> bool" where
  "announces hs n \<longleftrightarrow> (\<forall>h\<in>set hs. plain_line h) \<and>
     ((\<forall>h\<in>set hs. \<not> is_content_length h) \<and> n = 0 \<or>
      (\<exists>pre cl post. hs = pre @ cl # post \<and> (\<forall>h\<in>set pre. \<not> is_content_length h) \<and> length_header cl n))"

lemma parse_content_length_head:
  assumes "plain_line first" "announces hs n" "n \<le> SIZE_MAX"
  shows "parse_content_length (lines_text (first # hs) @ CRLF @ s) (CRLF @ CRLF @ s) = Some n"
proof -
  have "strstr (lines_text (first # hs) @ CRLF @ s) CRLF = Some (CRLF @ lines_text hs @ CRLF @ s)"
    using find_line_end [OF assms(1), of "lines_text hs @ CRLF @ s"] by simp
  moreover have "content_length_loop (CRLF @ CRLF @ s) (lines_text hs @ CRLF @ s) = Some n"
    using assms(2,3) content_length_none [of hs s] content_length_found unfolding announces_def by auto
  ultimately show ?thesis by (simp add: parse_content_length_def)
qed

subsection \<open>The request line\<close>

definition plain_word :: "nat \<Rightarrow> string \<Rightarrow> bool" where
  "plain_word width w \<longleftrightarrow> w \<noteq> [] \<and> length w \<le> width \<and> (\<forall>c\<in>set w. \<not> isspace c \<and> c \<noteq> CHR 0x00)"

lemma scan_word_plain:
  assumes "plain_word width w"
  shows "scan_word width (w @ CHR '' '' # s) = Some (w, CHR '' '' # s)"
    "scan_word width (CHR '' '' # w @ CHR '' '' # s) = Some (w, CHR '' '' # s)"
proof -
  obtain c cs where w: "w = c # cs" "\<not> isspace c" using assms by (cases w) (auto simp: plain_word_def)
  have sp: "isspace (CHR '' '')" by (simp add: isspace_def)
  have "dropWhile isspace (w @ CHR '' '' # s) = w @ CHR '' '' # s" using w by simp
  moreover have "takeWhile (\<lambda>c. \<not> isspace c) (w @ CHR '' '' # s) = w"
    using assms sp by (subst takeWhile_append2) (auto simp: plain_word_def)
  moreover have "0 < width" using assms by (cases w) (auto simp: plain_word_def)
  ultimately show "scan_word width (w @ CHR '' '' # s) = Some (w, CHR '' '' # s)"
    "scan_word width (CHR '' '' # w @ CHR '' '' # s) = Some (w, CHR '' '' # s)"
    using assms sp by (simp_all add: scan_word_def plain_word_def)
qed

lemma scan_request_line_plain:
  "plain_word 7 m \<Longrightarrow> plain_word 127 p \<Longrightarrow> scan_request_line (m @ CHR '' '' # p @ CHR '' '' # s) = Some (m, p)"
  by (simp add: scan_request_line_def scan_word_plain)

end
