(* ===== verification/HttpRead.thy ===== *)
theory HttpRead
  imports HttpText
begin

section \<open>Reading a request\<close>

text \<open>
  \<open>http_read_request\<close> returns for every script of the peer, with a request within its arrays; and
  from a peer that sends a well-formed request it reads exactly that request, however the bytes
  are cut into segments and whatever follows them.
\<close>

subsection \<open>Every script\<close>

definition request_bounds :: "HttpRequest \<Rightarrow> bool" where
  "request_bounds req \<longleftrightarrow> length (req_method req) < 8 \<and> length (req_path req) < 128 \<and>
     length (req_body req) = req_body_len req \<and> req_body_len req \<le> HTTP_MAX_BODY"

lemma scan_word_length: "scan_word width s = Some (w, r) \<Longrightarrow> length w \<le> width"
  by (auto simp: scan_word_def Let_def split: if_splits)

lemma scan_request_line_length: "scan_request_line s = Some (m, p) \<Longrightarrow> length m \<le> 7 \<and> length p \<le> 127"
  by (auto simp: scan_request_line_def split: option.splits dest!: scan_word_length)

lemma http_read_request_returns:
  "\<exists>r c'. http_read_request c = Some (r, c') \<and> same_out c c' \<and> (\<forall>req. r = Inr req \<longrightarrow> request_bounds req)"
proof -
  obtain r1 c1 where h: "read_headers [] c = Some (r1, c1)" "headers_read r1 c c1 []"
    using read_headers_ok [of "[]" c] by auto
  have so: "same_out c c1" using h(2) by (simp add: headers_read_def)
  show ?thesis
  proof (cases r1)
    case (Inl err)
    then show ?thesis using h(1) so by (simp add: http_read_request_def)
  next
    case (Inr br)
    obtain buffer he where br: "br = (buffer, he)" by fastforce
    show ?thesis
    proof (cases he)
      case None
      then show ?thesis using h(1) so Inr br by (simp add: http_read_request_def)
    next
      case (Some e)
      show ?thesis
      proof (cases "scan_request_line (cstr buffer)")
        case None
        then show ?thesis using h(1) so Inr br Some by (simp add: http_read_request_def)
      next
        case line: (Some mp)
        obtain m p where mp: "mp = (m, p)" by fastforce
        show ?thesis
        proof (cases "parse_content_length (cstr buffer) e")
          case None
          then show ?thesis using h(1) so Inr br Some line mp by (simp add: http_read_request_def)
        next
          case cl: (Some n)
          let ?hl = "length (cstr buffer) - length e + 4"
          show ?thesis
          proof (cases "n > HTTP_MAX_BODY \<or> ?hl + n > HTTP_MAX_REQUEST")
            case True
            then show ?thesis using h(1) so Inr br Some line mp cl by (auto simp: http_read_request_def Let_def)
          next
            case False
            then have fits: "?hl + n \<le> HTTP_MAX_REQUEST" "n \<le> HTTP_MAX_BODY" by auto
            obtain r2 c2 where b: "read_body (?hl + n) buffer c1 = Some (r2, c2)" "same_out c1 c2"
                "\<And>b2. r2 = Inr b2 \<Longrightarrow> ?hl + n \<le> length b2"
              using read_body_ok [OF fits(1), of buffer c1] by blast
            have eq: "http_read_request c =
                (case r2 of Inl err \<Rightarrow> Some (Inl err, c2)
                 | Inr b2 \<Rightarrow> map_option (\<lambda>body. (Inr \<lparr>req_method = m, req_path = p, req_body = body, req_body_len = n\<rparr>, c2))
                     (copy_body b2 ?hl n))"
              using h(1) Inr br Some line mp cl b(1) False
              by (simp add: http_read_request_def Let_def split: sum.splits)
            show ?thesis
            proof (cases r2)
              case (Inl err)
              then show ?thesis using eq same_out_trans [OF so b(2)] by simp
            next
              case (Inr b2)
              have "length m < 8" "length p < 128" using scan_request_line_length [of "cstr buffer" m p] line mp by auto
              then show ?thesis using eq same_out_trans [OF so b(2)] b(3) [OF Inr] fits(2) Inr
                by (auto simp: copy_body_def request_bounds_def)
            qed
          qed
        qed
      qed
    qed
  qed
qed

subsection \<open>Well-formed requests\<close>

definition request_line :: "string \<Rightarrow> string \<Rightarrow> string \<Rightarrow> string" where
  "request_line m p v = m @ CHR '' '' # p @ CHR '' '' # v"

definition request_head :: "string \<Rightarrow> string \<Rightarrow> string \<Rightarrow> string list \<Rightarrow> string" where
  "request_head m p v hs = lines_text (request_line m p v # hs) @ CRLF"

definition request_ok :: "string \<Rightarrow> string \<Rightarrow> string \<Rightarrow> string list \<Rightarrow> string \<Rightarrow> bool" where
  "request_ok m p v hs body \<longleftrightarrow> plain_word 7 m \<and> plain_word 127 p \<and> CHR 0x0D \<notin> set v \<and> CHR 0x00 \<notin> set v \<and>
     announces hs (length body) \<and> length body \<le> HTTP_MAX_BODY \<and>
     length (request_head m p v hs) + length body \<le> HTTP_MAX_REQUEST"

lemma plain_word_chars: "plain_word n w \<Longrightarrow> CHR 0x0D \<notin> set w \<and> CHR 0x00 \<notin> set w"
proof -
  assume "plain_word n w"
  then have "\<forall>c\<in>set w. \<not> isspace c" "\<forall>c\<in>set w. c \<noteq> CHR 0x00" by (simp_all add: plain_word_def)
  moreover have "isspace (CHR 0x0D)" by (simp add: isspace_def)
  ultimately show ?thesis by blast
qed

lemma request_lines_plain:
  assumes "request_ok m p v hs body"
  shows "\<forall>h\<in>set (request_line m p v # hs). plain_line h"
proof -
  have "plain_word 7 m" "plain_word 127 p" "CHR 0x0D \<notin> set v" "CHR 0x00 \<notin> set v" "\<forall>h\<in>set hs. plain_line h"
    using assms by (simp_all add: request_ok_def announces_def)
  then show ?thesis using plain_word_chars [of 7 m] plain_word_chars [of 127 p]
    by (simp add: plain_line_def request_line_def)
qed

text \<open>The head is found in every buffer that starts with it.\<close>

lemma head_found:
  assumes "\<forall>h\<in>set ls. plain_line h" "ls \<noteq> []"
  shows "strstr (cstr ((lines_text ls @ CRLF) @ t)) (CRLF @ CRLF) = Some (CRLF @ CRLF @ cstr t)"
proof -
  have "cstr (lines_text ls @ CRLF @ t) = lines_text ls @ CRLF @ cstr t"
    using cstr_plain [of "lines_text ls @ CRLF" t] lines_text_no_nul [OF assms(1)] by simp
  then show ?thesis using find_head_end [OF assms, of "cstr t"] by simp
qed

lemma prefix_covers:
  "b @ r = h @ t \<Longrightarrow> length h \<le> length b \<Longrightarrow> \<exists>u. b = h @ u \<and> t = u @ r"
  by (auto simp: append_eq_append_conv2)

text \<open>The first loop ends with the head in the buffer.\<close>

lemma read_headers_finds:
  assumes head: "\<And>t. strstr (cstr (head @ t)) (CRLF @ CRLF) \<noteq> None" and small: "length head \<le> HTTP_MAX_REQUEST"
  shows "recv_works c \<Longrightarrow> length buffer \<le> HTTP_MAX_REQUEST \<Longrightarrow> buffer @ bytes_of (incoming c) = head @ t \<Longrightarrow>
    strstr (cstr buffer) (CRLF @ CRLF) = None \<Longrightarrow>
    \<exists>buffer' he c'. read_headers buffer c = Some (Inr (buffer', Some he), c') \<and> recv_works c'"
proof (induction buffer c rule: read_headers.induct)
  case (1 buffer c)
  have short: "\<not> length head \<le> length buffer"
    using prefix_covers [OF "1.prems"(3)] head "1.prems"(4) by metis
  then have nn: "\<not> \<not> length buffer < HTTP_MAX_REQUEST" using small by simp
  have more: "bytes_of (incoming c) \<noteq> []"
    using short "1.prems"(3) by (metis append_Nil2 length_append le_add1)
  obtain r c1 where rv: "recv (HTTP_MAX_REQUEST - length buffer) c = (r, c1)" by fastforce
  note rc = recv_cases [OF rv]
  have w: "recv_works c1" "r \<noteq> Error" using rc(4) "1.prems"(1) by auto
  show ?case
  proof (cases r)
    case Error
    then show ?thesis using w by simp
  next
    case Eintr
    from "1.IH"(2) [OF nn rv [symmetric] Eintr w(1) "1.prems"(2) _ "1.prems"(4)] rc(3) [OF Eintr] "1.prems"(3)
    show ?thesis using rv Eintr nn by (simp add: read_headers.simps [of buffer c])
  next
    case (Result bytes)
    have ne: "bytes \<noteq> []" using rc(5) [OF "1.prems"(1)] Result more nn by auto
    have len: "length (buffer @ bytes) \<le> HTTP_MAX_REQUEST"
      and b: "bytes_of (incoming c) = bytes @ bytes_of (incoming c1)"
      using rc(2) [OF Result] nn by auto
    have st: "buffer_store buffer bytes = Some (buffer @ bytes)" using len by (intro buffer_store_ok) simp
    show ?thesis
    proof (cases "strstr (cstr (buffer @ bytes)) (CRLF @ CRLF)")
      case (Some he)
      then show ?thesis using rv Result ne st nn w(1) by (simp add: read_headers.simps [of buffer c])
    next
      case None
      have "(buffer @ bytes) @ bytes_of (incoming c1) = head @ t" using "1.prems"(3) b by simp
      from "1.IH"(1) [OF nn rv [symmetric] Result ne st None w(1) len this None]
      show ?thesis using rv Result ne st nn None by (simp add: read_headers.simps [of buffer c])
    qed
  qed
qed

lemma http_read_request_reads:
  assumes ok: "request_ok m p v hs body" and works: "recv_works c"
    and bytes: "bytes_of (incoming c) = request_head m p v hs @ body @ extra"
  shows "\<exists>c'. http_read_request c =
      Some (Inr \<lparr>req_method = m, req_path = p, req_body = body, req_body_len = length body\<rparr>, c') \<and> same_out c c'"
proof -
  let ?ls = "request_line m p v # hs" and ?head = "request_head m p v hs" and ?n = "length body"
  have plain: "\<forall>h\<in>set ?ls. plain_line h" by (rule request_lines_plain [OF ok])
  have fits: "?n \<le> HTTP_MAX_BODY" "length ?head + ?n \<le> HTTP_MAX_REQUEST" and ann: "announces hs ?n"
    and words: "plain_word 7 m" "plain_word 127 p"
    using ok by (auto simp: request_ok_def)
  have found: "strstr (cstr (?head @ t)) (CRLF @ CRLF) = Some (CRLF @ CRLF @ cstr t)" for t
    using head_found [OF plain, of t] by (simp add: request_head_def)
  have "strstr (cstr []) (CRLF @ CRLF) = None" by (simp add: cstr_def strstr.simps)
  then obtain b he c1 where h: "read_headers [] c = Some (Inr (b, Some he), c1)" "recv_works c1"
    using read_headers_finds [of ?head c "[]" "body @ extra"] found fits(2) works bytes by auto
  have hr: "same_out c c1" "strstr (cstr b) (CRLF @ CRLF) = Some he"
      "b @ bytes_of (incoming c1) = ?head @ body @ extra"
    using read_headers_ok [of "[]" c] h(1) bytes by (auto simp: headers_read_def)
  obtain t' where t': "cstr (b @ bytes_of (incoming c1)) = cstr b @ t'" using cstr_append by blast
  have "Some (he @ t') = Some (CRLF @ CRLF @ cstr (body @ extra))"
    using strstr_extend [OF hr(2), of t'] t' hr(3) found [of "body @ extra"] by simp
  moreover have "take 4 he = CRLF @ CRLF" using strstr_Some [OF hr(2)] by (auto simp: numeral_eq_Suc)
  ultimately obtain s where s: "he = CRLF @ CRLF @ s" "cstr (body @ extra) = s @ t'"
    by (cases he; cases "tl he"; cases "tl (tl he)"; cases "tl (tl (tl he))") auto
  have headc: "cstr (?head @ u) = ?head @ cstr u" for u
    using cstr_plain [of ?head u] lines_text_no_nul [OF plain] by (simp add: request_head_def)
  then have cb: "cstr b = ?head @ s" using t' hr(3) s(2) by simp
  have line: "scan_request_line (cstr b) = Some (m, p)"
    using scan_request_line_plain [OF words] by (simp add: cb request_head_def request_line_def)
  have "?n \<le> SIZE_MAX" using fits(1) by (simp add: HTTP_MAX_BODY_def SIZE_MAX_def)
  then have cl: "parse_content_length (cstr b) he = Some ?n"
    using parse_content_length_head [of "request_line m p v" hs ?n s] plain ann by (simp add: cb s(1) request_head_def)
  have hl: "length (cstr b) - length he + 4 = length ?head" by (simp add: cb s(1) request_head_def)
  have "length ?head + ?n \<le> length b + length (bytes_of (incoming c1))"
    using arg_cong [OF hr(3), of length] by simp
  then obtain b2 c2 where b2: "read_body (length ?head + ?n) b c1 = Some (Inr b2, c2)" "same_out c1 c2"
      "length ?head + ?n \<le> length b2" "b2 @ bytes_of (incoming c2) = ?head @ body @ extra"
    using read_body_ok [OF fits(2), of b c1] h(2) hr(3) by auto
  have "b2 @ bytes_of (incoming c2) = (?head @ body) @ extra" using b2(4) by simp
  from prefix_covers [OF this] b2(3) obtain u where u: "b2 = (?head @ body) @ u" by auto
  then have "copy_body b2 (length ?head) ?n = Some body" using fits(1) by (simp add: copy_body_def)
  then have "http_read_request c =
      Some (Inr \<lparr>req_method = m, req_path = p, req_body = body, req_body_len = ?n\<rparr>, c2)"
    using h(1) line cl fits b2(1) by (simp add: http_read_request_def Let_def hl)
  then show ?thesis using same_out_trans [OF hr(1) b2(2)] by blast
qed

end
