(* ===== verification/HttpBody.thy ===== *)
theory HttpBody
  imports HttpText JsonCorrect
begin

section \<open>The SQL text of a request body\<close>

text \<open>
  \<open>http_extract_sql\<close> on the two forms of a body: a JSON object with the key \<open>sql\<close> (what a client
  escapes by the rules of JSON is what the server parses) and plain text between blanks.
\<close>

subsection \<open>JSON bodies\<close>

text \<open>Characters that \<open>http.c\<close> can unescape: all but the control characters without a short escape.\<close>

definition json_plain :: "char \<Rightarrow> bool" where
  "json_plain c \<longleftrightarrow> 32 \<le> code c \<or> code c = 9 \<or> code c = 10 \<or> code c = 13"

lemma push_char_simps [simp]:
  "push_char c (Inl e) = Inl e" "push_char c (Inr (out, rest)) = Inr (c # out, rest)"
  by (simp_all add: push_char_def)

lemma code_eq: "code c = code d \<Longrightarrow> c = d"
  by simp

text \<open>One escaped character.\<close>

lemma json_loop_char:
  assumes "json_plain c" "len + 1 < room"
  shows "json_string_loop room len (escape_char c @ p) = push_char c (json_string_loop room (len + 1) p)"
proof -
  consider "c = DQUOTE" | "c = BACKSLASH" | "code c = 10" | "code c = 13" | "code c = 9"
    | "c \<noteq> DQUOTE" "c \<noteq> BACKSLASH" "32 \<le> code c" using assms(1) by (auto simp: json_plain_def)
  then show ?thesis
  proof cases
    case 3
    then have "c = CHR 0x0A" using code_eq [of c "CHR 0x0A"] by simp
    then show ?thesis using assms(2) by (simp add: escape_char_def simple_escape_def)
  next
    case 4
    then have "c = CHR 0x0D" using code_eq [of c "CHR 0x0D"] by simp
    then show ?thesis using assms(2) by (simp add: escape_char_def simple_escape_def)
  next
    case 5
    then have "c = CHR 0x09" using code_eq [of c "CHR 0x09"] by simp
    then show ?thesis using assms(2) by (simp add: escape_char_def simple_escape_def)
  qed (use assms(2) in \<open>simp_all add: escape_char_def simple_escape_def\<close>)
qed

lemma json_loop_escaped:
  "\<forall>c\<in>set s. json_plain c \<Longrightarrow> len + length s < room \<Longrightarrow>
   json_string_loop room len (json_escape s @ p) =
     (case json_string_loop room (len + length s) p of Inl e \<Rightarrow> Inl e | Inr (out, rest) \<Rightarrow> Inr (s @ out, rest))"
proof (induction s arbitrary: len)
  case Nil
  then show ?case by (auto split: sum.splits)
next
  case (Cons c s)
  have "json_string_loop room len (json_escape (c # s) @ p) = push_char c (json_string_loop room (len + 1) (json_escape s @ p))"
    using json_loop_char [of c len room "json_escape s @ p"] Cons.prems by simp
  also have "json_string_loop room (len + 1) (json_escape s @ p) =
      (case json_string_loop room (len + length (c # s)) p of Inl e \<Rightarrow> Inl e | Inr (out, rest) \<Rightarrow> Inr (s @ out, rest))"
    using Cons.IH [of "len + 1"] Cons.prems by simp
  finally show ?case by (auto split: sum.splits)
qed

text \<open>A JSON object whose first member is \<open>sql\<close>, with any blanks and anything after the value.\<close>

definition json_object :: "string \<Rightarrow> string \<Rightarrow> string \<Rightarrow> string \<Rightarrow> string \<Rightarrow> string \<Rightarrow> string" where
  "json_object ws1 ws2 ws3 ws4 value rest =
     ws1 @ CHR ''{'' # ws2 @ ''\"sql\"'' @ ws3 @ CHR '':'' # ws4 @ DQUOTE # value @ DQUOTE # rest"

definition spaces :: "string \<Rightarrow> bool" where
  "spaces ws \<longleftrightarrow> (\<forall>c\<in>set ws. isspace c)"

lemma dropWhile_spaces: "spaces ws \<Longrightarrow> \<not> isspace c \<Longrightarrow> dropWhile isspace (ws @ c # s) = c # s"
  by (simp add: spaces_def dropWhile_append2)

lemma not_spaces: "\<not> isspace (CHR ''{'')" "\<not> isspace (CHR '':'')" "\<not> isspace DQUOTE"
  by (simp_all add: isspace_def)

lemma spaces_no_quote: "spaces ws \<Longrightarrow> DQUOTE \<notin> set ws"
  using not_spaces unfolding spaces_def by blast

lemma find_sql_key:
  assumes "DQUOTE \<notin> set pre"
  shows "strstr (pre @ ''\"sql\"'' @ s) ''\"sql\"'' = Some (''\"sql\"'' @ s)"
proof -
  have "strstr (pre @ ''\"sql\"'' @ s) ''\"sql\"'' = strstr (''\"sql\"'' @ s) ''\"sql\"''"
    using strstr_skip [OF assms, of "''\"sql\"'' @ s" "''sql\"''"] by simp
  also have "\<dots> = Some (''\"sql\"'' @ s)" by (rule strstr_here) simp
  finally show ?thesis .
qed

lemma extract_json_object:
  assumes "spaces ws1" "spaces ws2" "spaces ws3" "spaces ws4"
  shows "http_extract_sql (json_object ws1 ws2 ws3 ws4 value rest) room =
    ok_then (json_string_loop room 0 (value @ DQUOTE # rest)) (\<lambda>(sql, rest).
      check ''unterminated sql JSON string'' (rest \<noteq> [] \<and> hd rest = DQUOTE) (Inr sql))"
proof -
  let ?tail = "ws3 @ CHR '':'' # ws4 @ DQUOTE # value @ DQUOTE # rest"
  have body: "json_object ws1 ws2 ws3 ws4 value rest = (ws1 @ CHR ''{'' # ws2) @ ''\"sql\"'' @ ?tail"
    by (simp add: json_object_def)
  have "DQUOTE \<notin> set (ws1 @ CHR ''{'' # ws2)" using spaces_no_quote assms by simp
  from find_sql_key [OF this] have key: "strstr (json_object ws1 ws2 ws3 ws4 value rest) ''\"sql\"'' = Some (''\"sql\"'' @ ?tail)"
    unfolding body .
  have "dropWhile isspace (json_object ws1 ws2 ws3 ws4 value rest) = CHR ''{'' # ws2 @ ''\"sql\"'' @ ?tail"
    using dropWhile_spaces [OF assms(1) not_spaces(1)] by (simp add: json_object_def)
  then have "http_extract_sql (json_object ws1 ws2 ws3 ws4 value rest) room =
      extract_json_sql (json_object ws1 ws2 ws3 ws4 value rest) room"
    by (simp add: http_extract_sql_def)
  also have "\<dots> = ok_then (json_string_loop room 0 (value @ DQUOTE # rest)) (\<lambda>(sql, rest).
      check ''unterminated sql JSON string'' (rest \<noteq> [] \<and> hd rest = DQUOTE) (Inr sql))"
    using dropWhile_spaces [OF assms(3) not_spaces(2)] dropWhile_spaces [OF assms(4) not_spaces(3)]
    by (simp add: extract_json_sql_def key not_spaces del: dropWhile_eq_Nil_conv)
  finally show ?thesis .
qed

lemma http_extract_json:
  assumes "spaces ws1" "spaces ws2" "spaces ws3" "spaces ws4" "\<forall>c\<in>set sql. json_plain c" "length sql < room"
  shows "http_extract_sql (json_object ws1 ws2 ws3 ws4 (json_escape sql) rest) room = Inr sql"
  unfolding extract_json_object [OF assms(1-4)]
  using json_loop_escaped [OF assms(5), of 0 room "DQUOTE # rest"] assms(6) by simp

lemma http_extract_json_control:
  assumes "spaces ws1" "spaces ws2" "spaces ws3" "spaces ws4" "\<forall>c\<in>set pre. json_plain c" "\<not> json_plain c"
    and "length pre < room"
  shows "http_extract_sql (json_object ws1 ws2 ws3 ws4 (json_escape (pre @ c # post)) rest) room =
    Inl ''unsupported JSON escape in sql value''"
proof -
  have "c \<noteq> DQUOTE \<and> c \<noteq> BACKSLASH" using assms(6) by (auto simp: json_plain_def)
  then obtain h where h: "escape_char c = BACKSLASH # CHR ''u'' # h"
    using assms(6) by (auto simp: escape_char_def json_plain_def)
  have "json_escape (pre @ c # post) = json_escape pre @ escape_char c @ json_escape post"
    by (simp add: json_escape_def)
  then show ?thesis
    unfolding extract_json_object [OF assms(1-4)]
    using json_loop_escaped [OF assms(5), of 0 room "escape_char c @ json_escape post @ DQUOTE # rest"] assms(7)
    by (simp add: h simple_escape_def)
qed

subsection \<open>Raw bodies\<close>

lemma http_extract_raw:
  assumes "spaces ws1" "spaces ws2" "sql \<noteq> []" "\<not> isspace (hd sql)" "\<not> isspace (last sql)" "hd sql \<noteq> CHR ''{''"
    and "length sql < room" "room \<le> SIZE_MAX"
  shows "http_extract_sql (ws1 @ sql @ ws2) room = Inr sql"
proof -
  obtain c s where c: "sql = c # s" using assms(3) by (cases sql) auto
  have start: "dropWhile isspace (ws1 @ sql @ ws2) = sql @ ws2"
    using dropWhile_spaces [OF assms(1), of c "s @ ws2"] assms(4) by (simp add: c)
  have r: "rev sql = last sql # rev (butlast sql)"
    using arg_cong [OF append_butlast_last_id [OF assms(3)], of rev] by simp
  have "dropWhile isspace (rev ws2 @ rev sql) = rev sql"
    unfolding r using dropWhile_spaces [of "rev ws2" "last sql" "rev (butlast sql)"] assms(2,5) by (simp add: spaces_def)
  then have "trim_end (sql @ ws2) = sql" by (simp add: trim_end_def)
  moreover have "size_add (length sql) 1 = length sql + 1" using assms(7,8) by (intro size_add_exact) simp
  ultimately show ?thesis
    unfolding http_extract_sql_def copy_raw_sql_def Let_def start
    using assms(3,6,7) by (simp add: c)
qed

subsection \<open>Bounds\<close>

lemma json_string_loop_bounds:
  "json_string_loop room len p = Inr (sql, rest) \<Longrightarrow> len < room \<Longrightarrow>
   len + length sql < room \<and> (CHR 0x00 \<notin> set p \<longrightarrow> CHR 0x00 \<notin> set sql)"
proof (induction room len p arbitrary: sql rest rule: json_string_loop.induct)
  case (1 room len)
  then show ?case by simp
next
  case (2 room len c p)
  have push: "\<exists>sql'. sql = ch # sql' \<and> r = Inr (sql', rest)" if "push_char ch r = Inr (sql, rest)" for ch r
    using that by (auto simp: push_char_def ok_then_def split: sum.splits prod.splits)
  show ?case
  proof (cases "c = DQUOTE")
    case True
    then show ?thesis using "2.prems" by simp
  next
    case nq: False
    show ?thesis
    proof (cases "c = BACKSLASH")
      case True
      then obtain e p' ch where e: "p = e # p'" "simple_escape e = Some ch" "\<not> len + 1 \<ge> room"
          "push_char ch (json_string_loop room (len + 1) p') = Inr (sql, rest)"
        using "2.prems"(1) by (auto split: list.splits option.splits if_splits)
      from push [OF e(4)] obtain sql' where s: "sql = ch # sql'" "json_string_loop room (len + 1) p' = Inr (sql', rest)" by auto
      have "ch \<noteq> CHR 0x00 \<or> e = CHR 0x00" using e(2) by (auto simp: simple_escape_def split: if_splits)
      then show ?thesis using "2.IH"(1) [OF nq True e(1,2,3) s(2)] e(1,3) s(1) by auto
    next
      case nb: False
      then have g: "\<not> len + 1 \<ge> room" "push_char c (json_string_loop room (len + 1) p) = Inr (sql, rest)"
        using "2.prems"(1) nq by (auto split: if_splits)
      from push [OF g(2)] obtain sql' where s: "sql = c # sql'" "json_string_loop room (len + 1) p = Inr (sql', rest)" by auto
      show ?thesis using "2.IH"(2) [OF nq nb g(1) s(2)] g(1) s(1) by auto
    qed
  qed
qed

lemma set_strstr: "strstr s needle = Some r \<Longrightarrow> set r \<subseteq> set s"
  using strstr_Some [of s needle r] by auto

lemma http_extract_sql_ok:
  assumes "http_extract_sql body room = Inr sql" "0 < room" "length body < SIZE_MAX"
  shows "length sql < room \<and> (CHR 0x00 \<notin> set body \<longrightarrow> CHR 0x00 \<notin> set sql)"
proof (cases "dropWhile isspace body \<noteq> [] \<and> hd (dropWhile isspace body) = CHR ''{''")
  case True
  then have "extract_json_sql body room = Inr sql" using assms(1) by (simp add: http_extract_sql_def)
  then obtain p rest where p: "strstr body ''\"sql\"'' = Some p"
      "json_string_loop room 0 (tl (dropWhile isspace (tl (dropWhile isspace (drop 5 p))))) = Inr (sql, rest)"
    unfolding extract_json_sql_def need_Inr check_Inr ok_then_Inr Let_def
    by (auto simp: check_Inr simp del: dropWhile_eq_Nil_conv)
  have sub: "set (tl xs) \<subseteq> set xs" "set (dropWhile isspace xs) \<subseteq> set xs" for xs
    by (cases xs) (auto dest: set_dropWhileD)
  have "set (tl (dropWhile isspace (tl (dropWhile isspace (drop 5 p))))) \<subseteq> set body"
    using set_strstr [OF p(1)] set_drop_subset [of 5 p] sub by (meson subset_trans)
  then show ?thesis using json_string_loop_bounds [OF p(2) assms(2)] by auto
next
  case False
  then have "copy_raw_sql body room = Inr sql" using assms(1)
    by (simp add: http_extract_sql_def Let_def del: dropWhile_eq_Nil_conv split: if_splits)
  then have s: "sql = trim_end (dropWhile isspace body)" "\<not> size_add (length sql) 1 > room"
    by (auto simp: copy_raw_sql_def check_Inr Let_def)
  have "length sql \<le> length body" using s(1) unfolding trim_end_def
    by (metis length_dropWhile_le length_rev order_trans)
  then have "size_add (length sql) 1 = length sql + 1" using assms(3) by (intro size_add_exact) simp
  moreover have "set sql \<subseteq> set body" using s(1) unfolding trim_end_def by (metis set_dropWhileD set_rev subsetI)
  ultimately show ?thesis using s(2) by auto
qed

end
