(* ===== verification/ServerCorrect.thy ===== *)
theory ServerCorrect
  imports Server SqlChars DbLoad HttpRead HttpBody
begin

section \<open>Handling a request\<close>

text \<open>
  \<open>execute_statement\<close> runs the engine operation its statement stands for; a response is written
  as \<open>HttpCorrect\<close> says; together, what \<open>handle_query\<close> and \<open>handle_client\<close> do on every path.
\<close>

subsection \<open>Error bodies\<close>

definition error_text :: "string \<Rightarrow> string" where
  "error_text message = ''{'' @ DQUOTE # ''error'' @ DQUOTE # '':'' @ json_quote message @ ''}''"

lemma error_text_no_nul: "CHR 0x00 \<notin> set (error_text m)"
  by (simp add: error_text_def json_quote_no_nul)

lemma length_error_text: "length (error_text m) \<le> 6 * length m + 12"
  using length_json_quote [of m] by (simp add: error_text_def)

lemma make_error_body_ok:
  assumes "length m < 256"
  shows "\<exists>os' r. make_error_body m os = Some (os', r) \<and> runs_to os os' \<and> (granted os os' \<longrightarrow> r \<noteq> None) \<and>
    (\<forall>block. r = Some block \<longrightarrow> c_string block = Some (error_text m))"
proof -
  obtain created os1 b where init: "json_builder_init os = (created, os1, b)" by (cases "json_builder_init os") auto
  note i = json_builder_init_ok [OF init]
  let ?ops = "[json_builder_append (''{'' @ DQUOTE # ''error'' @ DQUOTE # '':''), json_builder_append_string m, json_builder_append ''}'']"
  show ?thesis
  proof (cases created)
    case False
    then show ?thesis using init i by (auto simp: make_error_body_def)
  next
    case True
    have len: "length (error_text m) < JSON_MAX" using length_error_text [of m] assms by (simp add: JSON_MAX_def)
    have "jb_appends (chain ?ops) ((''{'' @ DQUOTE # ''error'' @ DQUOTE # '':'') @ json_quote m @ ''}'')"
      by (rule jb_appends_chain3 [OF json_builder_append_appends json_builder_append_string_appends json_builder_append_appends])
        (use assms in \<open>simp add: JSON_MAX_def\<close>)
    then have ops: "jb_appends (chain ?ops) (error_text m)" by (simp add: error_text_def)
    obtain ok os2 b2 where c: "chain ?ops (os1, b) = Some (ok, os2, b2)" "runs_to os1 os2"
        "ok \<Longrightarrow> jb_holds b2 ([] @ error_text m)" "granted os1 os2 \<Longrightarrow> length ([] @ error_text m) < JSON_MAX \<Longrightarrow> ok"
      by (rule jb_resultE [OF jb_appendsD [OF ops i(2) [OF True], of os1]]) blast
    have r2: "runs_to os os2" using i(1) c(2) by (rule runs_to_trans)
    show ?thesis
    proof (cases ok)
      case False
      have "\<not> granted os os2" using c(4) False len granted_right [OF _ i(1)] by auto
      then show ?thesis using init c(1) True False r2 by (simp add: make_error_body_def del: chain.simps)
    next
      case ok: True
      then obtain buf where "fst (json_builder_take b2) = Some buf" "c_string buf = Some (error_text m)"
        using jb_holds_text [OF _ error_text_no_nul, of b2 m] c(3) by auto
      then show ?thesis using init c(1) True ok r2 by (simp add: make_error_body_def del: chain.simps)
    qed
  qed
qed

subsection \<open>Answers\<close>

text \<open>
  From \<open>s\<close> to \<open>s'\<close> one response was written, with one of the statuses \<open>codes\<close> and a body as
  \<open>bodies\<close> says, whole or in part; whole when no call fails and the socket works. The engine, the
  files and the number of closes are the same.
\<close>

definition answered :: "nat \<Rightarrow> (int \<Rightarrow> string \<Rightarrow> bool) \<Rightarrow> server \<Rightarrow> server \<Rightarrow> bool" where
  "answered tid resp s s' \<longleftrightarrow> srv_db s' = srv_db s \<and> srv_closes s' = srv_closes s \<and>
     keeps_files (srv_world s) (srv_world s') \<and>
     (\<exists>status body k. resp status body \<and>
        sent (srv_conn s') = sent (srv_conn s) @ take k (response_text status body tid) \<and>
        (granted (srv_world s) (srv_world s') \<and> send_works (srv_conn s) \<longrightarrow> length (response_text status body tid) \<le> k))"

lemma answered_mono: "answered tid r s s' \<Longrightarrow> (\<And>st b. r st b \<Longrightarrow> r' st b) \<Longrightarrow> answered tid r' s s'"
  unfolding answered_def by blast

lemma log_answered [simp]: "answered tid r s (log_request tid' fd q d e u s') = answered tid r s s'"
  by (simp add: answered_def log_request_def)

lemma send_json_response_answered:
  assumes "tid \<le> SIZE_MAX" "length body < SIZE_MAX" "\<bar>status\<bar> < 10 ^ 10"
  shows "answered tid (\<lambda>st b. st = status \<and> b = body) s (send_json_response tid status body s)"
proof -
  obtain ok w c where r: "http_send_json_with_thread status body tid (srv_world s, srv_conn s) = (ok, w, c)"
    by (metis prod_cases3)
  let ?t = "response_text status body tid"
  have wr: "runs_to (srv_world s) w" "granted (srv_world s) w \<and> send_works (srv_conn s) \<Longrightarrow> ok"
    using http_send_json_writes [OF assms, of "srv_world s" "srv_conn s"] r by (auto simp: writes_def)
  obtain k where k: "sent c = sent (srv_conn s) @ take k ?t" "if ok then length ?t \<le> k else k < length ?t"
    using http_send_json_writes [OF assms, of "srv_world s" "srv_conn s"] r by (auto simp: writes_def)
  show ?thesis
    unfolding answered_def using keeps_files_runs_to [OF wr(1)] wr(2) k
    by (auto simp: send_json_response_def r intro!: exI [of _ k])
qed

text \<open>After some calls of the environment that left the files alone.\<close>

lemma answered_later:
  assumes "answered tid resp (s\<lparr>srv_world := w\<rparr>) s'" "keeps_files (srv_world s) w"
  shows "answered tid resp s s'"
proof -
  have g: "granted (srv_world s) (srv_world s') \<Longrightarrow> granted w (srv_world s')"
    using granted_after keeps_files_goes_to [OF assms(2)] by blast
  obtain st b k where r: "resp st b" "sent (srv_conn s') = sent (srv_conn s) @ take k (response_text st b tid)"
      "granted w (srv_world s') \<and> send_works (srv_conn s) \<Longrightarrow> length (response_text st b tid) \<le> k"
    using assms(1) by (auto simp: answered_def)
  have "srv_db s' = srv_db s" "srv_closes s' = srv_closes s" "keeps_files w (srv_world s')"
    using assms(1) by (simp_all add: answered_def)
  moreover from this(3) have "keeps_files (srv_world s) (srv_world s')" by (rule keeps_files_trans [OF assms(2)])
  ultimately show ?thesis unfolding answered_def using r g by blast
qed

definition error_answer :: "int \<Rightarrow> string \<Rightarrow> int \<Rightarrow> string \<Rightarrow> bool" where
  "error_answer status m st b \<longleftrightarrow> st = status \<and> b = error_text m \<or> st = 500 \<and> b = out_of_memory_body"

lemma send_error_response_ok:
  assumes "tid \<le> SIZE_MAX" "length m < 256" "\<bar>status\<bar> < 10 ^ 10"
  shows "\<exists>s'. send_error_response tid status m s = Some s' \<and> answered tid (error_answer status m) s s' \<and>
    (granted (srv_world s) (srv_world s') \<longrightarrow> answered tid (\<lambda>st b. st = status \<and> b = error_text m) s s')"
proof -
  obtain w r where m: "make_error_body m (srv_world s) = Some (w, r)" "runs_to (srv_world s) w"
      "granted (srv_world s) w \<Longrightarrow> r \<noteq> None" "\<And>block. r = Some block \<Longrightarrow> c_string block = Some (error_text m)"
    using make_error_body_ok [OF assms(2), of "srv_world s"] by blast
  note kf = keeps_files_runs_to [OF m(2)]
  show ?thesis
  proof (cases r)
    case None
    let ?s = "send_json_response tid 500 out_of_memory_body (s\<lparr>srv_world := w\<rparr>)"
    have a: "answered tid (\<lambda>st b. st = 500 \<and> b = out_of_memory_body) (s\<lparr>srv_world := w\<rparr>) ?s"
      by (rule send_json_response_answered [OF assms(1)]) (simp_all add: out_of_memory_body_def SIZE_MAX_def)
    from answered_later [OF a kf] have "answered tid (error_answer status m) s ?s"
      by (rule answered_mono) (simp add: error_answer_def)
    moreover have "\<not> granted (srv_world s) (srv_world ?s)"
    proof
      assume "granted (srv_world s) (srv_world ?s)"
      moreover have "goes_to w (srv_world ?s)" using a by (simp add: answered_def keeps_files_def)
      ultimately have "granted (srv_world s) w" by (rule granted_before)
      then show False using m(3) None by simp
    qed
    ultimately show ?thesis using m(1) None by (simp add: send_error_response_def)
  next
    case (Some block)
    let ?s = "send_json_response tid status (error_text m) (s\<lparr>srv_world := w\<rparr>)"
    have "length (error_text m) < SIZE_MAX" using length_error_text [of m] assms(2) by (simp add: SIZE_MAX_def)
    from answered_later [OF send_json_response_answered [OF assms(1) this assms(3)] kf]
    have a: "answered tid (\<lambda>st b. st = status \<and> b = error_text m) s ?s" .
    then have "answered tid (error_answer status m) s ?s" by (rule answered_mono) (simp add: error_answer_def)
    then show ?thesis using a m(1) m(4) [OF Some] Some by (simp add: send_error_response_def)
  qed
qed

subsection \<open>Statements\<close>

fun db_column :: "SqlColumn \<Rightarrow> DbColumn" where
  "db_column SQL_COLUMN_ID = DB_COLUMN_ID"
| "db_column SQL_COLUMN_NAME = DB_COLUMN_NAME"
| "db_column SQL_COLUMN_AGE = DB_COLUMN_AGE"

definition wanted_columns :: "SqlColumn list option \<Rightarrow> DbColumn list" where
  "wanted_columns cols = (case cols of None \<Rightarrow> ALL_COLUMNS | Some cs \<Rightarrow> map db_column cs)"

fun where_filter :: "where_ast \<Rightarrow> DbFilter" where
  "where_filter WhereNone = \<lparr>filter_type = DB_FILTER_ALL, filter_id = 0, filter_name = []\<rparr>"
| "where_filter (WhereId v) = \<lparr>filter_type = DB_FILTER_ID, filter_id = v, filter_name = []\<rparr>"
| "where_filter (WhereName n) = \<lparr>filter_type = DB_FILTER_NAME, filter_id = 0, filter_name = n\<rparr>"

lemma filter_of_select: "where_ok w \<Longrightarrow> filter_of (stmt_of (Select cols w)) = where_filter w"
  by (cases cols; cases w) (auto simp: filter_of_def zero_stmt_def snprintf_str_def name_ok_def)

lemma project_column_step:
  assumes "column_count p < length (proj_columns p)"
  shows "\<exists>p'. project_column c p = Some p' \<and> column_count p' = Suc (column_count p) \<and>
    length (proj_columns p') = length (proj_columns p) \<and>
    take (Suc (column_count p)) (proj_columns p') = take (column_count p) (proj_columns p) @ [db_column c]"
  using assms by (cases c) (auto simp: project_column_def Let_def take_Suc_conv_app_nth)

lemma project_loop_ok:
  "select_column_count stmt \<le> length (select_columns stmt) \<Longrightarrow> i \<le> select_column_count stmt \<Longrightarrow> column_count p = i \<Longrightarrow>
   select_column_count stmt \<le> length (proj_columns p) \<Longrightarrow>
   \<exists>p'. project_loop stmt i p = Some p' \<and> column_count p' = select_column_count stmt \<and>
     length (proj_columns p') = length (proj_columns p) \<and>
     take (select_column_count stmt) (proj_columns p') =
       take i (proj_columns p) @ map db_column (drop i (take (select_column_count stmt) (select_columns stmt)))"
proof (induction "select_column_count stmt - i" arbitrary: i p)
  case 0
  then show ?case by (simp add: project_loop.simps [of stmt i])
next
  case (Suc n)
  then have i: "i < select_column_count stmt" "i < length (select_columns stmt)" by auto
  obtain p1 where p1: "project_column (select_columns stmt ! i) p = Some p1" "column_count p1 = Suc i"
      "length (proj_columns p1) = length (proj_columns p)"
      "take (Suc i) (proj_columns p1) = take i (proj_columns p) @ [db_column (select_columns stmt ! i)]"
    using project_column_step [of p "select_columns stmt ! i"] Suc.prems i by auto
  have "n = select_column_count stmt - Suc i" using Suc.hyps(2) by simp
  from Suc.hyps(1) [OF this Suc.prems(1) _ p1(2)] i(1) Suc.prems(4) p1(3) obtain p' where
    "project_loop stmt (Suc i) p1 = Some p'" "column_count p' = select_column_count stmt"
    "length (proj_columns p') = length (proj_columns p)"
    "take (select_column_count stmt) (proj_columns p') =
       take (Suc i) (proj_columns p1) @ map db_column (drop (Suc i) (take (select_column_count stmt) (select_columns stmt)))"
    by auto
  moreover have "drop i (take (select_column_count stmt) (select_columns stmt)) =
      select_columns stmt ! i # drop (Suc i) (take (select_column_count stmt) (select_columns stmt))"
    using i Suc.prems(1) by (intro drop_take_Cons)
  ultimately show ?case using i p1(1,4) by (simp add: project_loop.simps [of stmt i])
qed

lemma projection_of_select:
  assumes "ast_ok (Select cols w)"
  shows "\<exists>p. projection_of (stmt_of (Select cols w)) = Some p \<and> proj_ok p \<and> columns_of (effective p) = wanted_columns cols"
proof (cases cols)
  case None
  then show ?thesis
    by (cases w) (auto simp: projection_of_def proj_ok_def columns_of_def effective_def wanted_columns_def zero_stmt_def)
next
  case (Some cs)
  let ?stmt = "stmt_of (Select cols w)"
  let ?zero = "\<lparr>include_id = False, include_name = False, include_age = False,
      proj_columns = replicate DB_MAX_PROJECTION_COLUMNS DB_COLUMN_ID, column_count = 0\<rparr>"
  have cs: "cs \<noteq> []" "distinct cs" using assms Some by auto
  have len: "length cs \<le> 3" using columns_at_most_3 [OF cs(2)] .
  have st: "select_columns ?stmt = column_array cs" "select_column_count ?stmt = length cs" "\<not> select_all ?stmt"
    using Some by (cases w; simp add: zero_stmt_def)+
  have ca: "length (column_array cs) = 3" "take (length cs) (column_array cs) = cs"
    using len by (simp_all add: column_array_def)
  obtain p where p: "project_loop ?stmt 0 ?zero = Some p" "column_count p = length cs" "length (proj_columns p) = 3"
      "take (length cs) (proj_columns p) = map db_column cs"
    using project_loop_ok [of ?stmt 0 ?zero] st ca len by auto
  have "effective p = p" using p(2) cs(1) by (simp add: effective_def)
  moreover have "projection_of ?stmt = Some p" using p(1) st(3) by (simp add: projection_of_def)
  ultimately show ?thesis using p cs(1) len Some by (auto simp: proj_ok_def columns_of_def wanted_columns_def)
qed

text \<open>What a statement is for the engine.\<close>

lemma execute_insert:
  "execute_statement (stmt_of (InsertId rid name age)) w db = db_insert_internal True rid name age w db"
  "execute_statement (stmt_of (InsertAuto name age)) w db = db_insert_internal False 0 name age w db"
  by (simp_all add: execute_statement_def db_insert_with_id_def db_insert_def zero_stmt_def)

lemma execute_select:
  assumes "ast_ok (Select cols wh)"
  shows "\<exists>p. execute_statement (stmt_of (Select cols wh)) w db = db_select_projected (where_filter wh) p w db \<and>
    proj_ok p \<and> columns_of (effective p) = wanted_columns cols"
proof -
  obtain p where "projection_of (stmt_of (Select cols wh)) = Some p" "proj_ok p" "columns_of (effective p) = wanted_columns cols"
    using projection_of_select [OF assms] by blast
  moreover have "stmt_type (stmt_of (Select cols wh)) = SQL_SELECT" by (cases cols; cases wh) simp_all
  ultimately show ?thesis using filter_of_select [of wh cols] assms by (auto simp: execute_statement_def)
qed

end
