(* ===== verification/Messages.thy ===== *)
theory Messages
  imports Sql Http
begin

section \<open>Error messages are short\<close>

text \<open>
  The callers give every fallible function a buffer of 256 bytes for its message; the messages of
  \<open>sql.c\<close> and \<open>http.c\<close> fit, so \<open>set_err\<close> never truncates one.
\<close>

definition short_err :: "string + 'a \<Rightarrow> bool" where
  "short_err r \<longleftrightarrow> (\<forall>e. r = Inl e \<longrightarrow> length e < 256)"

lemma short_Inr [simp, intro]: "short_err (Inr x)"
  by (simp add: short_err_def)

lemma short_Inl [simp]: "short_err (Inl m) \<longleftrightarrow> length m < 256"
  by (simp add: short_err_def)

lemma short_need [intro!]: "length m < 256 \<Longrightarrow> (\<And>x. short_err (k x)) \<Longrightarrow> short_err (need m r k)"
  by (cases r) simp_all

lemma short_check [intro!]: "length m < 256 \<Longrightarrow> short_err k \<Longrightarrow> short_err (check m ok k)"
  by (cases ok) simp_all

lemma short_ok_then [intro!]: "short_err r \<Longrightarrow> (\<And>x. short_err (k x)) \<Longrightarrow> short_err (ok_then r k)"
  by (cases r) simp_all

lemma select_columns_loop_short: "short_err (select_columns_loop stmt p)"
proof (induction stmt p rule: select_columns_loop.induct)
  case (1 stmt p)
  show ?case
    by (subst select_columns_loop.simps) (auto simp: Let_def intro: 1 split: option.splits list.splits)
qed

lemma parse_select_columns_short: "short_err (parse_select_columns stmt p)"
  unfolding parse_select_columns_def Let_def
  by (auto simp: select_columns_loop_short split: list.splits)

lemma parse_insert_values_short: "short_err (parse_insert_values_with_id stmt p)"
  unfolding parse_insert_values_with_id_def by (auto split: prod.splits)

lemma parse_insert_name_age_short: "short_err (parse_insert_name_age stmt p)"
  unfolding parse_insert_name_age_def Let_def by (auto split: prod.splits)

lemma parse_insert_short: "short_err (parse_insert p stmt)"
  unfolding parse_insert_def Let_def
  by (auto simp: parse_insert_values_short parse_insert_name_age_short split: prod.splits option.splits)

lemma parse_where_short: "short_err (parse_where stmt p)"
  unfolding parse_where_def by (auto split: prod.splits)

lemma parse_select_short: "short_err (parse_select p stmt)"
  unfolding parse_select_def Let_def
  by (auto simp: parse_select_columns_short parse_where_short split: prod.splits)

lemma sql_parse_message: "sql_parse s = Inl err \<Longrightarrow> length err < 256"
proof -
  have "short_err (sql_parse s)"
    unfolding sql_parse_def Let_def by (simp add: parse_insert_short parse_select_short)
  then show "sql_parse s = Inl err \<Longrightarrow> length err < 256" by (simp add: short_err_def)
qed

lemma push_char_short: "short_err r \<Longrightarrow> short_err (push_char c r)"
  unfolding push_char_def by (auto split: prod.splits)

lemma json_string_loop_short: "short_err (json_string_loop room len p)"
proof (induction "length p" arbitrary: len p rule: less_induct)
  case less
  show ?case
  proof (cases p)
    case (Cons c q)
    have q: "short_err (push_char ch (json_string_loop room (len + 1) q))" for ch
      using less [of q "len + 1"] Cons by (intro push_char_short) simp
    show ?thesis
    proof (cases q)
      case Nil
      then show ?thesis using q Cons by simp
    next
      case (Cons e r)
      have "short_err (push_char ch (json_string_loop room (len + 1) r))" for ch
        using less [of r "len + 1"] \<open>p = c # q\<close> Cons by (intro push_char_short) simp
      then show ?thesis using q \<open>p = c # q\<close> Cons
        by (simp del: json_string_loop.simps add: json_string_loop.simps(2) split: option.split)
    qed
  qed simp
qed

lemma http_extract_sql_message: "http_extract_sql body room = Inl err \<Longrightarrow> length err < 256"
proof -
  have "short_err (extract_json_sql body room)"
    unfolding extract_json_sql_def Let_def by (auto simp: json_string_loop_short split: prod.splits)
  moreover have "short_err (copy_raw_sql body room)"
    unfolding copy_raw_sql_def Let_def by auto
  ultimately have "short_err (http_extract_sql body room)" by (simp add: http_extract_sql_def Let_def)
  then show "http_extract_sql body room = Inl err \<Longrightarrow> length err < 256" by (simp add: short_err_def)
qed

text \<open>The messages of \<open>http_read_request\<close>.\<close>

lemma read_headers_message: "read_headers buffer c = Some (Inl err, c') \<Longrightarrow> length err < 256"
proof (induction "recv_left c" arbitrary: buffer c rule: less_induct)
  case less
  obtain r c1 where r: "recv (HTTP_MAX_REQUEST - length buffer) c = (r, c1)" by fastforce
  note again = less(1) [OF recv_less [OF r]]
  show ?case
  proof (cases r)
    case (Result bytes)
    then show ?thesis using less.prems again r
      by (auto simp add: read_headers.simps [of buffer c] split: if_splits option.splits)
  next
    case Eintr
    show ?thesis
    proof (cases "length buffer < HTTP_MAX_REQUEST")
      case True
      then have "read_headers buffer c = read_headers buffer c1"
        using r Eintr by (subst read_headers.simps) simp
      then show ?thesis using again [of buffer] Eintr less.prems by simp
    qed (use less.prems in \<open>simp add: read_headers.simps [of buffer c]\<close>)
  next
    case Error
    then show ?thesis using less.prems r by (auto simp: read_headers.simps [of buffer c] split: if_splits)
  qed
qed

lemma read_body_message: "read_body n buffer c = Some (Inl err, c') \<Longrightarrow> length err < 256"
proof (induction "recv_left c" arbitrary: buffer c rule: less_induct)
  case less
  obtain r c1 where r: "recv (n - length buffer) c = (r, c1)" by fastforce
  note again = less(1) [OF recv_less [OF r]]
  show ?case
  proof (cases r)
    case (Result bytes)
    then show ?thesis using less.prems again r
      by (auto simp add: read_body.simps [of n buffer c] split: if_splits option.splits)
  next
    case Eintr
    show ?thesis
    proof (cases "length buffer < n")
      case True
      then have "read_body n buffer c = read_body n buffer c1"
        using r Eintr by (subst read_body.simps) simp
      then show ?thesis using again [of buffer] Eintr less.prems by simp
    qed (use less.prems in \<open>simp add: read_body.simps [of n buffer c]\<close>)
  next
    case Error
    then show ?thesis using less.prems r by (auto simp: read_body.simps [of n buffer c] split: if_splits)
  qed
qed

lemma http_read_request_message: "http_read_request c = Some (Inl err, c') \<Longrightarrow> length err < 256"
  unfolding http_read_request_def Let_def
  by (auto dest: read_headers_message read_body_message split: option.splits sum.splits prod.splits if_splits)

end
