(* ===== verification/ServerHandle.thy ===== *)
theory ServerHandle
  imports ServerCorrect Messages
begin

section \<open>Every request, every peer\<close>

text \<open>
  The outcome of \<open>handle_query\<close> and \<open>handle_client\<close> whatever calls fail, whatever the peer sends and
  whatever the socket does: \<open>served\<close>.
\<close>

subsection \<open>Messages of the engine fit the buffers\<close>

lemma make_error_result_message: "make_error_result m t w = (r, w') \<Longrightarrow> length (res_message r) < 128"
  by (auto simp: make_error_result_def snprintf_str_def split: prod.splits)

lemma unlock_error_message: "unlock_error m t w db = Some (w', db', r) \<Longrightarrow> length (res_message r) < 128"
  by (auto simp: unlock_error_def dest: make_error_result_message split: prod.splits)

lemma insert_result_message: "insert_result r t w db = Some (w', db', res) \<Longrightarrow> length (res_message res) < 128"
  unfolding insert_result_def
  by (auto simp: Let_def dest: unlock_error_message split: prod.splits option.splits if_splits)

lemma insert_record_message: "insert_record r t w db = Some (w', db', res) \<Longrightarrow> length (res_message res) < 128"
  unfolding insert_record_def Let_def
  by (auto dest: unlock_error_message insert_result_message split: prod.splits option.splits if_splits)

lemma db_insert_internal_message:
  "db_insert_internal has_id i name age w db = Some (w', db', res) \<Longrightarrow> length (res_message res) < 128"
  unfolding db_insert_internal_def Let_def
  by (auto dest: unlock_error_message insert_record_message make_error_result_message split: prod.splits option.splits if_splits)

lemma select_finish_message:
  "select_finish flt t db rows = Some (w', db', res) \<Longrightarrow> length (res_message res) < 128"
  unfolding select_finish_def Let_def
  by (auto simp: snprintf_str_def dest: unlock_error_message split: prod.splits option.splits if_splits sum.splits)

lemma db_select_projected_message:
  "db_select_projected flt p w db = Some (w', db', res) \<Longrightarrow> length (res_message res) < 128"
  unfolding db_select_projected_def Let_def
  by (auto dest: unlock_error_message select_finish_message make_error_result_message split: prod.splits option.splits if_splits)

subsection \<open>Any statement\<close>

definition db_fine :: "DbEngine \<Rightarrow> bool" where
  "db_fine db \<longleftrightarrow> db_inv db \<and> db_lock db = Unlocked \<and> db_count db < DB_ROWS_MAX"

text \<open>At most one row was added, and the engine is ready for the next request.\<close>

definition db_step :: "DbEngine \<Rightarrow> DbEngine \<Rightarrow> bool" where
  "db_step db db' \<longleftrightarrow> db_inv db' \<and> db_lock db' = Unlocked \<and> data_path db' = data_path db \<and>
     (rows_of db' = rows_of db \<or> (\<exists>r. rows_of db' = rows_of db @ [r]))"

lemma db_step_refl: "db_fine db \<Longrightarrow> db_step db db"
  by (simp add: db_fine_def db_step_def)

lemma db_step_count:
  assumes "db_step db db'" "db_inv db"
  shows "db_count db' \<le> Suc (db_count db)"
proof -
  have "length (rows_of db') = db_count db'" "length (rows_of db) = db_count db"
    using assms by (simp_all add: db_step_def db_inv_def)
  then show ?thesis using assms(1) by (auto simp: db_step_def)
qed

lemma rows_text_small:
  assumes "\<forall>r\<in>set rs. row_ok r" "length cols \<le> 3" "length rs \<le> DB_ROWS_MAX"
  shows "length (rows_text cols rs) < SIZE_MAX"
proof -
  have "length (rows_text cols rs) \<le> 2346 * length rs + 2" by (rule length_rows_text [OF assms(1,2)])
  also have "\<dots> \<le> 2346 * DB_ROWS_MAX + 2" using assms(3) by simp
  also have "\<dots> < SIZE_MAX" by (simp add: DB_ROWS_MAX_def SIZE_MAX_def)
  finally show ?thesis .
qed

definition good_result :: "DbResult \<Rightarrow> bool" where
  "good_result res \<longleftrightarrow> length (res_message res) < 128 \<and>
     (res_ok res \<longrightarrow> (\<exists>buf rows. rows_json res = Some buf \<and> c_string buf = Some rows \<and> length rows < SIZE_MAX))"

lemma insert_any:
  assumes "db_fine db" "insert_args i name age"
  shows "\<exists>w' db' res. db_insert_internal has_id i name age w db = Some (w', db', res) \<and>
    goes_to w w' \<and> db_step db db' \<and> good_result res"
proof -
  have d: "db_inv db" "db_count db < DB_ROWS_MAX" "db_lock db = Unlocked" using assms(1) by (auto simp: db_fine_def)
  let ?r = "new_record has_id i name age db"
  obtain w' db' res where r: "db_insert_internal has_id i name age w db = Some (w', db', res)"
      "if insert_refused has_id i name age db then keeps_files w w' \<and> db' = db \<and> \<not> res_ok res
       else insert_outcome ?r w db w' db' res"
    using db_insert_internal_ok [OF d(1,2) assms(2) d(3), of has_id w] by blast
  note msg = db_insert_internal_message [OF r(1)]
  show ?thesis
  proof (cases "insert_refused has_id i name age db")
    case True
    then show ?thesis using r msg db_step_refl [OF assms(1)] by (auto simp: good_result_def dest: keeps_files_goes_to)
  next
    case False
    then have o: "insert_outcome ?r w db w' db' res" using r(2) by simp
    have "good_result res"
    proof (cases "res_ok res")
      case True
      then have rows: "rows_of db' = rows_of db @ [?r]" "holds_rows res ALL_COLUMNS [?r]" "db_inv db'"
        using o by (auto simp: insert_outcome_def)
      then have "row_ok ?r" by (simp add: db_inv_def)
      then have "length (rows_text ALL_COLUMNS [?r]) < SIZE_MAX"
        by (intro rows_text_small) (simp_all add: DB_ROWS_MAX_def)
      then show ?thesis using rows(2) msg by (auto simp: good_result_def holds_rows_def)
    next
      case False
      then show ?thesis using msg by (simp add: good_result_def)
    qed
    moreover have "db_step db db'" "goes_to w w'" using o by (auto simp: insert_outcome_def db_step_def)
    ultimately show ?thesis using r(1) by blast
  qed
qed

lemma select_any:
  assumes "db_fine db" "proj_ok p"
  shows "\<exists>w' res. db_select_projected flt p w db = Some (w', db, res) \<and> keeps_files w w' \<and> good_result res"
proof -
  have d: "db_inv db" "db_count db < DB_ROWS_MAX" "db_lock db = Unlocked" using assms(1) by (auto simp: db_fine_def)
  let ?rs = "selected flt db" and ?cols = "columns_of (effective p)"
  obtain w' res where r: "db_select_projected flt p w db = Some (w', db, res)" "keeps_files w w'"
      "res_ok res \<longrightarrow> holds_rows res ?cols ?rs"
    using db_select_projected_ok [OF d(1,2) assms(2) d(3), of flt w] by blast
  have "length (rows_text ?cols ?rs) < SIZE_MAX"
  proof (rule rows_text_small)
    show "\<forall>r\<in>set ?rs. row_ok r" using selected_rows [OF d(1), of flt] d(1) by (auto simp: db_inv_def)
    show "length ?rs \<le> DB_ROWS_MAX" using selected_rows [OF d(1), of flt] d(2) by linarith
  qed (rule length_columns_of [OF effective_ok [OF assms(2)]])
  then have "good_result res" using r(3) db_select_projected_message [OF r(1)] by (auto simp: good_result_def holds_rows_def)
  then show ?thesis using r by blast
qed

lemma execute_any:
  assumes "sql_parse sql = Inr stmt" "CHR 0x00 \<notin> set sql" "db_fine db"
  shows "\<exists>w' db' res. execute_statement stmt w db = Some (w', db', res) \<and> goes_to w w' \<and> db_step db db' \<and> good_result res"
proof -
  obtain a where a: "ast_ok a" "stmt = stmt_of a" using sql_parse_sound [OF assms(1)] by blast
  have nul: "CHR 0x00 \<notin> set (insert_name stmt)" using sql_parse_chars [OF assms(1)] assms(2) by blast
  show ?thesis
  proof (cases a)
    case (InsertId rid name age)
    then have "insert_args rid name age"
      using a nul by (simp add: insert_args_def int_ok_def name_ok_def zero_stmt_def)
    from insert_any [OF assms(3) this, of True w] show ?thesis unfolding a(2) InsertId execute_insert(1) .
  next
    case (InsertAuto name age)
    then have "insert_args 0 name age"
      using a nul by (simp add: insert_args_def int_ok_def name_ok_def zero_stmt_def INT_MAX_def)
    from insert_any [OF assms(3) this, of False w] show ?thesis unfolding a(2) InsertAuto execute_insert(2) .
  next
    case (Select cols wh)
    obtain p where p: "execute_statement stmt w db = db_select_projected (where_filter wh) p w db" "proj_ok p"
      using execute_select [of cols wh w db] a Select by auto
    from select_any [OF assms(3) p(2), of "where_filter wh" w] show ?thesis
      using p(1) db_step_refl [OF assms(3)] by (auto dest: keeps_files_goes_to)
  qed
qed

subsection \<open>Requests\<close>

definition served :: "nat \<Rightarrow> server \<Rightarrow> server \<Rightarrow> bool" where
  "served tid s s' \<longleftrightarrow> goes_to (srv_world s) (srv_world s') \<and> db_step (srv_db s) (srv_db s') \<and>
     srv_closes s' = srv_closes s \<and>
     (\<exists>status body k. status \<in> {200, 400, 404, 405, 500} \<and>
        sent (srv_conn s') = sent (srv_conn s) @ take k (response_text status body tid))"

lemma answered_served:
  assumes "answered tid resp s s'" "\<And>st b. resp st b \<Longrightarrow> st \<in> {200, 400, 404, 405, 500}"
    and "goes_to (srv_world s0) (srv_world s)" "db_step (srv_db s0) (srv_db s)"
    and "srv_closes s = srv_closes s0" "sent (srv_conn s) = sent (srv_conn s0)"
  shows "served tid s0 s'"
proof -
  obtain st b k where r: "resp st b" "sent (srv_conn s') = sent (srv_conn s) @ take k (response_text st b tid)"
    using assms(1) by (auto simp: answered_def)
  have "goes_to (srv_world s0) (srv_world s')"
    using goes_to_trans [OF assms(3)] assms(1) by (simp add: answered_def keeps_files_def)
  moreover have "srv_db s' = srv_db s" "srv_closes s' = srv_closes s" using assms(1) by (simp_all add: answered_def)
  ultimately show ?thesis unfolding served_def using r assms(2) [OF r(1)] assms(4,5,6) by auto
qed

text \<open>A short message of the server or of the engine, as an error response.\<close>

lemma error_served:
  assumes "tid \<le> SIZE_MAX" "length m < 256" "status \<in> {400, 404, 405, 500}"
    and "goes_to (srv_world s0) (srv_world s)" "db_step (srv_db s0) (srv_db s)"
    and "srv_closes s = srv_closes s0" "sent (srv_conn s) = sent (srv_conn s0)"
  shows "\<exists>s'. send_error_response tid status m s = Some s' \<and> served tid s0 s'"
proof -
  have "\<bar>status\<bar> < 10 ^ 10" using assms(3) by auto
  from send_error_response_ok [OF assms(1,2) this, of s] obtain s' where
    s': "send_error_response tid status m s = Some s'" "answered tid (error_answer status m) s s'" by blast
  have "served tid s0 s'"
    by (rule answered_served [OF s'(2) _ assms(4-7)]) (use assms(3) in \<open>auto simp: error_answer_def\<close>)
  then show ?thesis using s'(1) by blast
qed

lemma log_served [simp]: "served tid s0 (log_request tid' fd q d e u s) = served tid s0 s"
  by (simp add: served_def log_request_def)


lemma handle_query_served:
  assumes "tid \<le> SIZE_MAX" "db_fine (srv_db s)" "length (req_body request) < SIZE_MAX"
  shows "\<exists>s'. handle_query tid fd request s = Some s' \<and> served tid s s'"
proof -
  note refl = goes_to_refl db_step_refl [OF assms(2)]
  have body: "CHR 0x00 \<notin> set (cstr (req_body request))" "length (cstr (req_body request)) < SIZE_MAX"
    using assms(3) length_takeWhile_le [of _ "req_body request"] unfolding cstr_def
    by (auto dest: set_takeWhileD intro: le_less_trans)
  show ?thesis
  proof (cases "http_extract_sql (cstr (req_body request)) SQL_MAX_LEN")
    case (Inl err)
    show ?thesis
      using error_served [OF assms(1) http_extract_sql_message [OF Inl], of 400 s s] refl Inl
      by (auto simp: handle_query_def)
  next
    case (Inr sql)
    have nul: "CHR 0x00 \<notin> set sql"
      using http_extract_sql_ok [OF Inr _ body(2)] body(1) by (simp add: SQL_MAX_LEN_def)
    show ?thesis
    proof (cases "sql_parse sql")
      case (Inl err)
      show ?thesis
        using error_served [OF assms(1) sql_parse_message [OF Inl], of 400 s s] refl Inl Inr
        by (auto simp: handle_query_def)
    next
      case stmt: (Inr stmt)
      obtain w db res where e: "execute_statement stmt (srv_world s) (srv_db s) = Some (w, db, res)"
          "goes_to (srv_world s) w" "db_step (srv_db s) db" "good_result res"
        using execute_any [OF stmt nul assms(2)] by blast
      let ?s1 = "s\<lparr>srv_world := w, srv_db := db\<rparr>"
      show ?thesis
      proof (cases "res_ok res")
        case False
        have "length (res_message res) < 256" using e(4) by (simp add: good_result_def)
        from error_served [OF assms(1) this, of 500 s ?s1] show ?thesis
          using e Inr stmt False by (auto simp: handle_query_def)
      next
        case True
        obtain buf rows where r: "rows_json res = Some buf" "c_string buf = Some rows" "length rows < SIZE_MAX"
          using e(4) True by (auto simp: good_result_def)
        have "answered tid (\<lambda>st b. st = 200 \<and> b = rows) ?s1 (send_json_response tid 200 rows ?s1)"
          by (rule send_json_response_answered [OF assms(1) r(3)]) simp
        then have "served tid s (send_json_response tid 200 rows ?s1)"
          by (rule answered_served) (use e in auto)
        then show ?thesis using e(1) Inr stmt True r by (simp add: handle_query_def)
      qed
    qed
  qed
qed

definition ends_served :: "nat \<Rightarrow> server \<Rightarrow> server option \<Rightarrow> bool" where
  "ends_served tid s r \<longleftrightarrow> (\<exists>s'. r = Some s' \<and> served tid s s')"

lemma ends_if: "ends_served tid s a \<Longrightarrow> ends_served tid s b \<Longrightarrow> ends_served tid s (if c then a else b)"
  by simp

lemma ends_closed:
  "ends_served tid s r \<Longrightarrow> \<exists>s'. map_option close_client r = Some (close_client s') \<and> served tid s s'"
  by (auto simp: ends_served_def)

lemma handle_client_served:
  assumes "tid \<le> SIZE_MAX" "db_fine (srv_db s)"
  shows "\<exists>s'. handle_client tid fd s = Some (close_client s') \<and> served tid s s'"
proof -
  obtain r c where rd: "http_read_request (srv_conn s) = Some (r, c)" "same_out (srv_conn s) c"
      "\<And>req. r = Inr req \<Longrightarrow> request_bounds req"
    using http_read_request_returns [of "srv_conn s"] by blast
  let ?s1 = "s\<lparr>srv_conn := c\<rparr>"
  have same: "goes_to (srv_world s) (srv_world ?s1)" "db_step (srv_db s) (srv_db ?s1)" "srv_closes ?s1 = srv_closes s"
      "sent (srv_conn ?s1) = sent (srv_conn s)"
    using db_step_refl [OF assms(2)] rd(2) by (simp_all add: same_out_def)
  show ?thesis
  proof (cases r)
    case (Inl err)
    have "length err < 256" using http_read_request_message rd(1) Inl by blast
    from error_served [OF assms(1) this _ same, of 400] show ?thesis using rd(1) Inl by (auto simp: handle_client_def)
  next
    case (Inr req)
    have b: "length (req_body req) < SIZE_MAX"
      using rd(3) [OF Inr] by (simp add: request_bounds_def HTTP_MAX_BODY_def SIZE_MAX_def)
    let ?h = "send_json_response tid 200 health_body ?s1"
    have "answered tid (\<lambda>st b. st = 200 \<and> b = health_body) ?s1 ?h"
      by (rule send_json_response_answered [OF assms(1)]) (simp_all add: health_body_def SIZE_MAX_def)
    then have health: "served tid s ?h" by (rule answered_served) (use same in auto)
    obtain q where q: "handle_query tid fd req ?s1 = Some q" "served tid ?s1 q"
      using handle_query_served [OF assms(1) _ b, of ?s1 fd] assms(2) by auto
    have q': "served tid s q" using q(2) same(4) by (auto simp: served_def)
    obtain e4 where e4: "send_error_response tid 404 ''route not found'' ?s1 = Some e4" "served tid s e4"
      using error_served [OF assms(1) _ _ same, of "''route not found''" 404] by auto
    obtain e5 where e5: "send_error_response tid 405 ''method not allowed'' ?s1 = Some e5" "served tid s e5"
      using error_served [OF assms(1) _ _ same, of "''method not allowed''" 405] by auto
    show ?thesis
      unfolding handle_client_def rd(1) Inr option.case prod.case sum.case Let_def
    proof (intro ends_closed ends_if)
      show "ends_served tid s (Some (log_request tid fd req ''ok'' 0 False ?h))"
        using health by (simp add: ends_served_def)
      show "ends_served tid s (handle_query tid fd req ?s1)" using q(1) q' by (simp add: ends_served_def)
      show "ends_served tid s (map_option (log_request tid fd req ''method-not-allowed'' 0 False)
          (send_error_response tid 405 ''method not allowed'' ?s1))" using e5 by (simp add: ends_served_def)
      show "ends_served tid s (map_option (log_request tid fd req ''not-found'' 0 False)
          (send_error_response tid 404 ''route not found'' ?s1))" using e4 by (simp add: ends_served_def)
    qed
  qed
qed

end
