(* ===== verification/ServerQuery.thy ===== *)
theory ServerQuery
  imports ServerHandle
begin

section \<open>Well-formed requests, end to end\<close>

text \<open>
  When no call fails and the peer sends a well-formed request and takes the response, the reader,
  the SQL extraction, the parser, the engine and the writer compose: the lemmas here go from the
  bytes received to the bytes sent.
\<close>

subsection \<open>Requests\<close>

definition asks :: "string \<Rightarrow> string \<Rightarrow> string \<Rightarrow> conn \<Rightarrow> bool" where
  "asks m p body c \<longleftrightarrow> recv_works c \<and> send_works c \<and>
     (\<exists>v hs extra. request_ok m p v hs body \<and> bytes_of (incoming c) = request_head m p v hs @ body @ extra)"

text \<open>A body that holds a SQL text, as the first member of a JSON object or as it is.\<close>

definition carries_sql :: "string \<Rightarrow> string \<Rightarrow> bool" where
  "carries_sql body sql \<longleftrightarrow> CHR 0x00 \<notin> set body \<and> length sql < SQL_MAX_LEN \<and>
     ((\<exists>ws1 ws2 ws3 ws4 rest. spaces ws1 \<and> spaces ws2 \<and> spaces ws3 \<and> spaces ws4 \<and> (\<forall>c\<in>set sql. json_plain c) \<and>
         body = json_object ws1 ws2 ws3 ws4 (json_escape sql) rest) \<or>
      (\<exists>ws1 ws2. spaces ws1 \<and> spaces ws2 \<and> sql \<noteq> [] \<and> \<not> isspace (hd sql) \<and> \<not> isspace (last sql) \<and>
         hd sql \<noteq> CHR ''{'' \<and> body = ws1 @ sql @ ws2))"

definition request_of :: "string \<Rightarrow> string \<Rightarrow> string \<Rightarrow> HttpRequest" where
  "request_of m p body = \<lparr>req_method = m, req_path = p, req_body = body, req_body_len = length body\<rparr>"

lemma request_of_simps [simp]:
  "req_method (request_of m p body) = m" "req_path (request_of m p body) = p" "req_body (request_of m p body) = body"
  by (simp_all add: request_of_def)

lemma asks_read:
  assumes "asks m p body c"
  shows "\<exists>c'. http_read_request c = Some (Inr (request_of m p body), c') \<and> same_out c c'"
proof -
  obtain v hs extra where "recv_works c" "request_ok m p v hs body"
      "bytes_of (incoming c) = request_head m p v hs @ body @ extra"
    using assms unfolding asks_def by blast
  then show ?thesis unfolding request_of_def by (intro http_read_request_reads)
qed

lemma carries_sql_extracted:
  assumes "carries_sql body sql"
  shows "http_extract_sql (cstr body) SQL_MAX_LEN = Inr sql"
proof -
  have "cstr body = body" using assms by (simp add: carries_sql_def cstr_def takeWhile_eq_all_conv) metis
  moreover have "http_extract_sql body SQL_MAX_LEN = Inr sql"
    using assms unfolding carries_sql_def
    by (elim conjE disjE exE) (simp_all add: http_extract_json http_extract_raw SQL_MAX_LEN_def SIZE_MAX_def)
  ultimately show ?thesis by simp
qed

lemma carries_sql_no_nul:
  assumes "carries_sql body sql"
  shows "CHR 0x00 \<notin> set sql"
proof -
  have "\<not> json_plain (CHR 0x00)" by (simp add: json_plain_def)
  then show ?thesis using assms by (auto simp: carries_sql_def)
qed

subsection \<open>Responses\<close>

text \<open>One whole response was written and the socket was closed once.\<close>

definition replied :: "nat \<Rightarrow> int \<Rightarrow> string \<Rightarrow> server \<Rightarrow> server \<Rightarrow> bool" where
  "replied tid status body s s' \<longleftrightarrow>
     sent (srv_conn s') = sent (srv_conn s) @ response_text status body tid \<and> srv_closes s' = Suc (srv_closes s)"

text \<open>The state after \<open>handle_client\<close> from one that was \<open>answered\<close> after the request was read.\<close>

lemma answered_replied:
  assumes "answered tid (\<lambda>st b. st = status \<and> b = body) s1 s2" "never_fails (srv_world s1)" "send_works (srv_conn s1)"
    and "sent (srv_conn s1) = sent (srv_conn s)" "srv_closes s1 = srv_closes s"
  shows "replied tid status body s (close_client s2) \<and> srv_db (close_client s2) = srv_db s1 \<and>
    files (srv_world (close_client s2)) = files (srv_world s1) \<and> never_fails (srv_world (close_client s2))"
proof -
  obtain k where "sent (srv_conn s2) = sent (srv_conn s1) @ take k (response_text status body tid)"
      "length (response_text status body tid) \<le> k"
    using assms(1-3) never_fails_granted unfolding answered_def by blast
  moreover have "keeps_files (srv_world s1) (srv_world s2)" "srv_db s2 = srv_db s1" "srv_closes s2 = srv_closes s1"
    using assms(1) by (simp_all add: answered_def)
  ultimately show ?thesis
    using assms(2,4,5) never_fails_goes_to [of "srv_world s1" "srv_world s2"]
    by (simp add: replied_def close_client_def keeps_files_def)
qed

lemma answered_logged:
  "answered tid resp s1 s2 \<Longrightarrow>
   \<exists>s3. close_client (log_request tid' fd q d e u s2) = close_client s3 \<and> answered tid resp s1 s3"
  by (rule exI [of _ "log_request tid' fd q d e u s2"]) simp

lemma error_answered:
  assumes "tid \<le> SIZE_MAX" "length m < 256" "\<bar>status\<bar> < 10 ^ 10" "never_fails (srv_world s)"
  shows "\<exists>s'. send_error_response tid status m s = Some s' \<and> answered tid (\<lambda>st b. st = status \<and> b = error_text m) s s'"
  using send_error_response_ok [OF assms(1-3), of s] never_fails_granted [OF assms(4)] by blast

subsection \<open>Queries\<close>

lemma query_runs:
  assumes "asks m ''/query'' body (srv_conn s)" "strcasecmp_eq m ''POST''"
  shows "\<exists>c'. same_out (srv_conn s) c' \<and> handle_client tid fd s =
    map_option close_client (handle_query tid fd (request_of m ''/query'' body) (s\<lparr>srv_conn := c'\<rparr>))"
proof -
  obtain c' where "http_read_request (srv_conn s) = Some (Inr (request_of m ''/query'' body), c')" "same_out (srv_conn s) c'"
    using asks_read [OF assms(1)] by blast
  then show ?thesis using assms(2) by (auto simp: handle_client_def Let_def)
qed

text \<open>An executed statement: its rows with status 200, its message with status 500.\<close>

lemma query_executed:
  assumes "asks m ''/query'' body (srv_conn s)" "strcasecmp_eq m ''POST''" "carries_sql body sql" "sql_parse sql = Inr stmt"
    and "tid \<le> SIZE_MAX" "never_fails (srv_world s)"
    and "execute_statement stmt (srv_world s) (srv_db s) = Some (w, db, res)" "goes_to (srv_world s) w" "good_result res"
  shows "\<exists>s'. handle_client tid fd s = Some s' \<and> srv_db s' = db \<and> files (srv_world s') = files w \<and> never_fails (srv_world s') \<and>
    (if res_ok res then \<exists>buf rows. rows_json res = Some buf \<and> c_string buf = Some rows \<and> replied tid 200 rows s s'
     else replied tid 500 (error_text (res_message res)) s s')"
proof -
  obtain c' where c': "same_out (srv_conn s) c'" and h: "handle_client tid fd s =
      map_option close_client (handle_query tid fd (request_of m ''/query'' body) (s\<lparr>srv_conn := c'\<rparr>))"
    using query_runs [OF assms(1,2)] by blast
  let ?s1 = "s\<lparr>srv_conn := c', srv_world := w, srv_db := db\<rparr>"
  have works: "send_works (srv_conn ?s1)" "sent (srv_conn ?s1) = sent (srv_conn s)"
    using assms(1) c' by (auto simp: asks_def same_out_def send_works_def)
  have never: "never_fails (srv_world ?s1)" using never_fails_goes_to [OF assms(6,8)] by simp
  note query = carries_sql_extracted [OF assms(3)] assms(4,7)
  show ?thesis
  proof (cases "res_ok res")
    case True
    obtain buf rows where r: "rows_json res = Some buf" "c_string buf = Some rows" "length rows < SIZE_MAX"
      using assms(9) True by (auto simp: good_result_def)
    let ?s2 = "log_request tid fd (request_of m ''/query'' body) ''ok'' (elapsed_us res) (index_used res)
      (send_json_response tid 200 rows ?s1)"
    have "answered tid (\<lambda>st b. st = 200 \<and> b = rows) ?s1 ?s2"
      using send_json_response_answered [OF assms(5) r(3), of 200 ?s1] by simp
    from answered_replied [OF this never works] show ?thesis
      using h query True r by (auto simp: handle_query_def)
  next
    case False
    have "length (res_message res) < 256" using assms(9) by (simp add: good_result_def)
    from error_answered [OF assms(5) this _ never, of 500] obtain e where
      e: "send_error_response tid 500 (res_message res) ?s1 = Some e"
        "answered tid (\<lambda>st b. st = 500 \<and> b = error_text (res_message res)) ?s1 e" by auto
    let ?s2 = "log_request tid fd (request_of m ''/query'' body) ''db-error'' (elapsed_us res) (index_used res) e"
    have "answered tid (\<lambda>st b. st = 500 \<and> b = error_text (res_message res)) ?s1 ?s2" using e(2) by simp
    from answered_replied [OF this never works] show ?thesis
      using h query False e(1) by (auto simp: handle_query_def)
  qed
qed

definition route_reply :: "string \<Rightarrow> string \<Rightarrow> string \<Rightarrow> int \<Rightarrow> string \<Rightarrow> bool" where
  "route_reply m p body status reply \<longleftrightarrow>
     (if p = ''/health'' \<and> strcasecmp_eq m ''GET'' then status = 200 \<and> reply = health_body
      else if p = ''/query'' \<and> strcasecmp_eq m ''POST''
      then \<exists>sql err. carries_sql body sql \<and> sql_parse sql = Inl err \<and> status = 400 \<and> reply = error_text err
      else if p = ''/health'' \<or> p = ''/query'' then status = 405 \<and> reply = error_text ''method not allowed''
      else status = 404 \<and> reply = error_text ''route not found'')"

lemma routes_replied:
  assumes "never_fails (srv_world s)" "tid \<le> SIZE_MAX" "asks m p body (srv_conn s)" "route_reply m p body status reply"
  shows "\<exists>s'. handle_client tid fd s = Some s' \<and> srv_db s' = srv_db s \<and> files (srv_world s') = files (srv_world s) \<and>
    replied tid status reply s s'"
proof -
  obtain c' where rd: "http_read_request (srv_conn s) = Some (Inr (request_of m p body), c')" and c': "same_out (srv_conn s) c'"
    using asks_read [OF assms(3)] by blast
  let ?s1 = "s\<lparr>srv_conn := c'\<rparr>" and ?req = "request_of m p body" and ?resp = "\<lambda>st b. st = status \<and> b = reply"
  have never: "never_fails (srv_world ?s1)" using assms(1) by simp
  have works: "send_works (srv_conn ?s1)" "sent (srv_conn ?s1) = sent (srv_conn s)" "srv_closes ?s1 = srv_closes s"
    using assms(3) c' by (auto simp: asks_def same_out_def send_works_def)
  have err: "\<exists>e. send_error_response tid st msg ?s1 = Some e \<and> answered tid ?resp ?s1 e"
    if "length msg < 256" "\<bar>st\<bar> < 10 ^ 10" "status = st" "reply = error_text msg" for st msg
    using error_answered [OF assms(2) that(1,2) never] that(3,4) by simp
  have "\<exists>s2. handle_client tid fd s = Some (close_client s2) \<and> answered tid ?resp ?s1 s2"
  proof -
    consider (health) "p = ''/health''" "strcasecmp_eq m ''GET''" "status = 200" "reply = health_body"
      | (bad) sql msg where "p = ''/query''" "strcasecmp_eq m ''POST''" "carries_sql body sql" "sql_parse sql = Inl msg"
          "status = 400" "reply = error_text msg"
      | (wrong_method) "p = ''/health'' \<and> \<not> strcasecmp_eq m ''GET'' \<or> p = ''/query'' \<and> \<not> strcasecmp_eq m ''POST''"
          "status = 405" "reply = error_text ''method not allowed''"
      | (no_route) "p \<noteq> ''/health''" "p \<noteq> ''/query''" "status = 404" "reply = error_text ''route not found''"
      using assms(4) unfolding route_reply_def by (auto split: if_splits)
    then show ?thesis
    proof cases
      case health
      have "answered tid ?resp ?s1 (send_json_response tid 200 health_body ?s1)"
        unfolding health(3,4) by (rule send_json_response_answered [OF assms(2)]) (simp_all add: health_body_def SIZE_MAX_def)
      then show ?thesis using rd health
        by (intro exI [of _ "log_request tid fd ?req ''ok'' 0 False (send_json_response tid 200 health_body ?s1)"])
          (simp add: handle_client_def answered_logged)
    next
      case bad
      obtain e where "send_error_response tid 400 msg ?s1 = Some e" "answered tid ?resp ?s1 e"
        using err [of msg 400] sql_parse_message [OF bad(4)] bad(5,6) by auto
      then show ?thesis using rd bad carries_sql_extracted [OF bad(3)]
        by (simp add: handle_client_def handle_query_def answered_logged)
    next
      case wrong_method
      obtain e where "send_error_response tid 405 ''method not allowed'' ?s1 = Some e" "answered tid ?resp ?s1 e"
        using err [of "''method not allowed''" 405] wrong_method(2,3) by auto
      then show ?thesis using rd wrong_method(1) by (auto simp: handle_client_def answered_logged)
    next
      case no_route
      obtain e where "send_error_response tid 404 ''route not found'' ?s1 = Some e" "answered tid ?resp ?s1 e"
        using err [of "''route not found''" 404] no_route(3,4) by auto
      then show ?thesis using rd no_route(1,2) by (simp add: handle_client_def answered_logged)
    qed
  qed
  then obtain s2 where s2: "handle_client tid fd s = Some (close_client s2)" "answered tid ?resp ?s1 s2" by blast
  show ?thesis using answered_replied [OF s2(2) never works] s2(1) by simp
qed

subsection \<open>Insertion\<close>

text \<open>
  An INSERT of either form, and the row it stands for.
\<close>

definition insert_ast :: "bool \<Rightarrow> int \<Rightarrow> string \<Rightarrow> int \<Rightarrow> sql_ast" where
  "insert_ast has_id rid name age = (if has_id then InsertId rid name age else InsertAuto name age)"

definition served_insert :: "nat \<Rightarrow> Record \<Rightarrow> server \<Rightarrow> server \<Rightarrow> bool" where
  "served_insert tid r s s' \<longleftrightarrow>
     replied tid 200 (rows_text ALL_COLUMNS [r]) s s' \<and> rows_of (srv_db s') = rows_of (srv_db s) @ [r] \<and>
     file_text (srv_world s') (data_path (srv_db s)) = file_text (srv_world s) (data_path (srv_db s)) @ record_line r"

lemma execute_insert_ast:
  "execute_statement (stmt_of (insert_ast has_id rid name age)) w db =
     db_insert_internal has_id (if has_id then rid else 0) name age w db"
  by (cases has_id) (simp_all only: insert_ast_def if_True if_False execute_insert)

lemma insert_replied:
  assumes "db_inv (srv_db s)" "db_lock (srv_db s) = Unlocked" "db_count (srv_db s) < DB_ROWS_MAX"
    and "never_fails (srv_world s)" "tid \<le> SIZE_MAX"
    and "asks m ''/query'' body (srv_conn s)" "strcasecmp_eq m ''POST''"
    and "carries_sql body (sql_print (insert_ast has_id rid name age))" "ast_ok (insert_ast has_id rid name age)"
  shows "\<exists>s'. handle_client tid fd s = Some s' \<and> db_inv (srv_db s') \<and> db_lock (srv_db s') = Unlocked \<and>
    (if insert_refused has_id rid name age (srv_db s)
     then srv_db s' = srv_db s \<and> files (srv_world s') = files (srv_world s) \<and> (\<exists>err. replied tid 500 (error_text err) s s')
     else served_insert tid (new_record has_id rid name age (srv_db s)) s s')"
proof -
  let ?a = "insert_ast has_id rid name age" and ?db = "srv_db s" and ?i = "if has_id then rid else 0"
  have parsed: "sql_parse (sql_print ?a) = Inr (stmt_of ?a)" by (rule sql_parse_print [OF assms(9)])
  have fine: "db_fine ?db" using assms(1-3) by (simp add: db_fine_def)
  have "insert_name (stmt_of ?a) = name" by (simp add: insert_ast_def)
  then have "CHR 0x00 \<notin> set name" using sql_parse_chars [OF parsed] carries_sql_no_nul [OF assms(8)] by auto
  then have args: "insert_args ?i name age"
    using assms(9) by (auto simp: insert_ast_def insert_args_def int_ok_def name_ok_def INT_MAX_def split: if_splits)
  obtain w db res where x: "execute_statement (stmt_of ?a) (srv_world s) ?db = Some (w, db, res)"
      "goes_to (srv_world s) w" "db_step ?db db" "good_result res"
    using execute_any [OF parsed carries_sql_no_nul [OF assms(8)] fine] by blast
  obtain s' where s': "handle_client tid fd s = Some s'" "srv_db s' = db" "files (srv_world s') = files w"
      "if res_ok res then \<exists>buf rows. rows_json res = Some buf \<and> c_string buf = Some rows \<and> replied tid 200 rows s s'
       else replied tid 500 (error_text (res_message res)) s s'"
    using query_executed [OF assms(6,7,8) parsed assms(5,4) x(1,2,4)] by blast
  have refused: "insert_refused has_id ?i name age ?db = insert_refused has_id rid name age ?db"
      "new_record has_id ?i name age ?db = new_record has_id rid name age ?db"
    by (simp_all add: insert_refused_def new_record_def)
  have out: "if insert_refused has_id rid name age ?db then keeps_files (srv_world s) w \<and> db = ?db \<and> \<not> res_ok res
      else insert_outcome (new_record has_id rid name age ?db) (srv_world s) ?db w db res"
    using db_insert_internal_ok [OF assms(1,3) args assms(2), of has_id "srv_world s"] x(1)
    unfolding execute_insert_ast refused by auto
  have ready: "db_inv db" "db_lock db = Unlocked" using x(3) by (simp_all add: db_step_def)
  show ?thesis
  proof (cases "insert_refused has_id rid name age ?db")
    case True
    then have "db = ?db" "files w = files (srv_world s)" "replied tid 500 (error_text (res_message res)) s s'"
      using out s'(4) by (auto simp: keeps_files_def)
    then show ?thesis using True s' assms(1,2) by auto
  next
    case False
    let ?r = "new_record has_id rid name age ?db"
    have o: "insert_outcome ?r (srv_world s) ?db w db res" using False out by simp
    then have ok: "res_ok res" using never_fails_granted [OF assms(4), of w] by (simp add: insert_outcome_def)
    then have o': "rows_of db = rows_of ?db @ [?r]" "holds_rows res ALL_COLUMNS [?r]"
        "file_text w (data_path ?db) = file_text (srv_world s) (data_path ?db) @ record_line ?r"
      using o by (auto simp: insert_outcome_def)
    have "replied tid 200 (rows_text ALL_COLUMNS [?r]) s s'" using o'(2) ok s'(4) by (auto simp: holds_rows_def)
    moreover have "file_text (srv_world s') p = file_text w p" for p using s'(3) by (simp add: file_text_def)
    ultimately have "served_insert tid ?r s s'" using o' s'(2) by (simp add: served_insert_def)
    then show ?thesis using False s'(1,2) ready by auto
  qed
qed

end
