(* ===== verification/Table.thy ===== *)
theory Table
  imports ServerQuery
begin

section \<open>The server as a table\<close>

text \<open>
  The abstract specification of the whole program: a table is the list of its rows, a statement
  maps a table to a reply and the next table. \<open>engine_holds\<close> relates the engine and its data file
  to a table, and the engine, and with it the handling of a request, is shown to follow the
  specification whenever no call fails.
\<close>

subsection \<open>Specification\<close>

datatype table_reply = Rows "DbColumn list" "Record list" | Refused

definition table_insert :: "Record \<Rightarrow> Record list \<Rightarrow> table_reply \<times> Record list" where
  "table_insert r rs = (Rows ALL_COLUMNS [r], rs @ [r])"

text \<open>Of several rows with the id the last one counts.\<close>

fun table_select :: "where_ast \<Rightarrow> Record list \<Rightarrow> Record list" where
  "table_select WhereNone rs = rs"
| "table_select (WhereId k) rs =
     (case filter (\<lambda>r. rec_id r = k) rs of [] \<Rightarrow> [] | m # ms \<Rightarrow> [last (m # ms)])"
| "table_select (WhereName n) rs = filter (\<lambda>r. rec_name r = n) rs"

fun table_exec :: "sql_ast \<Rightarrow> Record list \<Rightarrow> table_reply \<times> Record list" where
  "table_exec (InsertId rid name age) rs =
     (if name_is_valid name \<and> rid \<notin> rec_id ` set rs
      then table_insert \<lparr>rec_id = rid, rec_name = name, rec_age = age\<rparr> rs else (Refused, rs))"
| "table_exec (InsertAuto name age) rs =
     (if name_is_valid name
      then table_insert \<lparr>rec_id = next_of rs, rec_name = name, rec_age = age\<rparr> rs else (Refused, rs))"
| "table_exec (Select cols wh) rs = (Rows (wanted_columns cols) (table_select wh rs), rs)"

text \<open>A sequence of statements: the replies, and the table at the end.\<close>

fun table_run :: "sql_ast list \<Rightarrow> Record list \<Rightarrow> table_reply list \<times> Record list" where
  "table_run [] rs = ([], rs)"
| "table_run (a # as) rs =
     (let r = table_exec a rs; q = table_run as (snd r) in (fst r # fst q, snd q))"

lemma table_run_snoc:
  "table_run (as @ [a]) rs =
     (fst (table_run as rs) @ [fst (table_exec a (snd (table_run as rs)))], snd (table_exec a (snd (table_run as rs))))"
  by (induction as arbitrary: rs) (simp_all add: Let_def)

lemma length_table_run [simp]: "length (fst (table_run as rs)) = length as"
  by (induction as arbitrary: rs) (simp_all add: Let_def)

lemma table_exec_length: "length (snd (table_exec a rs)) \<le> Suc (length rs)"
  by (cases a) (simp_all add: table_insert_def)

lemma table_run_length: "length (snd (table_run as rs)) \<le> length rs + length as"
proof (induction as arbitrary: rs)
  case (Cons a as)
  have "length (snd (table_run as (snd (table_exec a rs)))) \<le> length (snd (table_exec a rs)) + length as" by (rule Cons.IH)
  also have "\<dots> \<le> length rs + length (a # as)" using table_exec_length [of a rs] by simp
  finally show ?case by (simp add: Let_def)
qed simp

subsection \<open>The engine holds a table\<close>

definition engine_holds :: "string \<Rightarrow> Record list \<Rightarrow> 'w world_scheme \<Rightarrow> DbEngine \<Rightarrow> bool" where
  "engine_holds path rs w db \<longleftrightarrow> db_inv db \<and> db_indexed db \<and> db_lock db = Unlocked \<and> rows_of db = rs \<and>
     data_path db = path \<and> file_text w path = table_text rs"

lemma engine_holds_count: "engine_holds path rs w db \<Longrightarrow> db_count db = length rs"
  by (auto simp: engine_holds_def db_inv_def dest: length_rows_of)

lemma engine_holds_files: "engine_holds path rs w db \<Longrightarrow> files w' = files w \<Longrightarrow> engine_holds path rs w' db"
  by (simp add: engine_holds_def file_text_def)

lemma index_of_last:
  "(case index_of rs k of None \<Rightarrow> [] | Some i \<Rightarrow> [rs ! i]) = table_select (WhereId k) rs"
proof (induction rs rule: rev_induct)
  case (snoc r rs)
  show ?case
  proof (cases "rec_id r = k")
    case True
    then show ?thesis by (cases "filter (\<lambda>r. rec_id r = k) rs") simp_all
  next
    case False
    have "(rs @ [r]) ! i = rs ! i" if "index_of rs k = Some i" for i
      using index_of_Some [OF that] by (simp add: nth_append)
    then show ?thesis using False snoc by (auto split: option.splits)
  qed
qed simp

lemma selected_is_table_select:
  assumes "db_indexed db"
  shows "selected (where_filter wh) db = table_select wh (rows_of db)"
proof (cases wh)
  case (WhereId k)
  then show ?thesis using index_of_last [of "rows_of db" k] assms
    by (simp add: selected_def db_indexed_def del: table_select.simps)
qed (simp_all add: selected_def row_included_def [abs_def])

text \<open>The replies of the engine.\<close>

definition result_is :: "table_reply \<Rightarrow> DbResult \<Rightarrow> bool" where
  "result_is reply res \<longleftrightarrow> good_result res \<and>
     (case reply of Rows cols rs \<Rightarrow> res_ok res \<and> holds_rows res cols rs | Refused \<Rightarrow> \<not> res_ok res)"

definition name_of :: "sql_ast \<Rightarrow> string" where
  "name_of a = insert_name (stmt_of a)"

lemma insert_follows_table:
  assumes holds: "engine_holds path rs w db" and few: "length rs < DB_ROWS_MAX" and never: "never_fails w"
    and args: "insert_args i name age" and run: "db_insert_internal has_id i name age w db = Some (w', db', res)"
    and good: "good_result res"
  shows "if insert_refused has_id i name age db then engine_holds path rs w' db' \<and> result_is Refused res
    else engine_holds path (rs @ [new_record has_id i name age db]) w' db' \<and>
      result_is (Rows ALL_COLUMNS [new_record has_id i name age db]) res"
proof -
  have db: "db_inv db" "db_lock db = Unlocked" "db_count db < DB_ROWS_MAX" "db_indexed db" "rows_of db = rs"
      "file_text w path = table_text rs" "data_path db = path"
    using holds few engine_holds_count [OF holds] by (simp_all add: engine_holds_def)
  have out: "if insert_refused has_id i name age db then keeps_files w w' \<and> db' = db \<and> \<not> res_ok res
      else insert_outcome (new_record has_id i name age db) w db w' db' res"
    using db_insert_internal_ok [OF db(1,3) args db(2), of has_id w] run by auto
  show ?thesis
  proof (cases "insert_refused has_id i name age db")
    case True
    then show ?thesis using out holds good engine_holds_files by (auto simp: result_is_def keeps_files_def)
  next
    case False
    then have "insert_outcome (new_record has_id i name age db) w db w' db' res" using out by simp
    moreover have "granted w w'" by (rule never_fails_granted [OF never])
    ultimately show ?thesis using False db good
      by (auto simp: insert_outcome_def engine_holds_def result_is_def table_text_def)
  qed
qed

lemma execute_follows_table:
  assumes holds: "engine_holds path rs w db" and few: "length rs < DB_ROWS_MAX" and never: "never_fails w"
    and ok: "ast_ok a" and nul: "CHR 0x00 \<notin> set (name_of a)"
  shows "\<exists>w' db' res. execute_statement (stmt_of a) w db = Some (w', db', res) \<and> goes_to w w' \<and>
    engine_holds path (snd (table_exec a rs)) w' db' \<and> result_is (fst (table_exec a rs)) res"
proof -
  have db: "db_inv db" "db_lock db = Unlocked" "db_count db < DB_ROWS_MAX" "db_indexed db" "rows_of db = rs" "next_id db = next_of rs"
    using holds few engine_holds_count [OF holds] by (auto simp: engine_holds_def db_inv_def)
  have fine: "db_fine db" using db by (simp add: db_fine_def)
  have taken: "bptree_search (index db) k \<noteq> None \<longleftrightarrow> k \<in> rec_id ` set rs" for k
    using db(4,5) index_of_None [of rs k] by (auto simp: db_indexed_def)
  show ?thesis
  proof (cases a)
    case (InsertId rid name age)
    then have args: "insert_args rid name age" and pos: "0 < rid" "0 \<le> age"
      using ok nul by (simp_all add: name_of_def insert_args_def int_ok_def name_ok_def zero_stmt_def)
    obtain w' db' res where r: "db_insert_internal True rid name age w db = Some (w', db', res)" "goes_to w w'" "good_result res"
      using insert_any [OF fine args] by blast
    have "insert_refused True rid name age db \<longleftrightarrow> \<not> (name_is_valid name \<and> rid \<notin> rec_id ` set rs)"
      using pos taken [of rid] by (auto simp: insert_refused_def)
    then show ?thesis
      using insert_follows_table [OF holds few never args r(1,3)] r(1,2) execute_insert(1) [of rid name age w db]
      unfolding InsertId by (auto simp: table_insert_def new_record_def split: if_splits)
  next
    case (InsertAuto name age)
    then have args: "insert_args 0 name age" and pos: "0 \<le> age"
      using ok nul by (simp_all add: name_of_def insert_args_def int_ok_def name_ok_def zero_stmt_def INT_MAX_def)
    obtain w' db' res where r: "db_insert_internal False 0 name age w db = Some (w', db', res)" "goes_to w w'" "good_result res"
      using insert_any [OF fine args] by blast
    have "insert_refused False 0 name age db \<longleftrightarrow> \<not> name_is_valid name"
      using pos by (auto simp: insert_refused_def)
    then show ?thesis
      using insert_follows_table [OF holds few never args r(1,3)] r(1,2) execute_insert(2) [of name age w db] db(6)
      unfolding InsertAuto by (auto simp: table_insert_def new_record_def split: if_splits)
  next
    case (Select cols wh)
    obtain p where p: "execute_statement (stmt_of a) w db = db_select_projected (where_filter wh) p w db" "proj_ok p"
        "columns_of (effective p) = wanted_columns cols"
      using execute_select [of cols wh w db] ok Select by auto
    obtain w' res where r: "db_select_projected (where_filter wh) p w db = Some (w', db, res)" "keeps_files w w'"
        "granted w w' \<longrightarrow> res_ok res" "res_ok res \<longrightarrow> holds_rows res (columns_of (effective p)) (selected (where_filter wh) db)"
      using db_select_projected_ok [OF db(1,3) p(2) db(2), of "where_filter wh" w] by blast
    have "good_result res" using select_any [OF fine p(2), of "where_filter wh" w] r(1) by auto
    then have "result_is (Rows (wanted_columns cols) (table_select wh rs)) res"
      using r(3,4) never_fails_granted [OF never] p(3) selected_is_table_select [OF db(4), of wh] db(5)
      by (simp add: result_is_def)
    moreover have "engine_holds path rs w' db" using r(2) holds engine_holds_files by (auto simp: keeps_files_def)
    ultimately show ?thesis using p(1) r(1) keeps_files_goes_to [OF r(2)] Select by simp
  qed
qed

end
