(* ===== verification/Concurrency.thy ===== *)
theory Concurrency
  imports Phases Table
begin

section \<open>Clients side by side\<close>

text \<open>
  Any number of clients whose requests are handled at the same time, their phases interleaved in
  any order (there is no bound on the workers here, so every schedule of the pool is among these).
  The state is what the workers share, the environment and the engine, and the phase of each
  client; \<open>conc_order\<close> records the order of the engine operations.
\<close>

record conc =
  conc_world :: world
  conc_db :: DbEngine
  conc_phase :: "phase list"
  conc_order :: "nat list"

inductive client_step :: "(nat \<Rightarrow> nat) \<Rightarrow> conc \<Rightarrow> conc \<Rightarrow> bool" for tid where
  step_read: "i < length (conc_phase s) \<Longrightarrow> conc_phase s ! i = Reading c \<Longrightarrow> client_read c = Some ph \<Longrightarrow>
    client_step tid s (s\<lparr>conc_phase := (conc_phase s)[i := ph]\<rparr>)"
| step_execute: "i < length (conc_phase s) \<Longrightarrow> conc_phase s ! i = Executing stmt c \<Longrightarrow>
    client_execute stmt (conc_world s) (conc_db s) = Some (ans, w, db) \<Longrightarrow>
    client_step tid s (s\<lparr>conc_world := w, conc_db := db, conc_phase := (conc_phase s)[i := Answering ans c],
      conc_order := conc_order s @ [i]\<rparr>)"
| step_answer: "i < length (conc_phase s) \<Longrightarrow> conc_phase s ! i = Answering ans c \<Longrightarrow>
    client_answer (tid i) ans \<lparr>srv_world = conc_world s, srv_db = conc_db s, srv_conn = c, srv_closes = 0, srv_log = []\<rparr> = Some s1 \<Longrightarrow>
    client_step tid s (s\<lparr>conc_world := srv_world s1, conc_phase := (conc_phase s)[i := Finished (srv_conn s1)]\<rparr>)"

subsection \<open>One phase\<close>

text \<open>A client that asks for a statement, and what it gets for a reply of the table.\<close>

definition asks_statement :: "sql_ast \<Rightarrow> conn \<Rightarrow> bool" where
  "asks_statement a c \<longleftrightarrow> ast_ok a \<and>
     (\<exists>m body. asks m ''/query'' body c \<and> strcasecmp_eq m ''POST'' \<and> carries_sql body (sql_print a))"

definition reply_text :: "nat \<Rightarrow> table_reply \<Rightarrow> string \<Rightarrow> bool" where
  "reply_text tid reply out \<longleftrightarrow>
     (case reply of Rows cols rs \<Rightarrow> out = response_text 200 (rows_text cols rs) tid
      | Refused \<Rightarrow> \<exists>err. out = response_text 500 (error_text err) tid)"

definition answer_is :: "table_reply \<Rightarrow> answer \<Rightarrow> bool" where
  "answer_is reply ans \<longleftrightarrow>
     (case reply of Rows cols rs \<Rightarrow> ans = Body 200 (rows_text cols rs) \<and> length (rows_text cols rs) < SIZE_MAX
      | Refused \<Rightarrow> \<exists>m. ans = Message 500 m \<and> length m < 256)"

lemma asks_statement_text:
  assumes "asks_statement a c"
  shows "sql_parse (sql_print a) = Inr (stmt_of a)" "CHR 0x00 \<notin> set (name_of a)"
proof -
  show p: "sql_parse (sql_print a) = Inr (stmt_of a)" using assms by (auto simp: asks_statement_def intro: sql_parse_print)
  show "CHR 0x00 \<notin> set (name_of a)"
    using sql_parse_chars [OF p] carries_sql_no_nul assms by (auto simp: asks_statement_def name_of_def)
qed

lemma client_read_statement:
  assumes "asks_statement a c"
  shows "\<exists>c'. client_read c = Some (Executing (stmt_of a) c') \<and> sent c' = sent c \<and> send_works c'"
proof -
  obtain m body where q: "asks m ''/query'' body c" "strcasecmp_eq m ''POST''" "carries_sql body (sql_print a)"
    using assms by (auto simp: asks_statement_def)
  obtain c' where c': "http_read_request c = Some (Inr (request_of m ''/query'' body), c')" "same_out c c'"
    using asks_read [OF q(1)] by blast
  have "dispatch (request_of m ''/query'' body) = Inr (stmt_of a)"
    using q(2) carries_sql_extracted [OF q(3)] asks_statement_text(1) [OF assms] by (simp add: dispatch_def)
  moreover have "sent c' = sent c" "send_works c'" using c'(2) q(1) by (auto simp: same_out_def asks_def send_works_def)
  ultimately show ?thesis using c'(1) by (simp add: client_read_def)
qed

lemma client_execute_follows_table:
  assumes "engine_holds path rs w db" "length rs < DB_ROWS_MAX" "never_fails w" "ast_ok a" "CHR 0x00 \<notin> set (name_of a)"
  shows "\<exists>ans w' db'. client_execute (stmt_of a) w db = Some (ans, w', db') \<and> never_fails w' \<and>
    engine_holds path (snd (table_exec a rs)) w' db' \<and> answer_is (fst (table_exec a rs)) ans"
proof -
  obtain w' db' res where x: "execute_statement (stmt_of a) w db = Some (w', db', res)" "goes_to w w'"
      "engine_holds path (snd (table_exec a rs)) w' db'" "result_is (fst (table_exec a rs)) res"
    using execute_follows_table [OF assms] by blast
  have never: "never_fails w'" using never_fails_goes_to [OF assms(3) x(2)] .
  show ?thesis
  proof (cases "fst (table_exec a rs)")
    case (Rows cols xs)
    then obtain buf where "res_ok res" "rows_json res = Some buf" "c_string buf = Some (rows_text cols xs)"
        "length (rows_text cols xs) < SIZE_MAX"
      using x(4) by (auto simp: result_is_def holds_rows_def good_result_def)
    then show ?thesis using x(1,3) never Rows by (simp add: client_execute_def answer_is_def)
  next
    case Refused
    then have "\<not> res_ok res" "length (res_message res) < 256" using x(4) by (simp_all add: result_is_def good_result_def)
    then show ?thesis using x(1,3) never Refused by (simp add: client_execute_def answer_is_def)
  qed
qed

lemma client_answer_sent:
  assumes "answer_is reply ans" "tid \<le> SIZE_MAX" "send_works (srv_conn s)" "never_fails (srv_world s)" "sent (srv_conn s) = []"
  shows "\<exists>s'. client_answer tid ans s = Some s' \<and> keeps_files (srv_world s) (srv_world s') \<and> never_fails (srv_world s') \<and>
    reply_text tid reply (sent (srv_conn s')) \<and> srv_db s' = srv_db s \<and> srv_closes s' = srv_closes s"
proof -
  have whole: "keeps_files (srv_world s) (srv_world s') \<and> never_fails (srv_world s') \<and>
      sent (srv_conn s') = response_text status body tid \<and> srv_db s' = srv_db s \<and> srv_closes s' = srv_closes s"
    if a: "answered tid (\<lambda>st b. st = status \<and> b = body) s s'" for s' status body
  proof -
    have kf: "keeps_files (srv_world s) (srv_world s')" using a by (simp add: answered_def)
    have "granted (srv_world s) (srv_world s')" by (rule never_fails_granted [OF assms(4)])
    then show ?thesis
      using a assms(3,5) kf never_fails_goes_to [OF assms(4) keeps_files_goes_to [OF kf]] by (auto simp: answered_def)
  qed
  show ?thesis
  proof (cases reply)
    case (Rows cols rs)
    then have b: "ans = Body 200 (rows_text cols rs)" "length (rows_text cols rs) < SIZE_MAX"
      using assms(1) by (simp_all add: answer_is_def)
    have "answered tid (\<lambda>st bd. st = 200 \<and> bd = rows_text cols rs) s (send_json_response tid 200 (rows_text cols rs) s)"
      by (rule send_json_response_answered [OF assms(2) b(2)]) simp
    from whole [OF this] show ?thesis using b(1) Rows by (simp add: client_answer_def reply_text_def)
  next
    case Refused
    then obtain m where m: "ans = Message 500 m" "length m < 256" using assms(1) by (auto simp: answer_is_def)
    obtain s' where "send_error_response tid 500 m s = Some s'"
        "answered tid (\<lambda>st b. st = 500 \<and> b = error_text m) s s'"
      using error_answered [OF assms(2) m(2) _ assms(4), of 500] by auto
    with whole [OF this(2)] show ?thesis using m(1) Refused by (auto simp: client_answer_def reply_text_def)
  qed
qed

text \<open>A client alone, from \<open>handle_client\<close> itself.\<close>

lemma serve_job_follows_table:
  assumes "engine_holds path rs w db" "length rs < DB_ROWS_MAX" "never_fails w"
    and "asks_statement a c" "sent c = []" "tid \<le> SIZE_MAX"
  shows "\<exists>out w' db'. serve_job (tid, fd, c) (w, db) = Some ((fd, 1, out), w', db') \<and> never_fails w' \<and>
    engine_holds path (snd (table_exec a rs)) w' db' \<and> reply_text tid (fst (table_exec a rs)) out"
proof -
  let ?s = "\<lparr>srv_world = w, srv_db = db, srv_conn = c, srv_closes = 0, srv_log = []\<rparr>"
  have a: "ast_ok a" using assms(4) by (simp add: asks_statement_def)
  obtain c' where r: "client_read c = Some (Executing (stmt_of a) c')" "sent c' = []" "send_works c'"
    using client_read_statement [OF assms(4)] assms(5) by auto
  obtain ans w1 db1 where x: "client_execute (stmt_of a) w db = Some (ans, w1, db1)" "never_fails w1"
      "engine_holds path (snd (table_exec a rs)) w1 db1" "answer_is (fst (table_exec a rs)) ans"
    using client_execute_follows_table [OF assms(1-3) a asks_statement_text(2) [OF assms(4)]] by blast
  let ?s1 = "?s\<lparr>srv_conn := c', srv_world := w1, srv_db := db1\<rparr>"
  obtain s2 where s2: "client_answer tid ans ?s1 = Some s2" "keeps_files w1 (srv_world s2)" "never_fails (srv_world s2)"
      "reply_text tid (fst (table_exec a rs)) (sent (srv_conn s2))" "srv_db s2 = db1" "srv_closes s2 = 0"
    using client_answer_sent [OF x(4) assms(6), of ?s1] r(2,3) x(2) by auto
  have "client_phases tid ?s = Some (close_client s2)" using r(1) x(1) s2(1) by (simp add: client_phases_def)
  then obtain s' where s': "handle_client tid fd ?s = Some s'" "unlogged s' = unlogged (close_client s2)"
    using handle_client_phases_eq [of tid fd ?s] by auto
  then have "srv_world s' = srv_world s2" "srv_db s' = db1" "srv_conn s' = srv_conn s2" "srv_closes s' = 1"
    using s2(5,6) by (simp_all add: unlogged_def close_client_def) (metis server.select_convs server.surjective server.update_convs)+
  moreover have "engine_holds path (snd (table_exec a rs)) (srv_world s2) db1"
    using engine_holds_files [OF x(3), of "srv_world s2"] s2(2) by (simp add: keeps_files_def)
  ultimately show ?thesis using s'(1) s2(3,4) by (simp add: serve_job_def)
qed

subsection \<open>The invariant\<close>

text \<open>
  At every moment the engine holds the table after the statements executed so far, one after the
  other in the order of the engine operations, and a client that has executed has, or has
  sent, the reply of its statement in that sequence.
\<close>

definition order_run :: "sql_ast list \<Rightarrow> Record list \<Rightarrow> nat list \<Rightarrow> table_reply list \<times> Record list" where
  "order_run asts rs0 order = table_run (map ((!) asts) order) rs0"

definition reply_of :: "sql_ast list \<Rightarrow> Record list \<Rightarrow> nat list \<Rightarrow> nat \<Rightarrow> table_reply option" where
  "reply_of asts rs0 order i = map_of (zip order (fst (order_run asts rs0 order))) i"

fun phase_ok :: "sql_ast list \<Rightarrow> Record list \<Rightarrow> (nat \<Rightarrow> nat) \<Rightarrow> nat list \<Rightarrow> nat \<Rightarrow> phase \<Rightarrow> bool" where
  "phase_ok asts rs0 tid order i (Reading c) \<longleftrightarrow> i \<notin> set order \<and> asks_statement (asts ! i) c \<and> sent c = []"
| "phase_ok asts rs0 tid order i (Executing stmt c) \<longleftrightarrow>
     i \<notin> set order \<and> stmt = stmt_of (asts ! i) \<and> ast_ok (asts ! i) \<and> CHR 0x00 \<notin> set (name_of (asts ! i)) \<and>
     sent c = [] \<and> send_works c"
| "phase_ok asts rs0 tid order i (Answering ans c) \<longleftrightarrow>
     (\<exists>reply. reply_of asts rs0 order i = Some reply \<and> answer_is reply ans) \<and> sent c = [] \<and> send_works c"
| "phase_ok asts rs0 tid order i (Finished c) \<longleftrightarrow>
     (\<exists>reply. reply_of asts rs0 order i = Some reply \<and> reply_text (tid i) reply (sent c))"

definition conc_inv :: "string \<Rightarrow> sql_ast list \<Rightarrow> Record list \<Rightarrow> (nat \<Rightarrow> nat) \<Rightarrow> conc \<Rightarrow> bool" where
  "conc_inv path asts rs0 tid s \<longleftrightarrow> length (conc_phase s) = length asts \<and>
     distinct (conc_order s) \<and> set (conc_order s) \<subseteq> {..<length asts} \<and> never_fails (conc_world s) \<and>
     engine_holds path (snd (order_run asts rs0 (conc_order s))) (conc_world s) (conc_db s) \<and>
     (\<forall>i<length asts. phase_ok asts rs0 tid (conc_order s) i (conc_phase s ! i))"

lemma length_order_run [simp]: "length (fst (order_run asts rs0 order)) = length order"
  by (simp add: order_run_def)

lemma order_run_snoc:
  "order_run asts rs0 (order @ [i]) =
     (fst (order_run asts rs0 order) @ [fst (table_exec (asts ! i) (snd (order_run asts rs0 order)))],
      snd (table_exec (asts ! i) (snd (order_run asts rs0 order))))"
  by (simp add: order_run_def table_run_snoc)

lemma reply_of_in: "reply_of asts rs0 order i = Some reply \<Longrightarrow> i \<in> set order"
  by (auto simp: reply_of_def dest!: map_of_SomeD set_zip_leftD)

lemma reply_of_snoc:
  assumes "i \<notin> set order"
  shows "reply_of asts rs0 (order @ [i]) j =
    (if j = i then Some (fst (table_exec (asts ! i) (snd (order_run asts rs0 order)))) else reply_of asts rs0 order j)"
proof -
  let ?z = "map_of (zip order (fst (order_run asts rs0 order)))"
  have none: "?z i = None" using assms by (auto simp: map_of_eq_None_iff dest: set_zip_leftD)
  show ?thesis
  proof (cases "j = i")
    case True
    then show ?thesis by (simp add: reply_of_def order_run_snoc map_add_def none)
  next
    case False
    have "(m ++ z) j = z j" if "m j = None" for m z :: "nat \<Rightarrow> table_reply option"
      using that by (simp add: map_add_def split: option.split)
    from this [of "map_of [(i, reply)]" ?z for reply] show ?thesis using False
      by (simp add: reply_of_def order_run_snoc del: map_of_zip_is_None)
  qed
qed

text \<open>Another client's engine operation does not change what is promised.\<close>

lemma phase_ok_snoc:
  assumes "phase_ok asts rs0 tid order j ph" "i \<notin> set order" "j \<noteq> i"
  shows "phase_ok asts rs0 tid (order @ [i]) j ph"
  using assms by (cases ph) (simp_all add: reply_of_snoc)

lemma order_run_length: "length (snd (order_run asts rs0 order)) \<le> length rs0 + length order"
proof (induction order rule: rev_induct)
  case Nil
  then show ?case by (simp add: order_run_def)
next
  case (snoc i order)
  then show ?case using table_exec_length [of "asts ! i" "snd (order_run asts rs0 order)"] by (simp add: order_run_snoc)
qed

text \<open>How far a run can still go.\<close>

fun phases_left :: "phase \<Rightarrow> nat" where
  "phases_left (Reading c) = 3"
| "phases_left (Executing stmt c) = 2"
| "phases_left (Answering ans c) = 1"
| "phases_left (Finished c) = 0"

lemma order_room:
  assumes "distinct order" "set order \<subseteq> {..<n}" "i < n" "i \<notin> set order"
  shows "length order < n"
proof -
  have "distinct (i # order)" "set (i # order) \<subseteq> {..<n}" using assms by auto
  then have "length (i # order) \<le> card {..<n}" by (metis card_mono distinct_card finite_lessThan)
  then show ?thesis by simp
qed

lemma client_step_inv:
  assumes "client_step tid s s'" "conc_inv path asts rs0 tid s"
    and "\<forall>i. tid i \<le> SIZE_MAX" "length rs0 + length asts \<le> DB_ROWS_MAX"
  shows "conc_inv path asts rs0 tid s'"
proof -
  let ?n = "length asts" and ?ord = "conc_order s"
  have inv: "length (conc_phase s) = ?n" "distinct ?ord" "set ?ord \<subseteq> {..<?n}" "never_fails (conc_world s)"
      "engine_holds path (snd (order_run asts rs0 ?ord)) (conc_world s) (conc_db s)"
      "\<And>i. i < ?n \<Longrightarrow> phase_ok asts rs0 tid ?ord i (conc_phase s ! i)"
    using assms(2) by (simp_all add: conc_inv_def)
  show ?thesis
    using assms(1)
  proof cases
    case (step_read i c ph)
    then have ok: "i \<notin> set ?ord" "asks_statement (asts ! i) c" "sent c = []" using inv(1) inv(6) [of i] by auto
    obtain c' where "ph = Executing (stmt_of (asts ! i)) c'" "sent c' = []" "send_works c'"
      using client_read_statement [OF ok(2)] step_read(4) ok(3) by auto
    then have "phase_ok asts rs0 tid ?ord i ph"
      using ok(1) asks_statement_text(2) [OF ok(2)] ok(2) by (simp add: asks_statement_def)
    then show ?thesis using step_read(1,2) inv by (auto simp: conc_inv_def nth_list_update)
  next
    case (step_execute i stmt c ans w db)
    have i: "i < ?n" "i \<notin> set ?ord" "stmt = stmt_of (asts ! i)" "sent c = []" "send_works c"
      using step_execute inv(1) inv(6) [of i] by auto
    have "length ?ord < ?n" by (rule order_room [OF inv(2,3) i(1,2)])
    then have few: "length (snd (order_run asts rs0 ?ord)) < DB_ROWS_MAX"
      using order_run_length [of asts rs0 ?ord] assms(4) by linarith
    have a: "ast_ok (asts ! i)" "CHR 0x00 \<notin> set (name_of (asts ! i))"
      using step_execute(2,3) inv(1) inv(6) [of i] by auto
    obtain "never_fails w" "engine_holds path (snd (order_run asts rs0 (?ord @ [i]))) w db"
        "answer_is (fst (table_exec (asts ! i) (snd (order_run asts rs0 ?ord)))) ans"
      using client_execute_follows_table [OF inv(5) few inv(4) a] step_execute(4) i(3) by (auto simp: order_run_snoc)
    moreover have "phase_ok asts rs0 tid (?ord @ [i]) i (Answering ans c)"
      using calculation(3) i(2,4,5) by (simp add: reply_of_snoc)
    ultimately show ?thesis
      using step_execute(1,2) inv(1-3) i(1,2) inv(6) phase_ok_snoc [OF _ i(2)]
      by (auto simp: conc_inv_def nth_list_update)
  next
    case (step_answer i ans c s1)
    have i: "i < ?n" "sent c = []" "send_works c" using step_answer inv(1) inv(6) [of i] by auto
    obtain reply where r: "reply_of asts rs0 ?ord i = Some reply" "answer_is reply ans"
      using step_answer inv(1) inv(6) [of i] by auto
    let ?s = "\<lparr>srv_world = conc_world s, srv_db = conc_db s, srv_conn = c, srv_closes = 0, srv_log = []\<rparr>"
    have "\<exists>s'. client_answer (tid i) ans ?s = Some s' \<and> keeps_files (srv_world ?s) (srv_world s') \<and> never_fails (srv_world s') \<and>
        reply_text (tid i) reply (sent (srv_conn s')) \<and> srv_db s' = srv_db ?s \<and> srv_closes s' = srv_closes ?s"
      by (rule client_answer_sent [OF r(2)]) (use assms(3) i inv(4) in simp_all)
    then have o: "keeps_files (conc_world s) (srv_world s1)" "never_fails (srv_world s1)"
        "reply_text (tid i) reply (sent (srv_conn s1))"
      using step_answer(4) by auto
    have "engine_holds path (snd (order_run asts rs0 ?ord)) (srv_world s1) (conc_db s)"
      using engine_holds_files [OF inv(5), of "srv_world s1"] o(1) by (simp add: keeps_files_def)
    then show ?thesis using step_answer(1,2) inv(1-3,6) i(1) o r(1) by (auto simp: conc_inv_def nth_list_update)
  qed
qed

text \<open>A client that has not finished can step, whatever the others do, and every step uses up phases.\<close>

lemma client_can_step:
  assumes "conc_inv path asts rs0 tid s" "\<forall>i. tid i \<le> SIZE_MAX" "length rs0 + length asts \<le> DB_ROWS_MAX"
    and i: "i < length asts" "\<nexists>c. conc_phase s ! i = Finished c"
  shows "\<exists>s'. client_step tid s s'"
proof -
  let ?ord = "conc_order s"
  have inv: "i < length (conc_phase s)" "never_fails (conc_world s)" "distinct ?ord" "set ?ord \<subseteq> {..<length asts}"
      "engine_holds path (snd (order_run asts rs0 ?ord)) (conc_world s) (conc_db s)"
      "phase_ok asts rs0 tid ?ord i (conc_phase s ! i)"
    using assms(1) i(1) by (simp_all add: conc_inv_def)
  show ?thesis
  proof (cases "conc_phase s ! i")
    case (Reading c)
    then obtain c' where "client_read c = Some (Executing (stmt_of (asts ! i)) c')"
      using inv(6) client_read_statement [of "asts ! i" c] by auto
    from step_read [OF inv(1) Reading this] show ?thesis by blast
  next
    case (Executing stmt c)
    have e: "i \<notin> set ?ord" "stmt = stmt_of (asts ! i)" "ast_ok (asts ! i)" "CHR 0x00 \<notin> set (name_of (asts ! i))"
      using inv(6) Executing by auto
    have "length (snd (order_run asts rs0 ?ord)) < DB_ROWS_MAX"
      using order_run_length [of asts rs0 ?ord] order_room [OF inv(3,4) i(1) e(1)] assms(3) by linarith
    then obtain ans w db where "client_execute stmt (conc_world s) (conc_db s) = Some (ans, w, db)"
      using client_execute_follows_table [OF inv(5) _ inv(2) e(3,4)] e(2) by blast
    from step_execute [OF inv(1) Executing this] show ?thesis by blast
  next
    case (Answering ans c)
    let ?s = "\<lparr>srv_world = conc_world s, srv_db = conc_db s, srv_conn = c, srv_closes = 0, srv_log = []\<rparr>"
    obtain reply where r: "answer_is reply ans" "sent c = []" "send_works c" using inv(6) Answering by auto
    then obtain s1 where "client_answer (tid i) ans ?s = Some s1"
      using client_answer_sent [OF r(1), of "tid i" ?s] assms(2) inv(2) by auto
    from client_step.step_answer [where s = s and i = i and tid = tid, OF inv(1) Answering this] show ?thesis by blast
  qed (use i(2) in simp)
qed

lemma sum_list_update_less:
  "i < length xs \<Longrightarrow> f y < f (xs ! i) \<Longrightarrow> sum_list (map f (xs[i := y])) < (sum_list (map f xs) :: nat)"
  by (induction xs arbitrary: i) (auto split: nat.split)

lemma client_read_left: "client_read c = Some ph \<Longrightarrow> phases_left ph < 3"
  by (auto simp: client_read_def split: option.splits sum.splits prod.splits)

lemma client_step_less:
  assumes "client_step tid s s'"
  shows "sum_list (map phases_left (conc_phase s')) < sum_list (map phases_left (conc_phase s))"
  using assms
proof cases
  case (step_read i c ph)
  then show ?thesis using client_read_left [of c ph] by (simp add: sum_list_update_less)
qed (simp_all add: sum_list_update_less)

text \<open>A run of \<open>k\<close> steps from clients that all wait to be read.\<close>

definition conc_start :: "world \<Rightarrow> DbEngine \<Rightarrow> conn list \<Rightarrow> conc" where
  "conc_start w db cs = \<lparr>conc_world = w, conc_db = db, conc_phase = map Reading cs, conc_order = []\<rparr>"

lemma conc_inv_start:
  assumes "engine_holds path rs0 w db" "never_fails w" "list_all2 asks_statement asts cs" "\<forall>c\<in>set cs. sent c = []"
  shows "conc_inv path asts rs0 tid (conc_start w db cs)"
proof -
  have "length asts = length cs" using assms(3) by (rule list_all2_lengthD)
  then show ?thesis using assms list_all2_nthD [OF assms(3)]
    by (auto simp: conc_inv_def conc_start_def order_run_def)
qed

lemma conc_run:
  assumes "(client_step tid ^^ k) (conc_start w db cs) s" "engine_holds path rs0 w db" "never_fails w"
    and "list_all2 asks_statement asts cs" "\<forall>c\<in>set cs. sent c = []"
    and "\<forall>i. tid i \<le> SIZE_MAX" "length rs0 + length asts \<le> DB_ROWS_MAX"
  shows "conc_inv path asts rs0 tid s \<and> k + sum_list (map phases_left (conc_phase s)) \<le> 3 * length cs"
  using assms(1)
proof (induction k arbitrary: s)
  case 0
  then have "s = conc_start w db cs" by simp
  then show ?case using conc_inv_start [OF assms(2-5)] by (simp add: conc_start_def comp_def sum_list_triv)
next
  case (Suc k)
  then obtain s1 where s1: "(client_step tid ^^ k) (conc_start w db cs) s1" "client_step tid s1 s" by auto
  note IH = Suc.IH [OF s1(1)]
  then show ?case
    using client_step_inv [OF s1(2) _ assms(6,7)] client_step_less [OF s1(2)] by fastforce
qed

text \<open>When no client can step, all have finished, each with the reply at its place in the order.\<close>

lemma conc_inv_end:
  assumes inv: "conc_inv path asts rs0 tid s" and "\<forall>i. tid i \<le> SIZE_MAX" "length rs0 + length asts \<le> DB_ROWS_MAX"
    and stuck: "\<nexists>s'. client_step tid s s'"
  shows "distinct (conc_order s) \<and> set (conc_order s) = {..<length asts} \<and>
    (\<forall>p<length asts. \<exists>c. conc_phase s ! (conc_order s ! p) = Finished c \<and>
       reply_text (tid (conc_order s ! p)) (fst (order_run asts rs0 (conc_order s)) ! p) (sent c))"
proof -
  let ?ord = "conc_order s" and ?n = "length asts"
  have fin: "\<exists>c. conc_phase s ! i = Finished c" if "i < ?n" for i
    using client_can_step [OF inv assms(2,3) that] stuck by blast
  have d: "distinct ?ord" "set ?ord \<subseteq> {..<?n}" using inv by (simp_all add: conc_inv_def)
  have ok: "phase_ok asts rs0 tid ?ord i (conc_phase s ! i)" if "i < ?n" for i using inv that by (simp add: conc_inv_def)
  have "i \<in> set ?ord" if "i < ?n" for i
    using fin [OF that] ok [OF that] reply_of_in by fastforce
  then have all: "set ?ord = {..<?n}" using d(2) by auto
  then have len: "length ?ord = ?n" using distinct_card [OF d(1)] by simp
  have "\<exists>c. conc_phase s ! (?ord ! p) = Finished c \<and>
      reply_text (tid (?ord ! p)) (fst (order_run asts rs0 ?ord) ! p) (sent c)" if p: "p < ?n" for p
  proof -
    have i: "?ord ! p < ?n" using all len p nth_mem [of p ?ord] by auto
    obtain c where c: "conc_phase s ! (?ord ! p) = Finished c" using fin [OF i] by blast
    obtain reply where r: "reply_of asts rs0 ?ord (?ord ! p) = Some reply" "reply_text (tid (?ord ! p)) reply (sent c)"
      using ok [OF i] c by auto
    have "reply_of asts rs0 ?ord (?ord ! p) = Some (fst (order_run asts rs0 ?ord) ! p)"
      unfolding reply_of_def using d(1) len p by (intro map_of_zip_nth) simp_all
    then show ?thesis using c r by simp
  qed
  then show ?thesis using d(1) all by blast
qed

text \<open>Some run comes to its end.\<close>

lemma conc_run_ends:
  assumes "engine_holds path rs0 w db" "never_fails w" "list_all2 asks_statement asts cs" "\<forall>c\<in>set cs. sent c = []"
    and "\<forall>i. tid i \<le> SIZE_MAX" "length rs0 + length asts \<le> DB_ROWS_MAX"
  shows "\<exists>k s. (client_step tid ^^ k) (conc_start w db cs) s \<and> (\<nexists>s'. client_step tid s s')"
  by (rule bounded_run_ends [where n = "3 * length cs"]) (use conc_run [OF _ assms] in fastforce)

end
