(* ===== verification/ConcurrencyAny.thy ===== *)
theory ConcurrencyAny
  imports Concurrency
begin

section \<open>Any clients, any failures\<close>

text \<open>
  The concurrent system without the assumption that nothing fails: whatever the peers send, however
  the sockets behave and whatever calls fail, in every interleaving. What survives is safety: no
  step is undefined, the engine keeps its invariant between any two steps, no row disappears, and
  a client gets at most one response.
\<close>

fun answer_fine :: "answer \<Rightarrow> bool" where
  "answer_fine (Body status body) \<longleftrightarrow> status \<in> {200, 400, 404, 405, 500} \<and> length body < SIZE_MAX"
| "answer_fine (Message status m) \<longleftrightarrow> status \<in> {400, 404, 405, 500} \<and> length m < 256"

definition response_prefix :: "nat \<Rightarrow> string \<Rightarrow> bool" where
  "response_prefix tid out \<longleftrightarrow>
     (\<exists>status body k. status \<in> {200, 400, 404, 405, 500} \<and> out = take k (response_text status body tid))"

fun phase_any :: "nat \<Rightarrow> phase \<Rightarrow> bool" where
  "phase_any tid (Reading c) \<longleftrightarrow> sent c = []"
| "phase_any tid (Executing stmt c) \<longleftrightarrow> (\<exists>sql. sql_parse sql = Inr stmt \<and> CHR 0x00 \<notin> set sql) \<and> sent c = []"
| "phase_any tid (Answering ans c) \<longleftrightarrow> answer_fine ans \<and> sent c = []"
| "phase_any tid (Finished c) \<longleftrightarrow> response_prefix tid (sent c)"

subsection \<open>One phase\<close>

lemma dispatch_fine:
  assumes "length (req_body request) < SIZE_MAX"
  shows "case dispatch request of Inl ans \<Rightarrow> answer_fine ans
    | Inr stmt \<Rightarrow> \<exists>sql. sql_parse sql = Inr stmt \<and> CHR 0x00 \<notin> set sql"
proof -
  have body: "CHR 0x00 \<notin> set (cstr (req_body request))" "length (cstr (req_body request)) < SIZE_MAX"
    using assms length_takeWhile_le [of _ "req_body request"] unfolding cstr_def
    by (auto dest: set_takeWhileD intro: le_less_trans)
  let ?x = "http_extract_sql (cstr (req_body request)) SQL_MAX_LEN"
  have query: "case (case ?x of Inl err \<Rightarrow> Inl (Message 400 err)
      | Inr sql \<Rightarrow> (case sql_parse sql of Inl err \<Rightarrow> Inl (Message 400 err) | Inr stmt \<Rightarrow> Inr stmt)) of
      Inl ans \<Rightarrow> answer_fine ans | Inr stmt \<Rightarrow> \<exists>sql. sql_parse sql = Inr stmt \<and> CHR 0x00 \<notin> set sql"
  proof (cases ?x)
    case (Inl err)
    then show ?thesis using http_extract_sql_message [OF Inl] by simp
  next
    case (Inr sql)
    have nul: "CHR 0x00 \<notin> set sql" using http_extract_sql_ok [OF Inr _ body(2)] body(1) by (simp add: SQL_MAX_LEN_def)
    show ?thesis
    proof (cases "sql_parse sql")
      case (Inl err)
      then show ?thesis using Inr sql_parse_message [OF Inl] by simp
    next
      case (Inr stmt)
      then show ?thesis using \<open>?x = Inr sql\<close> nul by auto
    qed
  qed
  have "length health_body < SIZE_MAX" by (simp add: health_body_def SIZE_MAX_def)
  with query show ?thesis unfolding dispatch_def by simp
qed

lemma client_read_fine:
  assumes "sent c = []"
  shows "\<exists>ph. client_read c = Some ph \<and> phase_any tid ph"
proof -
  obtain r c' where r: "http_read_request c = Some (r, c')" "same_out c c'" "\<And>req. r = Inr req \<Longrightarrow> request_bounds req"
    using http_read_request_returns [of c] by blast
  have s: "sent c' = []" using assms r(2) by (simp add: same_out_def)
  show ?thesis
  proof (cases r)
    case (Inl err)
    have "length err < 256" using http_read_request_message r(1) Inl by blast
    then show ?thesis using r(1) Inl s by (simp add: client_read_def)
  next
    case (Inr req)
    have "length (req_body req) < SIZE_MAX"
      using r(3) [OF Inr] by (simp add: request_bounds_def HTTP_MAX_BODY_def SIZE_MAX_def)
    from dispatch_fine [OF this] show ?thesis using r(1) Inr s by (auto simp: client_read_def split: sum.splits)
  qed
qed

lemma client_execute_fine:
  assumes "db_fine db" "sql_parse sql = Inr stmt" "CHR 0x00 \<notin> set sql"
  shows "\<exists>ans w' db'. client_execute stmt w db = Some (ans, w', db') \<and> db_step db db' \<and> answer_fine ans"
proof -
  obtain w' db' res where x: "execute_statement stmt w db = Some (w', db', res)" "db_step db db'" "good_result res"
    using execute_any [OF assms(2,3,1)] by blast
  show ?thesis
  proof (cases "res_ok res")
    case True
    then show ?thesis using x by (auto simp: client_execute_def good_result_def)
  next
    case False
    then show ?thesis using x by (simp add: client_execute_def good_result_def)
  qed
qed

lemma client_answer_fine:
  assumes "answer_fine ans" "tid \<le> SIZE_MAX" "sent (srv_conn s) = []"
  shows "\<exists>s'. client_answer tid ans s = Some s' \<and> response_prefix tid (sent (srv_conn s'))"
proof -
  have prefix: "response_prefix tid (sent (srv_conn s'))"
    if a: "answered tid resp s s'" and r: "\<And>st b. resp st b \<Longrightarrow> st \<in> {200, 400, 404, 405, 500}"
    for resp and s' :: server
  proof -
    obtain st b where st: "resp st b" "\<exists>k. sent (srv_conn s') = sent (srv_conn s) @ take k (response_text st b tid)"
      using a by (fastforce simp: answered_def)
    then show ?thesis using r [OF st(1)] assms(3) unfolding response_prefix_def by auto
  qed
  show ?thesis
  proof (cases ans)
    case (Body status body)
    then have b: "status \<in> {200, 400, 404, 405, 500}" "length body < SIZE_MAX" using assms(1) by simp_all
    have "\<bar>status\<bar> < 10 ^ 10" using b(1) by auto
    from prefix [OF send_json_response_answered [OF assms(2) b(2) this]] show ?thesis
      using b(1) Body by (simp add: client_answer_def)
  next
    case (Message status m)
    then have m: "status \<in> {400, 404, 405, 500}" "length m < 256" using assms(1) by simp_all
    have "\<bar>status\<bar> < 10 ^ 10" using m(1) by auto
    from send_error_response_ok [OF assms(2) m(2) this, of s] obtain s' where
      s': "send_error_response tid status m s = Some s'" "answered tid (error_answer status m) s s'" by blast
    have "response_prefix tid (sent (srv_conn s'))"
      by (rule prefix [OF s'(2)]) (use m(1) in \<open>auto simp: error_answer_def\<close>)
    then show ?thesis using s'(1) Message by (simp add: client_answer_def)
  qed
qed

subsection \<open>All phases\<close>

definition any_inv :: "(nat \<Rightarrow> nat) \<Rightarrow> Record list \<Rightarrow> conc \<Rightarrow> bool" where
  "any_inv tid rs0 s \<longleftrightarrow> db_inv (conc_db s) \<and> db_lock (conc_db s) = Unlocked \<and>
     db_count (conc_db s) + sum_list (map phases_left (conc_phase s)) \<le> DB_ROWS_MAX \<and>
     (\<exists>new. rows_of (conc_db s) = rs0 @ new) \<and>
     (\<forall>i<length (conc_phase s). phase_any (tid i) (conc_phase s ! i))"

lemma any_inv_fine:
  assumes "any_inv tid rs0 s" "i < length (conc_phase s)" "0 < phases_left (conc_phase s ! i)"
  shows "db_fine (conc_db s)"
proof -
  have "phases_left (conc_phase s ! i) \<le> sum_list (map phases_left (conc_phase s))"
    using assms(2) by (intro member_le_sum_list) auto
  then show ?thesis using assms by (auto simp: any_inv_def db_fine_def)
qed

lemma any_inv_phase:
  "any_inv tid rs0 s \<Longrightarrow> i < length (conc_phase s) \<Longrightarrow> conc_phase s ! i = ph \<Longrightarrow> phase_any (tid i) ph"
  by (auto simp: any_inv_def)

lemma any_inv_next:
  assumes "any_inv tid rs0 s" "i < length (conc_phase s)"
    and "db_step (conc_db s) db \<and> Suc (phases_left ph) \<le> phases_left (conc_phase s ! i) \<or> db = conc_db s \<and> phases_left ph < phases_left (conc_phase s ! i)"
    and "phase_any (tid i) ph"
  shows "any_inv tid rs0 (s\<lparr>conc_world := w, conc_db := db, conc_phase := (conc_phase s)[i := ph], conc_order := order\<rparr>)"
proof -
  have inv: "db_inv (conc_db s)" "db_lock (conc_db s) = Unlocked" using assms(1) by (simp_all add: any_inv_def)
  have "sum_list (map phases_left ((conc_phase s)[i := ph])) < sum_list (map phases_left (conc_phase s))"
    using assms(2,3) by (intro sum_list_update_less) auto
  moreover have "db_count db \<le> Suc (db_count (conc_db s))" using assms(3) db_step_count inv(1) by auto
  moreover have "db_inv db" "db_lock db = Unlocked" using assms(3) inv by (auto simp: db_step_def)
  moreover have "\<exists>new. rows_of db = rs0 @ new" using assms(1,3) by (auto simp: any_inv_def db_step_def)
  moreover have "\<forall>j<length (conc_phase s). phase_any (tid j) ((conc_phase s)[i := ph] ! j)"
    using any_inv_phase [OF assms(1)] assms(2,4) by (simp add: nth_list_update split: if_split)
  ultimately show ?thesis using assms(1) by (simp add: any_inv_def)
qed

lemma client_step_any:
  assumes "client_step tid s s'" "any_inv tid rs0 s" "\<forall>i. tid i \<le> SIZE_MAX"
  shows "any_inv tid rs0 s'"
  using assms(1)
proof cases
  case (step_read i c ph)
  then have "sent c = []" using any_inv_phase [OF assms(2)] by fastforce
  then have "phase_any (tid i) ph" using client_read_fine [of c "tid i"] step_read(4) by auto
  moreover have "phases_left ph < 3" by (rule client_read_left [OF step_read(4)])
  ultimately show ?thesis
    using any_inv_next [OF assms(2) step_read(2), where db = "conc_db s" and ph = ph and w = "conc_world s" and order = "conc_order s"] step_read(1,3) by simp
next
  case (step_execute i stmt c ans w db)
  obtain sql where sql: "sql_parse sql = Inr stmt" "CHR 0x00 \<notin> set sql" "sent c = []"
    using any_inv_phase [OF assms(2) step_execute(2,3)] by auto
  have "db_step (conc_db s) db" "answer_fine ans"
    using client_execute_fine [OF any_inv_fine [OF assms(2) step_execute(2)] sql(1,2), of "conc_world s"] step_execute(3,4) by auto
  then show ?thesis
    using any_inv_next [OF assms(2) step_execute(2), where db = db and ph = "Answering ans c" and w = w and order = "conc_order s @ [i]"] step_execute(1,3) sql(3) by simp
next
  case (step_answer i ans c s1)
  let ?s = "\<lparr>srv_world = conc_world s, srv_db = conc_db s, srv_conn = c, srv_closes = 0, srv_log = []\<rparr>"
  have "answer_fine ans" "sent c = []" using any_inv_phase [OF assms(2) step_answer(2,3)] by simp_all
  then have "response_prefix (tid i) (sent (srv_conn s1))"
    using client_answer_fine [of ans "tid i" ?s] assms(3) step_answer(4) by auto
  then show ?thesis
    using any_inv_next [OF assms(2) step_answer(2), where db = "conc_db s" and ph = "Finished (srv_conn s1)" and
        w = "srv_world s1" and order = "conc_order s"]
      step_answer(1,3) by simp
qed

lemma client_any_can_step:
  assumes "any_inv tid rs0 s" "\<forall>i. tid i \<le> SIZE_MAX" "i < length (conc_phase s)" "\<nexists>c. conc_phase s ! i = Finished c"
  shows "\<exists>s'. client_step tid s s'"
proof -
  have p: "phase_any (tid i) (conc_phase s ! i)" using assms(1,3) by (simp add: any_inv_def)
  show ?thesis
  proof (cases "conc_phase s ! i")
    case (Reading c)
    then obtain ph where "client_read c = Some ph" using p client_read_fine [of c] by auto
    from step_read [OF assms(3) Reading this] show ?thesis by blast
  next
    case (Executing stmt c)
    then obtain sql where "sql_parse sql = Inr stmt" "CHR 0x00 \<notin> set sql" using p by auto
    then obtain ans w db where "client_execute stmt (conc_world s) (conc_db s) = Some (ans, w, db)"
      using client_execute_fine [OF any_inv_fine [OF assms(1,3)]] Executing by fastforce
    from step_execute [OF assms(3) Executing this] show ?thesis by blast
  next
    case (Answering ans c)
    let ?s = "\<lparr>srv_world = conc_world s, srv_db = conc_db s, srv_conn = c, srv_closes = 0, srv_log = []\<rparr>"
    obtain s1 where "client_answer (tid i) ans ?s = Some s1"
      using client_answer_fine [of ans "tid i" ?s] p Answering assms(2) by auto
    from client_step.step_answer [where s = s and i = i and tid = tid, OF assms(3) Answering this] show ?thesis by blast
  qed (use assms(4) in simp)
qed

lemma conc_any_run:
  assumes "(client_step tid ^^ k) (conc_start w db cs) s" "db_inv db" "db_lock db = Unlocked"
    and "db_count db + 3 * length cs \<le> DB_ROWS_MAX" "\<forall>c\<in>set cs. sent c = []" "\<forall>i. tid i \<le> SIZE_MAX"
  shows "any_inv tid (rows_of db) s \<and> length (conc_phase s) = length cs \<and>
    k + sum_list (map phases_left (conc_phase s)) \<le> 3 * length cs"
  using assms(1)
proof (induction k arbitrary: s)
  case 0
  then have "s = conc_start w db cs" by simp
  then show ?case using assms(2-5) by (simp add: any_inv_def conc_start_def comp_def sum_list_triv)
next
  case (Suc k)
  then obtain s1 where s1: "(client_step tid ^^ k) (conc_start w db cs) s1" "client_step tid s1 s" by auto
  have "length (conc_phase s) = length (conc_phase s1)" using s1(2) by cases simp_all
  then show ?case
    using Suc.IH [OF s1(1)] client_step_any [OF s1(2) _ assms(6)] client_step_less [OF s1(2)] by fastforce
qed

lemma conc_any_run_ends:
  assumes "db_inv db" "db_lock db = Unlocked" "db_count db + 3 * length cs \<le> DB_ROWS_MAX"
    and "\<forall>c\<in>set cs. sent c = []" "\<forall>i. tid i \<le> SIZE_MAX"
  shows "\<exists>k s. (client_step tid ^^ k) (conc_start w db cs) s \<and> (\<nexists>s'. client_step tid s s')"
  by (rule bounded_run_ends [where n = "3 * length cs"]) (use conc_any_run [OF _ assms] in fastforce)

end
