(* ===== verification/PoolQueue.thy ===== *)
theory PoolQueue
  imports ThreadPool
begin

section \<open>The ring buffer of the pool is a bounded queue\<close>

text \<open>
  The interface \<open>bounded_queue\<close> (put at the end while there is room, take the first) with what
  every run of such a queue does, and its interpretation \<open>pq\<close> on \<open>pool_put\<close> and \<open>pool_take\<close>:
  the cells from \<open>head\<close> on, modulo the capacity, are the queue.
\<close>

subsection \<open>The interface\<close>

datatype 'a queue_op = Put 'a | Take

fun puts_of :: "'a queue_op list \<Rightarrow> 'a list" where
  "puts_of [] = []"
| "puts_of (Put x # ops) = x # puts_of ops"
| "puts_of (Take # ops) = puts_of ops"

text \<open>
  A run of a queue given by its two operations, which stops with \<open>None\<close> at an operation that
  fails: the values taken, and the queue.
\<close>

fun queue_run ::
    "('a \<Rightarrow> 'q \<Rightarrow> 'q option) \<Rightarrow> ('q \<Rightarrow> ('a \<times> 'q) option) \<Rightarrow> 'a queue_op list \<Rightarrow> 'q \<Rightarrow> ('a list \<times> 'q) option" where
  "queue_run put get [] q = Some ([], q)"
| "queue_run put get (Put x # ops) q = (case put x q of None \<Rightarrow> None | Some q' \<Rightarrow> queue_run put get ops q')"
| "queue_run put get (Take # ops) q =
     (case get q of None \<Rightarrow> None
      | Some (x, q') \<Rightarrow> map_option (\<lambda>(xs, r). (x # xs, r)) (queue_run put get ops q'))"

text \<open>The operations a queue of \<open>n\<close> elements and capacity \<open>cap\<close> allows: puts with room, takes when not empty.\<close>

fun fits :: "nat \<Rightarrow> nat \<Rightarrow> 'a queue_op list \<Rightarrow> bool" where
  "fits cap n [] \<longleftrightarrow> True"
| "fits cap n (Put x # ops) \<longleftrightarrow> n < cap \<and> fits cap (Suc n) ops"
| "fits cap n (Take # ops) \<longleftrightarrow> 0 < n \<and> fits cap (n - 1) ops"

locale bounded_queue =
  fixes put :: "'a \<Rightarrow> 'q \<Rightarrow> 'q option"
    and get :: "'q \<Rightarrow> ('a \<times> 'q) option"
    and contents :: "'q \<Rightarrow> 'a list"
    and capacity :: "'q \<Rightarrow> nat"
    and inv :: "'q \<Rightarrow> bool"
  assumes put_law: "inv q \<Longrightarrow> length (contents q) < capacity q \<Longrightarrow>
      \<exists>q'. put x q = Some q' \<and> inv q' \<and> contents q' = contents q @ [x] \<and> capacity q' = capacity q"
    and get_law: "inv q \<Longrightarrow> contents q = x # xs \<Longrightarrow>
      \<exists>q'. get q = Some (x, q') \<and> inv q' \<and> contents q' = xs \<and> capacity q' = capacity q"
begin

lemma put_result:
  assumes "inv q" "length (contents q) < capacity q" "put x q = Some q'"
  shows "inv q'" "contents q' = contents q @ [x]" "capacity q' = capacity q"
  using put_law [OF assms(1,2), of x] assms(3) by auto

lemma get_result:
  assumes "inv q" "contents q \<noteq> []" "get q = Some (x, q')"
  shows "inv q'" "contents q = x # contents q'" "capacity q' = capacity q"
proof -
  obtain y ys where "contents q = y # ys" using assms(2) by (cases "contents q") auto
  with get_law [OF assms(1) this] assms(3) show "inv q'" "contents q = x # contents q'" "capacity q' = capacity q"
    by auto
qed

lemma get_some: "inv q \<Longrightarrow> contents q \<noteq> [] \<Longrightarrow> \<exists>x q'. get q = Some (x, q')"
  using get_law by (cases "contents q") fastforce+

lemma run_fifo:
  "inv q \<Longrightarrow> fits (capacity q) (length (contents q)) ops \<Longrightarrow>
   \<exists>xs q'. queue_run put get ops q = Some (xs, q') \<and> inv q' \<and> capacity q' = capacity q \<and>
     contents q @ puts_of ops = xs @ contents q'"
proof (induction ops arbitrary: q)
  case Nil
  then show ?case by simp
next
  case (Cons op ops)
  show ?case
  proof (cases op)
    case (Put x)
    with Cons.prems have "length (contents q) < capacity q" by simp
    from put_law [OF Cons.prems(1) this, of x] obtain q1 where
      q1: "put x q = Some q1" "inv q1" "contents q1 = contents q @ [x]" "capacity q1 = capacity q" by auto
    from Cons.IH [of q1] q1 Put Cons.prems show ?thesis by auto
  next
    case Take
    with Cons.prems obtain x xs where xs: "contents q = x # xs" by (cases "contents q") auto
    from get_law [OF Cons.prems(1) this] obtain q1 where
      q1: "get q = Some (x, q1)" "inv q1" "contents q1 = xs" "capacity q1 = capacity q" by auto
    from Cons.IH [of q1] q1 Take xs Cons.prems obtain ys q' where
      "queue_run put get ops q1 = Some (ys, q')" "inv q'" "capacity q' = capacity q" "xs @ puts_of ops = ys @ contents q'"
      by auto
    with Take q1 xs show ?thesis by auto
  qed
qed

end

subsection \<open>The ring buffer\<close>

definition pool_contents :: "ThreadPool \<Rightarrow> int list" where
  "pool_contents p =
     (case fds p of None \<Rightarrow> []
      | Some buf \<Rightarrow> map (\<lambda>k. the (buf ! ((head p + k) mod pool_capacity p))) [0..<pool_count p])"

definition ring_ok :: "ThreadPool \<Rightarrow> bool" where
  "ring_ok p \<longleftrightarrow>
     0 < pool_capacity p \<and> pool_capacity p < SIZE_MAX \<and> head p < pool_capacity p \<and>
     pool_count p \<le> pool_capacity p \<and> tail p = (head p + pool_count p) mod pool_capacity p \<and>
     (\<exists>buf. fds p = Some buf \<and> length buf = pool_capacity p \<and>
        (\<forall>k < pool_count p. buf ! ((head p + k) mod pool_capacity p) \<noteq> None))"

lemma length_pool_contents: "ring_ok p \<Longrightarrow> length (pool_contents p) = pool_count p"
  by (auto simp: ring_ok_def pool_contents_def)

lemma pool_contents_Nil: "ring_ok p \<Longrightarrow> pool_contents p = [] \<longleftrightarrow> pool_count p = 0"
  using length_pool_contents by fastforce

lemma mod_add_distinct: "(h + k) mod (c::nat) = (h + n) mod c \<Longrightarrow> k < n \<Longrightarrow> n < c \<Longrightarrow> False"
proof -
  assume e: "(h + k) mod c = (h + n) mod c" and "k < n" "n < c"
  then have "c dvd (h + n) - (h + k)" using mod_eq_dvd_iff_nat [of "h + k" "h + n" c] by simp
  then have "c dvd n - k" by simp
  with \<open>k < n\<close> \<open>n < c\<close> show False by (auto dest: dvd_imp_le)
qed

lemma pool_put_ok:
  assumes ok: "ring_ok p" and room: "length (pool_contents p) < pool_capacity p"
  shows "\<exists>p'. pool_put x p = Some p' \<and> ring_ok p' \<and> pool_contents p' = pool_contents p @ [x] \<and>
    pool_capacity p' = pool_capacity p"
proof -
  let ?c = "pool_capacity p" and ?n = "pool_count p"
  from ok obtain buf where buf: "fds p = Some buf" "length buf = ?c" "0 < ?c" "?c < SIZE_MAX" "head p < ?c"
      "tail p = (head p + ?n) mod ?c" "\<And>k. k < ?n \<Longrightarrow> buf ! ((head p + k) mod ?c) \<noteq> None"
    by (auto simp: ring_ok_def)
  have n: "?n < ?c" using room ok by (simp add: length_pool_contents)
  have t: "tail p < length buf" using buf by simp
  let ?buf = "buf[tail p := Some x]"
  let ?p = "p\<lparr>fds := Some ?buf, tail := (head p + Suc ?n) mod ?c, pool_count := Suc ?n\<rparr>"
  have w: "write_at (tail p) [x] buf = Some ?buf"
    using t by (simp add: write_at_def upd_conv_take_nth_drop)
  have tl: "Suc (tail p) mod ?c = (head p + Suc ?n) mod ?c"
    by (simp add: buf(6) mod_Suc_eq)
  have "tail p < ?c" using t buf(2) by simp
  then have "size_add (tail p) 1 = Suc (tail p)" "size_add ?n 1 = Suc ?n"
    using buf(4) n by (simp_all add: size_add_exact)
  then have put: "pool_put x p = Some ?p"
    by (simp add: pool_put_def buf(1) w tl)
  have old: "k < ?n \<Longrightarrow> ?buf ! ((head p + k) mod ?c) = buf ! ((head p + k) mod ?c)" for k
    using mod_add_distinct [of "head p" k ?c ?n] n buf(6) by (metis nth_list_update_neq)
  have new: "?buf ! ((head p + ?n) mod ?c) = Some x" using t buf(6) by simp
  have "ring_ok ?p" using buf n old new by (auto simp: ring_ok_def less_Suc_eq)
  moreover have "pool_contents ?p = pool_contents p @ [x]"
    using old new by (simp add: pool_contents_def buf(1))
  ultimately show ?thesis using put by auto
qed

lemma pool_take_ok:
  assumes ok: "ring_ok p" and ne: "pool_contents p = x # xs"
  shows "\<exists>p'. pool_take p = Some (x, p') \<and> ring_ok p' \<and> pool_contents p' = xs \<and>
    pool_capacity p' = pool_capacity p"
proof -
  let ?c = "pool_capacity p" and ?n = "pool_count p"
  from ok obtain buf where buf: "fds p = Some buf" "length buf = ?c" "0 < ?c" "?c < SIZE_MAX" "head p < ?c"
      "?n \<le> ?c" "tail p = (head p + ?n) mod ?c" "\<And>k. k < ?n \<Longrightarrow> buf ! ((head p + k) mod ?c) \<noteq> None"
    by (auto simp: ring_ok_def)
  obtain m where m: "?n = Suc m" using ne ok length_pool_contents [OF ok] by (cases ?n) auto
  have cs: "pool_contents p = the (buf ! head p) # map (\<lambda>k. the (buf ! ((head p + Suc k) mod ?c))) [0..<m]"
    using buf(1,5) by (simp add: pool_contents_def m map_upt_Suc del: upt_Suc)
  have x: "buf ! head p = Some x" using buf(8) [of 0] m buf(5) cs ne by auto
  let ?p = "p\<lparr>head := Suc (head p) mod ?c, pool_count := m\<rparr>"
  have "size_add (head p) 1 = Suc (head p)" "size_sub ?n 1 = m"
    using buf m by (simp_all add: size_add_exact size_sub_exact)
  then have get: "pool_take p = Some (x, ?p)"
    using x buf by (simp add: pool_take_def read_at_def)
  have shift: "(Suc (head p) mod ?c + k) mod ?c = (head p + Suc k) mod ?c" for k
    by (simp add: mod_add_left_eq)
  have "ring_ok ?p" using buf m shift buf(8) [of "Suc _"] by (auto simp: ring_ok_def)
  moreover have "pool_contents ?p = xs"
    using cs ne by (simp add: pool_contents_def buf(1) shift)
  ultimately show ?thesis using get by auto
qed

interpretation pq: bounded_queue pool_put pool_take pool_contents pool_capacity ring_ok
  by unfold_locales (rule pool_put_ok pool_take_ok; assumption)+

text \<open>Put and take leave the other fields alone.\<close>

lemma pool_put_fields:
  "pool_put x p = Some p' \<Longrightarrow>
   stopping p' = stopping p \<and> thread_count p' = thread_count p \<and> threads p' = threads p"
  by (auto simp: pool_put_def split: option.splits)

lemma pool_take_fields:
  "pool_take p = Some (x, p') \<Longrightarrow>
   stopping p' = stopping p \<and> thread_count p' = thread_count p \<and> threads p' = threads p"
  by (auto simp: pool_take_def split: option.splits)

end
