(* ===== verification/PoolCorrect.thy ===== *)
theory PoolCorrect
  imports PoolQueue "HOL-Library.Multiset"
begin

section \<open>The invariant of the thread pool\<close>

text \<open>
  What holds in every state the pool's threads can reach from a prepared pool, whatever the
  schedule and the spurious wake-ups: \<open>pool_inv\<close>, proved for each kind of step.
\<close>

subsection \<open>Sockets in the hands of the workers\<close>

definition in_hand :: "worker_pc \<Rightarrow> int multiset" where
  "in_hand pc = (case pc of W_Handle fd \<Rightarrow> {#fd#} | _ \<Rightarrow> {#})"

definition in_progress :: "pool_sys \<Rightarrow> int multiset" where
  "in_progress s = (\<Sum>i<spawned s. in_hand (wpc s i))"

lemma in_hand_simps [simp]:
  "in_hand W_Unborn = {#}" "in_hand W_Lock = {#}" "in_hand W_Check = {#}" "in_hand W_Wait = {#}"
  "in_hand W_Relock = {#}" "in_hand W_Done = {#}" "in_hand (W_Handle fd) = {#fd#}"
  by (simp_all add: in_hand_def)

text \<open>A sum over the threads after one of them moved.\<close>

lemma sum_move:
  fixes f :: "worker_pc \<Rightarrow> 'm::comm_monoid_add" and n :: nat
  assumes "i < n"
  shows "(\<Sum>j<n. f ((g(i := x)) j)) + f (g i) = (\<Sum>j<n. f (g j)) + f x"
proof -
  have fin: "finite {..<n}" "i \<in> {..<n}" using assms by auto
  have "(\<Sum>j<n. f ((g(i := x)) j)) = f x + (\<Sum>j\<in>{..<n} - {i}. f (g j))"
    using sum.remove [OF fin, of "\<lambda>j. f ((g(i := x)) j)"] by simp
  moreover have "(\<Sum>j<n. f (g j)) = f (g i) + (\<Sum>j\<in>{..<n} - {i}. f (g j))"
    by (rule sum.remove [OF fin])
  ultimately show ?thesis by (simp add: ac_simps)
qed

lemma sum_same:
  fixes f :: "worker_pc \<Rightarrow> 'm::comm_monoid_add" and n :: nat
  assumes "\<And>j. j < n \<Longrightarrow> f (g' j) = f (g j)"
  shows "(\<Sum>j<n. f (g' j)) = (\<Sum>j<n. f (g j))"
  using assms by (intro sum.cong) auto

subsection \<open>The invariant\<close>

fun in_section :: "main_pc \<Rightarrow> bool" where
  "in_section (M_Check fd) = True"
| "in_section M_Down = True"
| "in_section _ = False"

fun after_stop :: "main_pc \<Rightarrow> bool" where
  "after_stop (M_Join k) = True"
| "after_stop M_Finished = True"
| "after_stop _ = False"

fun serving :: "main_pc \<Rightarrow> bool" where
  "serving M_Idle = True"
| "serving (M_Lock fd) = True"
| "serving (M_Check fd) = True"
| "serving (M_Wait fd) = True"
| "serving (M_Relock fd) = True"
| "serving _ = False"

text \<open>A worker that will look at the queue again.\<close>

definition will_check :: "worker_pc \<Rightarrow> bool" where
  "will_check pc \<longleftrightarrow> pc \<noteq> W_Unborn \<and> pc \<noteq> W_Wait \<and> pc \<noteq> W_Done"

definition memory_inv :: "pool_sys \<Rightarrow> bool" where
  "memory_inv s \<longleftrightarrow> (mpc s = M_Finished \<and> pool s = zero_pool) \<or>
     (mpc s \<noteq> M_Finished \<and> ring_ok (pool s) \<and> thread_count (pool s) = spawned s \<and>
      (\<exists>slots. threads (pool s) = Some slots \<and> requested s \<le> slots) \<and>
      (stopping (pool s) \<longleftrightarrow> after_stop (mpc s)))"

definition lock_inv :: "pool_sys \<Rightarrow> bool" where
  "lock_inv s \<longleftrightarrow> (\<forall>i. mutex s = Some (Worker i) \<longleftrightarrow> wpc s i = W_Check) \<and>
     (mutex s = Some Main \<longleftrightarrow> in_section (mpc s))"

definition spawn_inv :: "pool_sys \<Rightarrow> bool" where
  "spawn_inv s \<longleftrightarrow> 0 < requested s \<and> spawned s \<le> requested s \<and>
     (\<forall>i. wpc s i = W_Unborn \<longleftrightarrow> spawned s \<le> i) \<and>
     (\<forall>k. mpc s = M_Create k \<longrightarrow> spawned s = k) \<and>
     (serving (mpc s) \<longrightarrow> spawned s = requested s)"

definition join_inv :: "pool_sys \<Rightarrow> bool" where
  "join_inv s \<longleftrightarrow>
     (\<forall>k. mpc s = M_Join k \<longrightarrow> k \<le> spawned s \<and> (\<forall>j<k. wpc s j = W_Done)) \<and>
     (mpc s = M_Finished \<longrightarrow> (\<forall>j<spawned s. wpc s j = W_Done)) \<and>
     (\<forall>i. wpc s i = W_Done \<longrightarrow> after_stop (mpc s) \<and> pool_contents (pool s) = []) \<and>
     (after_stop (mpc s) \<longrightarrow> (\<forall>i. wpc s i \<noteq> W_Wait))"

definition wake_inv :: "pool_sys \<Rightarrow> bool" where
  "wake_inv s \<longleftrightarrow>
     (\<forall>fd. mpc s = M_Wait fd \<longrightarrow> length (pool_contents (pool s)) = pool_capacity (pool s)) \<and>
     (pool_contents (pool s) \<noteq> [] \<longrightarrow> (\<exists>i. will_check (wpc s i)))"

definition socket_inv :: "pool_sys \<Rightarrow> bool" where
  "socket_inv s \<longleftrightarrow> accepted s = taken s @ pool_contents (pool s) \<and>
     mset (taken s) = mset (handled s) + in_progress s \<and>
     (spawned s < requested s \<or> (\<exists>k. mpc s = M_Create k) \<longrightarrow> accepted s = [])"

definition pool_inv :: "pool_sys \<Rightarrow> bool" where
  "pool_inv s \<longleftrightarrow> memory_inv s \<and> lock_inv s \<and> spawn_inv s \<and> join_inv s \<and> wake_inv s \<and> socket_inv s"

lemma zero_pool_contents [simp]: "pool_contents zero_pool = []"
  by (simp add: zero_pool_def pool_contents_def)

lemma live_pool:
  "pool_inv s \<Longrightarrow> mpc s \<noteq> M_Finished \<Longrightarrow> ring_ok (pool s) \<and> length (pool_contents (pool s)) = pool_count (pool s) \<and>
     (stopping (pool s) \<longleftrightarrow> after_stop (mpc s))"
  by (auto simp: pool_inv_def memory_inv_def length_pool_contents)

lemma pool_update_simps [simp]:
  "pool_contents (p\<lparr>thread_count := x\<rparr>) = pool_contents p" "pool_contents (p\<lparr>stopping := b\<rparr>) = pool_contents p"
  "ring_ok (p\<lparr>thread_count := x\<rparr>) = ring_ok p" "ring_ok (p\<lparr>stopping := b\<rparr>) = ring_ok p"
  by (simp_all add: pool_contents_def ring_ok_def split: option.split)

text \<open>A worker that is not done, or unborn, keeps the pool alive.\<close>

lemma worker_alive:
  assumes "pool_inv s" "wpc s i \<noteq> W_Done" "wpc s i \<noteq> W_Unborn"
  shows "mpc s \<noteq> M_Finished" "i < spawned s"
  using assms by (auto simp: pool_inv_def join_inv_def spawn_inv_def not_le)

subsection \<open>It holds at the start\<close>

lemma prepared_pool:
  assumes "thread_pool_prepare n cap os = (acq, rel, Some p, os')" "n < 2 ^ 60" "cap < 2 ^ 60"
  shows "ring_ok p" "pool_contents p = []" "pool_capacity p = cap" "stopping p = False" "thread_count p = 0"
    "threads p = Some n" "0 < n" "fds p = Some (fresh_block cap)" "head p = 0" "pool_count p = 0" "tail p = 0"
proof -
  have n: "0 < n" "0 < cap" using assms(1) by (auto simp: thread_pool_prepare_def split: if_splits)
  have "size_mul 4 cap = 4 * cap" "size_mul 8 n = 8 * n"
    using assms(2,3) by (auto intro!: size_mul_exact simp: SIZE_MAX_def)
  then have p: "p = zero_pool\<lparr>fds := Some (fresh_block cap), threads := Some n, pool_capacity := cap\<rparr>"
    using assms(1) by (auto simp: thread_pool_prepare_def Let_def split: if_splits prod.splits)
  show "ring_ok p" "pool_contents p = []" "pool_capacity p = cap" "stopping p = False" "thread_count p = 0"
    "threads p = Some n" "0 < n" "fds p = Some (fresh_block cap)" "head p = 0" "pool_count p = 0" "tail p = 0"
    using n assms(3) by (auto simp: p zero_pool_def ring_ok_def pool_contents_def SIZE_MAX_def)
qed

lemma pool_inv_start:
  assumes "thread_pool_prepare n cap os = (acq, rel, Some p, os')" "n < 2 ^ 60" "cap < 2 ^ 60"
  shows "pool_inv (pool_start n p)"
  using prepared_pool [OF assms]
  by (simp add: pool_inv_def memory_inv_def lock_inv_def spawn_inv_def join_inv_def wake_inv_def socket_inv_def pool_start_def
      in_progress_def)

subsection \<open>Every step keeps it\<close>

lemma in_progress_move:
  assumes "i < spawned s" "spawned s' = spawned s" "wpc s' = (wpc s)(i := pc)"
  shows "in_progress s' + in_hand (wpc s i) = in_progress s + in_hand pc"
  using sum_move [OF assms(1), of in_hand "wpc s" pc] assms(2,3) by (simp add: in_progress_def)

lemma pool_take_inv:
  assumes "pool_inv s" "mpc s \<noteq> M_Finished" "pool_count (pool s) \<noteq> 0" "pool_take (pool s) = Some (fd, p)"
  shows "ring_ok p" "pool_contents (pool s) = fd # pool_contents p" "pool_capacity p = pool_capacity (pool s)"
    "stopping p = stopping (pool s)" "thread_count p = thread_count (pool s)" "threads p = threads (pool s)"
proof -
  have "ring_ok (pool s)" "pool_contents (pool s) \<noteq> []" using live_pool [OF assms(1,2)] assms(3) by auto
  from pq.get_result [OF this assms(4)] pool_take_fields [OF assms(4)] show
    "ring_ok p" "pool_contents (pool s) = fd # pool_contents p" "pool_capacity p = pool_capacity (pool s)"
    "stopping p = stopping (pool s)" "thread_count p = thread_count (pool s)" "threads p = threads (pool s)"
    by auto
qed

lemma pool_put_inv:
  assumes "pool_inv s" "mpc s \<noteq> M_Finished" "pool_count (pool s) \<noteq> pool_capacity (pool s)" "pool_put fd (pool s) = Some p"
  shows "ring_ok p" "pool_contents p = pool_contents (pool s) @ [fd]" "pool_capacity p = pool_capacity (pool s)"
    "stopping p = stopping (pool s)" "thread_count p = thread_count (pool s)" "threads p = threads (pool s)"
proof -
  have "ring_ok (pool s)" "length (pool_contents (pool s)) < pool_capacity (pool s)"
    using live_pool [OF assms(1,2)] assms(3) by (auto simp: ring_ok_def)
  from pq.put_result [OF this assms(4)] pool_put_fields [OF assms(4)] show
    "ring_ok p" "pool_contents p = pool_contents (pool s) @ [fd]" "pool_capacity p = pool_capacity (pool s)"
    "stopping p = stopping (pool s)" "thread_count p = thread_count (pool s)" "threads p = threads (pool s)"
    by auto
qed

lemmas inv_defs = pool_inv_def memory_inv_def lock_inv_def spawn_inv_def join_inv_def wake_inv_def socket_inv_def

lemma wake_main_simps [simp]:
  "in_section (wake_main m) = in_section m" "after_stop (wake_main m) = after_stop m"
  "serving (wake_main m) = serving m"
  "wake_main m = M_Finished \<longleftrightarrow> m = M_Finished" "wake_main m = M_Join k \<longleftrightarrow> m = M_Join k"
  "wake_main m = M_Create k \<longleftrightarrow> m = M_Create k" "wake_main m \<noteq> M_Wait fd"
  by (cases m; simp add: wake_main_def)+

lemma pool_invD:
  assumes "pool_inv s"
  shows "memory_inv s" "lock_inv s" "spawn_inv s" "join_inv s" "wake_inv s" "socket_inv s"
  using assms by (simp_all add: pool_inv_def)

text \<open>What a step of a worker needs and does, for all of the invariants below.\<close>

lemma worker_step_alive:
  assumes "pool_inv s" "worker_step i s s'"
  shows "mpc s \<noteq> M_Finished" "i < spawned s"
proof -
  have "wpc s i \<noteq> W_Done" "wpc s i \<noteq> W_Unborn" using assms(2) by (auto elim: worker_stepE)
  then show "mpc s \<noteq> M_Finished" "i < spawned s" using worker_alive [OF assms(1)] by auto
qed

lemma worker_step_memory:
  assumes inv: "pool_inv s" and step: "worker_step i s s'"
  shows "memory_inv s'"
  using step
proof cases
  case (w_take fd p)
  note take = pool_take_inv [OF inv worker_step_alive(1) [OF inv step] w_take(3,4)]
  show ?thesis using pool_invD(1) [OF inv] take worker_step_alive(1) [OF inv step]
    by (simp add: memory_inv_def w_take(1))
qed (use pool_invD(1) [OF inv] in \<open>simp_all add: memory_inv_def\<close>)

lemma worker_step_lock:
  assumes inv: "pool_inv s" and step: "worker_step i s s'"
  shows "lock_inv s'"
proof -
  have l: "\<And>j. mutex s = Some (Worker j) \<longleftrightarrow> wpc s j = W_Check" "mutex s = Some Main \<longleftrightarrow> in_section (mpc s)"
    using pool_invD(2) [OF inv] by (auto simp: lock_inv_def)
  have mine: "\<forall>j. wpc s j = W_Check \<longleftrightarrow> j = i" "\<not> in_section (mpc s)" if "wpc s i = W_Check"
    using l that by (metis option.inject thread.inject, metis option.inject thread.distinct(1))
  have free: "\<forall>j. wpc s j \<noteq> W_Check" "\<not> in_section (mpc s)" if "mutex s = None"
    using l that by (metis option.distinct(1))+
  from step show ?thesis
  proof cases
    case w_lock
    show ?thesis using free [OF w_lock(3)] by (auto simp: lock_inv_def w_lock(1))
  next
    case w_wait
    show ?thesis using mine [OF w_wait(2)] by (simp add: lock_inv_def w_wait(1))
  next
    case w_exit
    show ?thesis using mine [OF w_exit(2)] by (simp add: lock_inv_def w_exit(1))
  next
    case (w_take fd p)
    show ?thesis using mine [OF w_take(2)] by (simp add: lock_inv_def w_take(1))
  next
    case (w_handled fd)
    have "wpc s i \<noteq> W_Check" using w_handled by simp
    then show ?thesis using l w_handled(2) by (simp add: lock_inv_def w_handled(1))
  qed
qed

lemma worker_step_spawn:
  assumes inv: "pool_inv s" and step: "worker_step i s s'"
  shows "spawn_inv s'"
  using step by cases (use pool_invD(3) [OF inv] worker_step_alive(2) [OF inv step] in \<open>auto simp: spawn_inv_def\<close>)

lemma worker_step_join:
  assumes inv: "pool_inv s" and step: "worker_step i s s'"
  shows "join_inv s'"
  using step
proof cases
  case (w_take fd p)
  note take = pool_take_inv [OF inv worker_step_alive(1) [OF inv step] w_take(3,4)]
  show ?thesis using pool_invD(4) [OF inv] take worker_step_alive(1) [OF inv step]
    by (auto simp: join_inv_def w_take(1,2))
next
  case w_wait
  then show ?thesis using pool_invD(4) [OF inv] live_pool [OF inv worker_step_alive(1) [OF inv step]]
    by (auto simp: join_inv_def)
next
  case w_exit
  then show ?thesis using pool_invD(4) [OF inv] live_pool [OF inv worker_step_alive(1) [OF inv step]]
    by (auto simp: join_inv_def)
qed (use pool_invD(4) [OF inv] in \<open>auto simp: join_inv_def\<close>)

lemma worker_step_wake:
  assumes inv: "pool_inv s" and step: "worker_step i s s'"
  shows "wake_inv s'"
proof -
  have w: "wake_inv s" and lp: "length (pool_contents (pool s)) = pool_count (pool s)"
    using pool_invD(5) [OF inv] live_pool [OF inv worker_step_alive(1) [OF inv step]] by auto
  have here: "will_check (wpc s' i) \<Longrightarrow> \<exists>i. will_check (wpc s' i)" by blast
  from step show ?thesis
  proof cases
    case w_lock
    show ?thesis using w here by (auto simp: wake_inv_def w_lock(1) will_check_def)
  next
    case w_wait
    show ?thesis using w lp w_wait(4) by (simp add: wake_inv_def w_wait(1))
  next
    case w_exit
    show ?thesis using w lp w_exit(4) by (simp add: wake_inv_def w_exit(1))
  next
    case (w_take fd p)
    show ?thesis using here by (auto simp: wake_inv_def w_take(1) will_check_def)
  next
    case (w_handled fd)
    show ?thesis using w here by (auto simp: wake_inv_def w_handled(1) will_check_def)
  qed
qed

lemma worker_step_socket:
  assumes inv: "pool_inv s" and step: "worker_step i s s'"
  shows "socket_inv s'"
proof -
  note sk = pool_invD(6) [OF inv, unfolded socket_inv_def] and sp = worker_step_alive(2) [OF inv step]
  from step show ?thesis
  proof cases
    case w_lock
    have "in_progress s' = in_progress s" using in_progress_move [OF sp, of s' W_Check] w_lock by auto
    with sk show ?thesis by (auto simp: socket_inv_def w_lock(1))
  next
    case w_wait
    have "in_progress s' = in_progress s" using in_progress_move [OF sp, of s' W_Wait] w_wait by auto
    with sk show ?thesis by (auto simp: socket_inv_def w_wait(1))
  next
    case w_exit
    have "in_progress s' = in_progress s" using in_progress_move [OF sp, of s' W_Done] w_exit by auto
    with sk show ?thesis by (auto simp: socket_inv_def w_exit(1))
  next
    case (w_take fd p)
    note take = pool_take_inv [OF inv worker_step_alive(1) [OF inv step] w_take(3,4)]
    have "in_progress s' = in_progress s + {#fd#}" using in_progress_move [OF sp, of s' "W_Handle fd"] w_take by auto
    with sk take(2) show ?thesis by (auto simp: socket_inv_def w_take(1))
  next
    case (w_handled fd)
    have "in_progress s' + {#fd#} = in_progress s" using in_progress_move [OF sp, of s' W_Lock] w_handled by auto
    then have "in_progress s = in_progress s' + {#fd#}" by simp
    with sk show ?thesis by (auto simp: socket_inv_def w_handled(1))
  qed
qed

lemma worker_step_inv: "pool_inv s \<Longrightarrow> worker_step i s s' \<Longrightarrow> pool_inv s'"
  by (simp add: pool_inv_def [of s'] worker_step_memory worker_step_lock worker_step_spawn worker_step_join
      worker_step_wake worker_step_socket)

text \<open>The steps of the main thread.\<close>

lemma main_step_alive: "main_step s s' \<Longrightarrow> mpc s \<noteq> M_Finished"
  by (auto elim: main_stepE)

lemma main_step_memory:
  assumes inv: "pool_inv s" and step: "main_step s s'"
  shows "memory_inv s'"
proof -
  have m: "ring_ok (pool s)" "thread_count (pool s) = spawned s"
      "\<exists>slots. threads (pool s) = Some slots \<and> requested s \<le> slots" "stopping (pool s) \<longleftrightarrow> after_stop (mpc s)"
    using pool_invD(1) [OF inv] main_step_alive [OF step] by (auto simp: memory_inv_def)
  from step show ?thesis
  proof cases
    case (m_create k)
    with m pool_invD(3) [OF inv] m_create show ?thesis by (auto simp: memory_inv_def spawn_inv_def)
  next
    case (m_put_wake fd p j)
    note put = pool_put_inv [OF inv main_step_alive [OF step] m_put_wake(4,5)]
    show ?thesis using m put m_put_wake(2) by (auto simp: memory_inv_def m_put_wake(1))
  next
    case (m_put_none fd p)
    note put = pool_put_inv [OF inv main_step_alive [OF step] m_put_none(4,5)]
    show ?thesis using m put m_put_none(2) by (auto simp: memory_inv_def m_put_none(1))
  next
    case m_down
    with m m_down show ?thesis by (auto simp: memory_inv_def)
  qed (use m in \<open>auto simp: memory_inv_def\<close>)
qed

lemma main_step_lock:
  assumes inv: "pool_inv s" and step: "main_step s s'"
  shows "lock_inv s'"
proof -
  have l: "\<And>j. mutex s = Some (Worker j) \<longleftrightarrow> wpc s j = W_Check" "mutex s = Some Main \<longleftrightarrow> in_section (mpc s)"
    using pool_invD(2) [OF inv] by (auto simp: lock_inv_def)
  have new: "mpc s = M_Create k \<Longrightarrow> wpc s k = W_Unborn" for k
    using pool_invD(3) [OF inv] by (simp add: spawn_inv_def)
  have mine: "\<forall>j. wpc s j \<noteq> W_Check" if "in_section (mpc s)"
    using l that by (metis option.inject thread.distinct(1))
  have free: "\<forall>j. wpc s j \<noteq> W_Check" "\<not> in_section (mpc s)" if "mutex s = None"
    using l that by (metis option.distinct(1))+
  have other: "mutex s \<noteq> Some Main" if "\<not> in_section (mpc s)" using l that by simp
  from step show ?thesis
  proof cases
    case (m_create k)
    then show ?thesis using l new [of k] by (auto simp: lock_inv_def)
  next
    case (m_lock fd)
    then show ?thesis using free by (auto simp: lock_inv_def)
  next
    case (m_wait fd)
    then show ?thesis using mine by (simp add: lock_inv_def)
  next
    case (m_refused fd)
    then show ?thesis using mine by (simp add: lock_inv_def)
  next
    case (m_put_wake fd p j)
    then show ?thesis using mine by (simp add: lock_inv_def)
  next
    case (m_put_none fd p)
    then show ?thesis using mine by (simp add: lock_inv_def)
  next
    case m_down_lock
    then show ?thesis using free by (simp add: lock_inv_def)
  next
    case m_down
    then show ?thesis using mine by (simp add: lock_inv_def wake_all_def)
  qed (use l other in \<open>simp_all add: lock_inv_def\<close>)
qed

lemma main_step_spawn:
  assumes inv: "pool_inv s" and step: "main_step s s'"
  shows "spawn_inv s'"
proof -
  have l: "0 < requested s" "spawned s \<le> requested s" "\<And>i. wpc s i = W_Unborn \<longleftrightarrow> spawned s \<le> i"
      "\<And>k. mpc s = M_Create k \<Longrightarrow> spawned s = k" "serving (mpc s) \<Longrightarrow> spawned s = requested s"
    using pool_invD(3) [OF inv] unfolding spawn_inv_def by blast+
  from step show ?thesis
  proof cases
    case (m_create k)
    then have "((wpc s)(k := W_Lock)) i = W_Unborn \<longleftrightarrow> Suc k \<le> i" for i
      using l(3) [of i] l(4) [of k] by (cases "i = k") (simp_all add: Suc_le_eq nat_less_le)
    then show ?thesis using l(1) m_create by (simp add: spawn_inv_def)
  next
    case (m_created k)
    then show ?thesis using l(1,2,3) l(4) [of k] by (simp add: spawn_inv_def)
  next
    case (m_put_wake fd p j)
    then have "\<not> spawned s \<le> j" using l(3) [of j] by simp
    then show ?thesis using l m_put_wake by (simp add: spawn_inv_def)
  next
    case (m_lock fd)
    then have "serving (mpc s)" by auto
    then show ?thesis using l m_lock by (simp add: spawn_inv_def)
  next
    case m_down
    have "wake_all (wpc s) i = W_Unborn \<longleftrightarrow> wpc s i = W_Unborn" for i by (simp add: wake_all_def)
    then show ?thesis using l(1-3) m_down by (simp add: spawn_inv_def)
  qed (use l in \<open>simp_all add: spawn_inv_def\<close>)
qed

lemma join_inv_early: "\<not> after_stop (mpc s) \<Longrightarrow> \<forall>i. wpc s i \<noteq> W_Done \<Longrightarrow> join_inv s"
  by (auto simp: join_inv_def)

lemma main_step_join:
  assumes inv: "pool_inv s" and step: "main_step s s'"
  shows "join_inv s'"
proof -
  have tc: "thread_count (pool s) = spawned s"
    using pool_invD(1) [OF inv] main_step_alive [OF step] by (auto simp: memory_inv_def)
  have early: "\<forall>i. wpc s i \<noteq> W_Done" if "\<not> after_stop (mpc s)"
    using pool_invD(4) [OF inv] that by (auto simp: join_inv_def)
  have late: "k \<le> spawned s" "\<forall>j<k. wpc s j = W_Done" "\<forall>i. wpc s i \<noteq> W_Wait"
      "wpc s i = W_Done \<Longrightarrow> pool_contents (pool s) = []" if "mpc s = M_Join k" for k i
    using pool_invD(4) [OF inv] that by (auto simp: join_inv_def)
  from step show ?thesis
  proof cases
    case m_down
    then show ?thesis using early by (auto simp: join_inv_def wake_all_def)
  next
    case (m_join k)
    then show ?thesis using late [OF m_join(2)] tc by (auto simp: join_inv_def less_Suc_eq)
  next
    case (m_free k)
    then show ?thesis using late [OF m_free(2)] tc by (auto simp: join_inv_def)
  next
    case (m_lock fd)
    then have "\<not> after_stop (mpc s)" by auto
    then show ?thesis using early m_lock by (intro join_inv_early) simp_all
  qed (use early in \<open>simp_all add: join_inv_early\<close>)
qed

lemma main_step_wake:
  assumes inv: "pool_inv s" and step: "main_step s s'"
  shows "wake_inv s'"
proof -
  note l = pool_invD(5) [OF inv, unfolded wake_inv_def] and sp = pool_invD(3) [OF inv, unfolded spawn_inv_def]
    and jn = pool_invD(4) [OF inv, unfolded join_inv_def]
  have lp: "length (pool_contents (pool s)) = pool_count (pool s)"
    using live_pool [OF inv main_step_alive [OF step]] by auto
  have here: "will_check (wpc s' j) \<Longrightarrow> \<exists>i. will_check (wpc s' i)" for j by blast
  from step show ?thesis
  proof cases
    case (m_create k)
    show ?thesis using l here [of k] by (auto simp: wake_inv_def m_create(1) will_check_def)
  next
    case (m_put_wake fd p j)
    show ?thesis using here [of j] by (auto simp: wake_inv_def m_put_wake(1) will_check_def)
  next
    case (m_put_none fd p)
    have "0 < spawned s" using sp m_put_none(2) by simp
    then have "will_check (wpc s 0)"
      using sp jn m_put_none(2,6) by (auto simp: will_check_def)
    then show ?thesis using here [of 0] by (auto simp: wake_inv_def m_put_none(1))
  next
    case m_down
    have "will_check (wpc s i) \<Longrightarrow> will_check (wpc s' i)" for i
      by (simp add: m_down(1) wake_all_def will_check_def)
    with l show ?thesis by (auto simp: wake_inv_def m_down(1))
  qed (use l lp in \<open>auto simp: wake_inv_def\<close>)
qed

lemma main_step_socket:
  assumes inv: "pool_inv s" and step: "main_step s s'"
  shows "socket_inv s'"
proof -
  note l = pool_invD(6) [OF inv, unfolded socket_inv_def] and sp = pool_invD(3) [OF inv, unfolded spawn_inv_def]
    and jn = pool_invD(4) [OF inv, unfolded join_inv_def]
  have tc: "thread_count (pool s) = spawned s"
    using pool_invD(1) [OF inv] main_step_alive [OF step] by (auto simp: memory_inv_def)
  have hands: "in_progress s' = in_progress s"
    if "spawned s' = spawned s" "\<And>i. in_hand (wpc s' i) = in_hand (wpc s i)"
    using that by (simp add: in_progress_def)
  from step show ?thesis
  proof cases
    case (m_create k)
    have "(\<Sum>i<k. in_hand (((wpc s)(k := W_Lock)) i)) = (\<Sum>i<k. in_hand (wpc s i))"
      by (rule sum_same) simp
    then have "in_progress s' = in_progress s" using sp m_create(2) by (simp add: in_progress_def m_create(1))
    with l m_create(2,3) sp show ?thesis by (auto simp: socket_inv_def m_create(1))
  next
    case (m_put_wake fd p j)
    note put = pool_put_inv [OF inv main_step_alive [OF step] m_put_wake(4,5)]
    have "in_progress s' = in_progress s" by (rule hands) (simp_all add: m_put_wake(1,6))
    with l put sp m_put_wake(2) show ?thesis by (auto simp: socket_inv_def m_put_wake(1))
  next
    case (m_put_none fd p)
    note put = pool_put_inv [OF inv main_step_alive [OF step] m_put_none(4,5)]
    have "in_progress s' = in_progress s" by (rule hands) (simp_all add: m_put_none(1))
    with l put sp m_put_none(2) show ?thesis by (auto simp: socket_inv_def m_put_none(1))
  next
    case m_down
    have "in_progress s' = in_progress s" by (rule hands) (simp_all add: m_down(1) wake_all_def)
    with l show ?thesis by (auto simp: socket_inv_def m_down(1))
  next
    case (m_free k)
    have "pool_contents (pool s) = []"
    proof (cases "spawned s")
      case 0
      then show ?thesis using l sp by auto
    next
      case (Suc n)
      then have "wpc s 0 = W_Done" using jn m_free(2,3) tc by auto
      then show ?thesis using jn by blast
    qed
    moreover have "in_progress s' = in_progress s" by (rule hands) (simp_all add: m_free(1))
    ultimately show ?thesis using l by (auto simp: socket_inv_def m_free(1))
  qed (use l sp hands in \<open>auto simp: socket_inv_def\<close>)
qed

lemma main_step_inv: "pool_inv s \<Longrightarrow> main_step s s' \<Longrightarrow> pool_inv s'"
  by (simp add: pool_inv_def [of s'] main_step_memory main_step_lock main_step_spawn main_step_join
      main_step_wake main_step_socket)

lemma program_step_inv: "pool_inv s \<Longrightarrow> program_step s s' \<Longrightarrow> pool_inv s'"
  by (auto simp: program_step_def intro: main_step_inv worker_step_inv)

text \<open>Spurious wake-ups.\<close>

lemma spurious_worker_inv:
  assumes inv: "pool_inv s" and w: "wpc s i = W_Wait"
  shows "pool_inv (s\<lparr>wpc := (wpc s)(i := W_Relock)\<rparr>)" (is "pool_inv ?s")
proof -
  have "\<exists>j. will_check (wpc ?s j)" by (rule exI [of _ i]) (simp add: will_check_def)
  then have "wake_inv ?s" using pool_invD(5) [OF inv] by (simp add: wake_inv_def)
  moreover have "in_progress ?s = in_progress s" unfolding in_progress_def by (simp, rule sum_same) (simp add: w)
  then have "socket_inv ?s" using pool_invD(6) [OF inv] by (auto simp: socket_inv_def)
  moreover have "memory_inv ?s" using pool_invD(1) [OF inv] by (simp add: memory_inv_def)
  moreover have "lock_inv ?s"
    using pool_invD(2) [OF inv] w by (auto simp: lock_inv_def)
  moreover have "((wpc s)(i := W_Relock)) j = W_Unborn \<longleftrightarrow> wpc s j = W_Unborn" for j by (simp add: w)
  then have "spawn_inv ?s"
    using pool_invD(3) [OF inv] by (simp add: spawn_inv_def del: fun_upd_apply)
  moreover have "join_inv ?s"
  proof -
    have "\<not> after_stop (mpc s)" using pool_invD(4) [OF inv] w by (auto simp: join_inv_def)
    then show ?thesis using pool_invD(4) [OF inv] by (intro join_inv_early) (auto simp: join_inv_def)
  qed
  ultimately show ?thesis by (simp add: pool_inv_def)
qed

lemma spurious_main_inv:
  assumes inv: "pool_inv s" and w: "mpc s = M_Wait fd"
  shows "pool_inv (s\<lparr>mpc := M_Relock fd\<rparr>)" (is "pool_inv ?s")
proof -
  have "in_progress ?s = in_progress s" by (simp add: in_progress_def)
  then show ?thesis using pool_invD [OF inv] w by (simp add: inv_defs)
qed

lemma pool_step_inv: "pool_step s s' \<Longrightarrow> pool_inv s \<Longrightarrow> pool_inv s'"
  by (cases rule: pool_step.cases) (auto intro: program_step_inv spurious_worker_inv spurious_main_inv)

lemma reachable_inv: "reachable s0 s \<Longrightarrow> pool_inv s0 \<Longrightarrow> pool_inv s"
  by (induction rule: reachable.induct) (auto intro: pool_step_inv)

lemma pool_reachable_inv:
  assumes "thread_pool_prepare n cap os = (acq, rel, Some p, os')" "n < 2 ^ 60" "cap < 2 ^ 60"
    and "reachable (pool_start n p) s"
  shows "pool_inv s"
  using reachable_inv [OF assms(4)] pool_inv_start [OF assms(1-3)] by blast

lemma main_step_params: "main_step s s' \<Longrightarrow> requested s' = requested s"
  by (erule main_stepE) simp_all

lemma worker_step_params: "worker_step i s s' \<Longrightarrow> requested s' = requested s \<and> spawned s' = spawned s"
  by (erule worker_stepE) simp_all

end
