(* ===== verification/ServerRun.thy ===== *)
theory ServerRun
  imports ServerHandle PoolCorrect
begin

section \<open>The life of the process\<close>

text \<open>
  What \<open>server_run\<close> acquires and releases on each of its paths, and the sequence of all requests
  between the start and the end.
\<close>

subsection \<open>Command line\<close>

lemma parse_int_arg_range:
  assumes "0 < fallback" "fallback \<le> 65535"
  shows "0 < parse_int_arg arg fallback \<and> parse_int_arg arg fallback \<le> 65535"
  using assms by (auto simp: parse_int_arg_def split: prod.splits)

lemma main_config_range:
  "0 < port (main_config argv) \<and> port (main_config argv) \<le> 65535 \<and>
   0 < cfg_thread_count (main_config argv) \<and> cfg_thread_count (main_config argv) \<le> 65535"
proof -
  have t: "0 < nat (parse_int_arg a 4)" "nat (parse_int_arg a 4) \<le> 65535" for a
    using parse_int_arg_range [of 4 a] by auto
  have p: "0 < parse_int_arg a 8080" "parse_int_arg a 8080 \<le> 65535" for a using parse_int_arg_range [of 8080 a] by auto
  show ?thesis using t p by (simp add: main_config_def Let_def)
qed

subsection \<open>The pool and the socket\<close>

lemma create_threads_runs:
  "create_threads n p os = (r, os') \<Longrightarrow> runs_to os os'"
proof (induction n arbitrary: p os)
  case (Suc n)
  obtain ok os1 where sc: "sys_call os = (ok, os1)" by fastforce
  have r1: "runs_to os os1" using sc by (rule runs_to_sys_call)
  show ?case
  proof (cases ok)
    case True
    then have "runs_to os1 os'" using Suc sc by simp
    with r1 show ?thesis by (rule runs_to_trans)
  qed (use Suc.prems sc r1 in simp)
qed simp

lemma thread_pool_init_outcome:
  assumes "thread_pool_init n cap os = (acq, rel, r, os')"
  shows "runs_to os os' \<and> (r = None \<longrightarrow> mset rel = mset acq) \<and> (r \<noteq> None \<longrightarrow> rel = [] \<and> mset acq = mset shutdown_releases)"
proof -
  obtain acq1 rel1 r1 os1 where p: "thread_pool_prepare n cap os = (acq1, rel1, r1, os1)" by (metis prod_cases4)
  have prep: "runs_to os os1" "r1 = None \<Longrightarrow> mset rel1 = mset acq1" "r1 \<noteq> None \<Longrightarrow> mset acq1 = mset shutdown_releases"
    using p by (auto simp: thread_pool_prepare_def sys_call_def Let_def shutdown_releases_def prepare_fail_def runs_to_def
        split: if_splits)
  show ?thesis
  proof (cases r1)
    case None
    then show ?thesis using assms p prep by (simp add: thread_pool_init_def)
  next
    case (Some pl)
    obtain r2 os2 where c: "create_threads n pl os1 = (r2, os2)" by fastforce
    have "runs_to os os2" using prep(1) create_threads_runs [OF c] by (rule runs_to_trans)
    then show ?thesis using assms p prep Some c by (cases r2) (auto simp: thread_pool_init_def)
  qed
qed

lemma create_listen_socket_outcome:
  assumes "create_listen_socket os = (opened, closed, ok, os')"
  shows "runs_to os os' \<and> opened = closed + (if ok then 1 else 0)"
  using assms by (auto simp: create_listen_socket_def sys_call_def Let_def runs_to_def split: if_splits)

text \<open>Once the handlers are installed no signal ends the process.\<close>

definition installed :: "signals \<Rightarrow> bool" where
  "installed p \<longleftrightarrow> SIG_DFL \<notin> range (action_of p)"

lemma install_installs: "installed (install_signal_handlers p)"
proof -
  have "action_of (install_signal_handlers p) signo \<noteq> SIG_DFL" for signo
    by (cases signo) (simp_all add: install_signal_handlers_def)
  then show ?thesis unfolding installed_def by (metis rangeE)
qed

lemma deliver_installed: "installed p \<Longrightarrow> \<exists>p'. deliver signo p = Some p' \<and> installed p'"
  by (cases "action_of p signo") (auto simp: deliver_def installed_def handle_signal_def, metis rangeI)

lemma deliver_all_installed: "installed p \<Longrightarrow> \<exists>p'. deliver_all ss p = Some p' \<and> installed p'"
proof (induction ss arbitrary: p)
  case (Cons signo ss)
  obtain p1 where "deliver signo p = Some p1" "installed p1" using deliver_installed [OF Cons.prems] by blast
  then show ?case using Cons.IH by simp
qed simp

lemma accept_loop_returns:
  "installed p \<Longrightarrow> \<exists>queued closed left. accept_loop evs p = Some (queued, closed, left) \<and> length queued \<le> length evs"
proof (induction evs arbitrary: p)
  case (Cons e evs)
  obtain before ev meanwhile where e: "e = (before, ev, meanwhile)" by (cases e)
  obtain p1 where p1: "deliver_all before p = Some p1" "installed p1" using deliver_all_installed [OF Cons.prems] by blast
  obtain p2 where p2: "deliver_all meanwhile p1 = Some p2" "installed p2" using deliver_all_installed [OF p1(2)] by blast
  obtain queued closed left where r: "accept_loop evs p2 = Some (queued, closed, left)" "length queued \<le> length evs"
    using Cons.IH [OF p2(2)] by blast
  show ?case using p1(1) p2(1) r by (cases ev) (auto simp: e)
qed auto

subsection \<open>All requests\<close>

text \<open>
  The contract between the pool and its handler: from a state that is good for one more job, a
  proper job is handled without undefined behaviour, its end is as promised, and the state is good
  for what follows. Then so is any sequence of jobs.
\<close>

locale task_handler =
  fixes handler :: "'j \<Rightarrow> 's \<Rightarrow> ('e \<times> 's) option"
    and proper :: "'j \<Rightarrow> bool"
    and ready :: "nat \<Rightarrow> 's \<Rightarrow> bool"
    and ends_as :: "'j \<Rightarrow> 'e \<Rightarrow> bool"
  assumes handles: "proper j \<Longrightarrow> ready (Suc n) s \<Longrightarrow> \<exists>e s'. handler j s = Some (e, s') \<and> ends_as j e \<and> ready n s'"
begin

lemma handles_all:
  "\<forall>j\<in>set jobs. proper j \<Longrightarrow> ready (length jobs + n) s \<Longrightarrow>
   \<exists>ends s'. run_jobs handler jobs s = Some (ends, s') \<and> list_all2 ends_as jobs ends \<and> ready n s'"
proof (induction jobs arbitrary: s)
  case (Cons j jobs)
  obtain e s1 where "handler j s = Some (e, s1)" "ends_as j e" "ready (length jobs + n) s1"
    using handles [of j "length jobs + n" s] Cons.prems by auto
  moreover from Cons.IH [OF _ this(3)] Cons.prems(1) obtain ends s' where
    "run_jobs handler jobs s1 = Some (ends, s')" "list_all2 ends_as jobs ends" "ready n s'" by auto
  ultimately show ?case by simp
qed simp

end

definition engine_ready :: "nat \<Rightarrow> world \<times> DbEngine \<Rightarrow> bool" where
  "engine_ready n = (\<lambda>(w, db). db_inv db \<and> db_lock db = Unlocked \<and> db_count db + n \<le> DB_ROWS_MAX)"

definition closed_once :: "job \<Rightarrow> int \<times> nat \<times> string \<Rightarrow> bool" where
  "closed_once j e \<longleftrightarrow> fst e = fst (snd j) \<and> fst (snd e) = 1"

interpretation clients: task_handler serve_job "\<lambda>j. fst j \<le> SIZE_MAX" engine_ready closed_once
proof
  fix j :: job and n s
  assume j: "fst j \<le> SIZE_MAX" and ready: "engine_ready (Suc n) s"
  obtain tid fd c where jc: "j = (tid, fd, c)" by (cases j)
  obtain w db where s: "s = (w, db)" by fastforce
  let ?s = "\<lparr>srv_world = w, srv_db = db, srv_conn = c, srv_closes = 0, srv_log = []\<rparr>"
  have db: "db_inv db" "db_lock db = Unlocked" "db_count db + Suc n \<le> DB_ROWS_MAX"
    using ready s by (simp_all add: engine_ready_def)
  then have "db_fine (srv_db ?s)" by (simp add: db_fine_def)
  then obtain s' where h: "handle_client tid fd ?s = Some (close_client s')" "served tid ?s s'"
    using handle_client_served j jc by fastforce
  have step: "db_step db (srv_db s')" "srv_closes s' = 0" using h(2) by (simp_all add: served_def)
  have "engine_ready n (srv_world s', srv_db s')"
    using step(1) db_step_count [OF step(1) db(1)] db(3) by (simp add: engine_ready_def db_step_def)
  then show "\<exists>e s'. serve_job j s = Some (e, s') \<and> closed_once j e \<and> engine_ready n s'"
    using h(1) step(2) by (simp add: serve_job_def jc s close_client_def closed_once_def)
qed

lemma closed_once_all:
  "list_all2 closed_once jobs ends \<Longrightarrow> map (\<lambda>(fd, n, bytes). (fd, n)) ends = map (\<lambda>(tid, fd, c). (fd, 1)) jobs"
  by (induction rule: list_all2_induct) (auto simp: closed_once_def)

subsection \<open>The run\<close>

text \<open>The end of a run: everything acquired is released, and on a normal exit every socket was closed once.\<close>

definition run_clean :: "(int \<times> conn) list \<Rightarrow> int list \<Rightarrow> run_end \<Rightarrow> bool" where
  "run_clean queued closed e \<longleftrightarrow>
     mset (pool_released e) = mset (pool_acquired e) \<and> listen_closed e = listen_opened e \<and>
     (\<forall>db. run_db e = Some db \<longrightarrow> db_lock db = Destroyed) \<and>
     (exit_status e = 0 \<longrightarrow> run_db e \<noteq> None \<and> run_refused e = closed \<and>
        mset (map (\<lambda>(fd, n, bytes). (fd, n)) (run_served e)) = mset (map (\<lambda>(fd, c). (fd, 1)) queued))"

lemma server_run_clean:
  assumes "db_init (cfg_data_path cfg) w \<noteq> None"
    and "length (file_text w (cfg_data_path cfg)) + length evs < DB_ROWS_MAX"
    and "\<forall>q. mset (map snd (schedule q)) = mset q" "\<forall>q. \<forall>j\<in>set (schedule q). fst j \<le> SIZE_MAX"
    and "accept_loop evs (install_signal_handlers signals_at_start) = Some (queued, closed, left)"
  shows "\<exists>r. server_run cfg evs schedule w = Some r \<and> (r = None \<longrightarrow> \<not> left) \<and>
    (\<forall>e w'. r = Some (e, w') \<longrightarrow> run_clean queued closed e)"
proof -
  let ?path = "cfg_data_path cfg"
  obtain w1 r1 where i: "db_init ?path w = Some (w1, r1)" using assms(1) by auto
  show ?thesis
  proof (cases r1)
    case (Inl err)
    then show ?thesis using i by (simp add: server_run_def run_clean_def run_failed_def)
  next
    case (Inr db)
    have db: "db_inv db" "db_lock db = Unlocked" "db_count db \<le> length (file_text w ?path)"
      using db_init_inv [of ?path w w1 db] i Inr assms(2) by auto
    obtain acq rel pl w2 where t: "thread_pool_init (cfg_thread_count cfg) REQUEST_QUEUE_CAPACITY w1 = (acq, rel, pl, w2)"
      by (metis prod_cases4)
    note pool = thread_pool_init_outcome [OF t]
    obtain opened cl ok w3 where l: "create_listen_socket w2 = (opened, cl, ok, w3)" by (metis prod_cases4)
    note sock = create_listen_socket_outcome [OF l]
    have jobs: "length (schedule queued) = length queued" using assms(3) mset_eq_length [of "map snd (schedule queued)" queued] by simp
    then have "engine_ready (length (schedule queued) + 0) (w3, db)"
      using accept_loop_returns [OF install_installs, of evs signals_at_start] assms(5) db assms(2)
      by (simp add: engine_ready_def)
    with assms(4) have "\<exists>ends s'. run_jobs serve_job (schedule queued) (w3, db) = Some (ends, s') \<and>
        list_all2 closed_once (schedule queued) ends \<and> engine_ready 0 s'"
      by (intro clients.handles_all) auto
    then obtain w4 db4 ends where j: "run_jobs serve_job (schedule queued) (w3, db) = Some (ends, w4, db4)"
        "map (\<lambda>(fd, n, bytes). (fd, n)) ends = map (\<lambda>(tid, fd, c). (fd, 1)) (schedule queued)"
      using closed_once_all by auto
    have "(\<lambda>(tid :: nat, fd :: int, c :: conn). (fd, 1 :: nat)) = (\<lambda>(fd, c). (fd, 1)) \<circ> snd" by auto
    then have "mset (map (\<lambda>(fd, n, bytes). (fd, n)) ends) = image_mset (\<lambda>(fd, c). (fd, 1)) (mset (map snd (schedule queued)))"
      unfolding j(2) by (simp only: mset_map image_mset.compositionality)
    then have served: "mset (map (\<lambda>(fd, n, bytes). (fd, n)) ends) = mset (map (\<lambda>(fd, c). (fd, 1)) queued)"
      using assms(3) by simp
    show ?thesis
    proof (cases pl)
      case None
      then show ?thesis using i Inr t pool by (simp add: server_run_def run_clean_def run_failed_def db_destroy_def)
    next
      case (Some p)
      then show ?thesis using i Inr t pool l sock assms(5) j(1) served
        by (cases ok; cases left) (simp_all add: server_run_def run_clean_def run_failed_def db_destroy_def)
    qed
  qed
qed

end
