(* ===== verification/ServerTable.thy ===== *)
theory ServerTable
  imports Concurrency ServerRun
begin

section \<open>A run of the program is a run of the table\<close>

text \<open>
  From the start of the process on a data file to its end and the next start: what the clients got
  and what the file holds is the run of the table from what the file held.
\<close>

lemma run_jobs_follow_table:
  "engine_holds path rs w db \<Longrightarrow> never_fails w \<Longrightarrow> length rs + length jobs \<le> DB_ROWS_MAX \<Longrightarrow>
   list_all2 (\<lambda>(tid, fd, c) a. asks_statement a c \<and> sent c = [] \<and> tid \<le> SIZE_MAX) jobs asts \<Longrightarrow>
   \<exists>ends w' db'. run_jobs serve_job jobs (w, db) = Some (ends, w', db') \<and> never_fails w' \<and>
     engine_holds path (snd (table_run asts rs)) w' db' \<and>
     list_all2 (\<lambda>(tid, fd, c) (reply, fd', closes, out). fd' = fd \<and> closes = 1 \<and> reply_text tid reply out)
       jobs (zip (fst (table_run asts rs)) ends) \<and> length ends = length jobs"
proof (induction jobs arbitrary: rs w db asts)
  case (Cons j jobs)
  obtain tid fd c where j: "j = (tid, fd, c)" by (cases j)
  obtain a as where asts: "asts = a # as" "asks_statement a c" "sent c = []" "tid \<le> SIZE_MAX"
      "list_all2 (\<lambda>(tid, fd, c) a. asks_statement a c \<and> sent c = [] \<and> tid \<le> SIZE_MAX) jobs as"
    using Cons.prems(4) j by (cases asts) auto
  have few: "length rs < DB_ROWS_MAX" using Cons.prems(3) by simp
  obtain out w1 db1 where s: "serve_job j (w, db) = Some ((fd, 1, out), w1, db1)" "never_fails w1"
      "engine_holds path (snd (table_exec a rs)) w1 db1" "reply_text tid (fst (table_exec a rs)) out"
    using serve_job_follows_table [OF Cons.prems(1) few Cons.prems(2) asts(2-4)] j by blast
  have "length (snd (table_exec a rs)) + length jobs \<le> DB_ROWS_MAX"
    using table_exec_length [of a rs] Cons.prems(3) by simp
  from Cons.IH [OF s(3,2) this asts(5)] obtain ends w' db' where
    "run_jobs serve_job jobs (w1, db1) = Some (ends, w', db')" "never_fails w'"
    "engine_holds path (snd (table_run as (snd (table_exec a rs)))) w' db'" "length ends = length jobs"
    "list_all2 (\<lambda>(tid, fd, c) (reply, fd', closes, out). fd' = fd \<and> closes = 1 \<and> reply_text tid reply out)
       jobs (zip (fst (table_run as (snd (table_exec a rs)))) ends)" by blast
  then show ?case using s(1,4) j asts(1) by (simp add: Let_def)
qed simp

lemma create_threads_granted:
  "never_fails os \<Longrightarrow> \<exists>p' os'. create_threads n p os = (Some p', os')"
proof (induction n arbitrary: p os)
  case (Suc n)
  obtain os1 where os1: "sys_call os = (True, os1)" "never_fails os1"
    using Suc.prems by (auto simp: sys_call_def never_fails_def)
  from Suc.IH [OF os1(2)] show ?case using os1(1) by simp
qed simp

lemma thread_pool_init_granted:
  assumes "never_fails os" "0 < n" "0 < cap"
  shows "\<exists>acq rel p os'. thread_pool_init n cap os = (acq, rel, Some p, os') \<and> runs_to os os'"
proof -
  have n: "n \<noteq> 0 \<and> cap \<noteq> 0" using assms by simp
  obtain acq rel p os1 where p: "thread_pool_prepare n cap os = (acq, rel, Some p, os1)" "never_fails os1"
    using assms n by (auto simp: thread_pool_prepare_def sys_call_def never_fails_def Let_def)
  obtain p' os' where "create_threads n p os1 = (Some p', os')" using create_threads_granted [OF p(2)] by blast
  then have "thread_pool_init n cap os = (acq, [], Some p', os')" using p(1) by (simp add: thread_pool_init_def)
  then show ?thesis using thread_pool_init_outcome by blast
qed

lemma create_listen_socket_granted:
  assumes "never_fails os"
  shows "\<exists>opened closed os'. create_listen_socket os = (opened, closed, True, os') \<and> runs_to os os'"
  using assms by (auto simp: create_listen_socket_def sys_call_def never_fails_def Let_def runs_to_def)

text \<open>The rows of a table the engine holds can be written and read.\<close>

lemma engine_holds_rows: "engine_holds path rs w db \<Longrightarrow> \<forall>r\<in>set rs. row_ok r"
  by (auto simp: engine_holds_def db_inv_def)

lemma db_init_holds:
  assumes "never_fails w" "length path < DB_PATH_MAX" "file_text w path = table_text rs"
    and "\<forall>r\<in>set rs. row_ok r \<and> rec_id r < INT_MAX" "length rs < DB_ROWS_MAX"
  shows "\<exists>w' db. db_init path w = Some (w', Inr db) \<and> engine_holds path rs w' db \<and> never_fails w'"
  using db_init_table [OF assms] by (auto simp: engine_holds_def)

lemma server_run_follows_table:
  assumes never: "never_fails w" and path: "length (cfg_data_path cfg) < DB_PATH_MAX"
    and disk: "file_text w (cfg_data_path cfg) = table_text rs0"
    and rows: "\<forall>r\<in>set rs0. row_ok r \<and> rec_id r < INT_MAX" "length rs0 + length asts < DB_ROWS_MAX"
    and threads: "0 < cfg_thread_count cfg" and accepted: "accept_loop evs (install_signal_handlers signals_at_start) = Some (queued, closed, True)"
    and jobs: "list_all2 (\<lambda>(tid, fd, c) a. asks_statement a c \<and> sent c = [] \<and> tid \<le> SIZE_MAX) (schedule queued) asts"
  shows "\<exists>e w' db. server_run cfg evs schedule w = Some (Some (e, w')) \<and> exit_status e = 0 \<and> never_fails w' \<and>
    engine_holds (cfg_data_path cfg) (snd (table_run asts rs0)) w' db \<and>
    list_all2 (\<lambda>(tid, fd, c) (reply, fd', closes, out). fd' = fd \<and> closes = 1 \<and> reply_text tid reply out)
      (schedule queued) (zip (fst (table_run asts rs0)) (run_served e)) \<and> length (run_served e) = length asts"
proof -
  let ?path = "cfg_data_path cfg"
  obtain w1 db where i: "db_init ?path w = Some (w1, Inr db)" "engine_holds ?path rs0 w1 db" "never_fails w1"
    using db_init_holds [OF never path disk rows(1)] rows(2) by auto
  obtain acq rel p w2 where t: "thread_pool_init (cfg_thread_count cfg) REQUEST_QUEUE_CAPACITY w1 = (acq, rel, Some p, w2)" "runs_to w1 w2"
    using thread_pool_init_granted [OF i(3) threads, of REQUEST_QUEUE_CAPACITY] by (auto simp: REQUEST_QUEUE_CAPACITY_def)
  have n2: "never_fails w2" by (rule never_fails_runs_to [OF i(3) t(2)])
  obtain opened cl w3 where l: "create_listen_socket w2 = (opened, cl, True, w3)" "runs_to w2 w3"
    using create_listen_socket_granted [OF n2] by blast
  have n3: "never_fails w3" by (rule never_fails_runs_to [OF n2 l(2)])
  have kept: "keeps_files w1 w3" using keeps_files_runs_to [OF runs_to_trans [OF t(2) l(2)]] .
  have h3: "engine_holds ?path rs0 w3 db"
    using engine_holds_files [OF i(2), of w3] kept by (simp add: keeps_files_def)
  have len: "length (schedule queued) = length asts" using jobs by (rule list_all2_lengthD)
  then obtain ends w4 db4 where r: "run_jobs serve_job (schedule queued) (w3, db) = Some (ends, w4, db4)" "never_fails w4"
      "engine_holds ?path (snd (table_run asts rs0)) w4 db4" "length ends = length asts"
      "list_all2 (\<lambda>(tid, fd, c) (reply, fd', closes, out). fd' = fd \<and> closes = 1 \<and> reply_text tid reply out)
         (schedule queued) (zip (fst (table_run asts rs0)) ends)"
    using run_jobs_follow_table [OF h3 n3 _ jobs] rows(2) by auto
  show ?thesis using i(1) t(1) l(1) accepted r by (simp add: server_run_def) blast
qed

end
