(* ===== verification/DbProperties.thy ===== *)
theory DbProperties
  imports DbLoad
begin

section \<open>The DB engine: properties\<close>

text \<open>
  What \<open>src/db.c\<close> promises the server: what an insertion stores and reports on every path, that a
  selection through the index is a scan of the table, that the table survives a restart, and the
  cases at the end of the \<open>int\<close> range and after a torn write where a promise fails.
\<close>

definition calm_world :: world where
  "calm_world = \<lparr>calls = 0, grant = (\<lambda>_. True), files = Map.empty, short_write = (\<lambda>_. 0), clock = (\<lambda>_. (0, 0)), ticks = 0\<rparr>"

lemma calm_world_never_fails: "never_fails calm_world"
  by (simp add: calm_world_def never_fails_def)

lemma empty_engine_simps [simp]: "db_lock (empty_engine p) = Unlocked" "db_count (empty_engine p) = 0"
  "data_path (empty_engine p) = p" "next_id (empty_engine p) = 1" "index (empty_engine p) = bptree_init"
  by (simp_all add: empty_engine_def)

lemma empty_search [simp]: "bptree_search bptree_init k = None"
  by (rule bp.search_empty)

subsection \<open>Insertion\<close>

text \<open>
  C10: an insertion with acceptable arguments in which no call fails reports success with the new
  row as JSON, appends the row to the table and its line to the data file, keeps the invariant
  and the completeness of the index, and releases the lock.
\<close>

theorem db_insert_stores_row:
  assumes "db_inv db" "db_lock db = Unlocked" "db_count db < DB_ROWS_MAX" "insert_args i name age"
    and "never_fails w" "\<not> insert_refused has_id i name age db"
  shows "\<exists>w' db' res. db_insert_internal has_id i name age w db = Some (w', db', res) \<and> res_ok res \<and>
    holds_rows res ALL_COLUMNS [new_record has_id i name age db] \<and>
    rows_of db' = rows_of db @ [new_record has_id i name age db] \<and>
    file_text w' (data_path db) = file_text w (data_path db) @ record_line (new_record has_id i name age db) \<and>
    db_inv db' \<and> db_lock db' = Unlocked \<and> (db_indexed db \<longrightarrow> db_indexed db')"
proof -
  obtain w' db' res where r: "db_insert_internal has_id i name age w db = Some (w', db', res)"
      "insert_outcome (new_record has_id i name age db) w db w' db' res"
    using db_insert_internal_ok [OF assms(1,3,4,2), of has_id w] assms(6) by auto
  moreover have "granted w w'" by (rule never_fails_granted [OF assms(5)])
  ultimately show ?thesis by (auto simp: insert_outcome_def)
qed

lemma db_insert_stores_row_witness:
  "\<exists>w' db' res. db_insert_internal True 7 ''Kim'' 30 calm_world (empty_engine ''d.csv'') = Some (w', db', res) \<and>
    res_ok res \<and> rows_of db' = [\<lparr>rec_id = 7, rec_name = ''Kim'', rec_age = 30\<rparr>]"
  using db_insert_stores_row [OF empty_engine_inv(1) _ _ _ calm_world_never_fails, of "''d.csv''" 7 "''Kim''" 30 True]
  by (auto simp: DB_ROWS_MAX_def insert_args_def INT_MAX_def insert_refused_def name_is_valid_def
      new_record_def empty_engine_inv(3))

text \<open>
  C11: whatever calls fail, an insertion returns, releases the lock and leaves the invariant; the
  row is in the table and in the file, or it is in neither, the call reports an error and at most
  a prefix of the line was written. Success is reported only in the first case.
\<close>

theorem db_insert_any_oracle:
  assumes "db_inv db" "db_lock db = Unlocked" "db_count db < DB_ROWS_MAX" "insert_args i name age"
    and "\<not> insert_refused has_id i name age db"
  shows "\<exists>w' db' res. db_insert_internal has_id i name age w db = Some (w', db', res) \<and> db_inv db' \<and> db_lock db' = Unlocked \<and>
    (rows_of db' = rows_of db @ [new_record has_id i name age db] \<and>
       file_text w' (data_path db) = file_text w (data_path db) @ record_line (new_record has_id i name age db) \<or>
     rows_of db' = rows_of db \<and> \<not> res_ok res \<and>
       (\<exists>n. file_text w' (data_path db) =
          file_text w (data_path db) @ take n (record_line (new_record has_id i name age db))))"
  using db_insert_internal_ok [OF assms(1,3,4,2), of has_id w] assms(5) by (auto simp: insert_outcome_def)

lemma db_insert_any_oracle_witness:
  "\<exists>w' db' res. db_insert_internal False 0 ''Kim'' 30 (calm_world\<lparr>grant := (\<lambda>n. n \<noteq> 3)\<rparr>) (empty_engine ''d.csv'') =
     Some (w', db', res) \<and> db_inv db' \<and> db_lock db' = Unlocked"
  using db_insert_any_oracle [OF empty_engine_inv(1), of "''d.csv''" 0 "''Kim''" 30 False "calm_world\<lparr>grant := (\<lambda>n. n \<noteq> 3)\<rparr>"]
  by (auto simp: DB_ROWS_MAX_def insert_args_def INT_MAX_def insert_refused_def name_is_valid_def)

text \<open>
  an explicit id that is not positive or is already indexed, a negative age and a name that is
  empty or has a comma or a line break are refused whatever else happens: an error is returned and
  neither the engine nor any file changes.
\<close>

theorem db_insert_refuses:
  assumes "db_inv db" "db_lock db = Unlocked" "db_count db < DB_ROWS_MAX" "insert_args i name age"
    and "insert_refused has_id i name age db"
  shows "\<exists>w' res. db_insert_internal has_id i name age w db = Some (w', db, res) \<and> \<not> res_ok res \<and> files w' = files w"
  using db_insert_internal_ok [OF assms(1,3,4,2), of has_id w] assms(5) by (auto simp: keeps_files_def)

lemma db_insert_refuses_witness:
  "\<exists>w' res. db_insert_internal True 5 ''a,b'' 30 calm_world (empty_engine ''d.csv'') = Some (w', empty_engine ''d.csv'', res) \<and>
     \<not> res_ok res"
  using db_insert_refuses [OF empty_engine_inv(1), of "''d.csv''" 5 "''a,b''" 30 True calm_world]
  by (auto simp: DB_ROWS_MAX_def insert_args_def INT_MAX_def insert_refused_def name_is_valid_def)



text \<open>
  C13: at the end of the range the automatic id repeats: once \<open>next_id\<close> is \<open>INT_MAX\<close>, every
  insertion without an id is accepted and stores one more row with the id \<open>INT_MAX\<close>, and the index
  keeps only the last of them.
\<close>

theorem db_insert_repeats_last_id:
  assumes "db_inv db" "db_lock db = Unlocked" "db_count db < DB_ROWS_MAX" "insert_args 0 name age"
    and "never_fails w" "next_id db = INT_MAX" "0 \<le> age" "name_is_valid name" "db_indexed db"
  shows "\<exists>w' db' res. db_insert name age w db = Some (w', db', res) \<and> res_ok res \<and>
    rows_of db' = rows_of db @ [\<lparr>rec_id = INT_MAX, rec_name = name, rec_age = age\<rparr>] \<and> next_id db' = INT_MAX \<and>
    bptree_search (index db') INT_MAX = Some (db_count db)"
proof -
  have "\<not> insert_refused False 0 name age db" using assms(7,8) by (simp add: insert_refused_def)
  then obtain w' db' res where r: "db_insert_internal False 0 name age w db = Some (w', db', res)"
      "insert_outcome (new_record False 0 name age db) w db w' db' res"
    using db_insert_internal_ok [OF assms(1,3,4,2), of False w] by auto
  have g: "granted w w'" by (rule never_fails_granted [OF assms(5)])
  have rec: "new_record False 0 name age db = \<lparr>rec_id = INT_MAX, rec_name = name, rec_age = age\<rparr>"
    using assms(6) by (simp add: new_record_def)
  have rows: "rows_of db' = rows_of db @ [\<lparr>rec_id = INT_MAX, rec_name = name, rec_age = age\<rparr>]" "res_ok res"
      "db_inv db'" "db_indexed db'"
    using r(2) g assms(9) by (auto simp: insert_outcome_def rec)
  have "length (rows_of db) = db_count db" using assms(1) by (simp add: db_inv_def)
  moreover have "next_id db' = INT_MAX" using rows(1,3) assms(1,6) by (simp add: db_inv_def next_step_def)
  ultimately show ?thesis using r(1) rows by (simp add: db_insert_def db_indexed_def)
qed

lemma db_insert_repeats_last_id_witness:
  "\<exists>w' db' res. db_insert ''Lee'' 20 calm_world
      \<lparr>data_path = ''d.csv'', records = [Some \<lparr>rec_id = 2147483646, rec_name = ''Kim'', rec_age = 30\<rparr>],
       db_count = 1, capacity = 1, next_id = INT_MAX,
       index = \<lparr>root = BpNode 1 True 1 (2147483646 # replicate 30 0) (replicate 32 Null) (replicate 31 0) 0, tree_size = 1\<rparr>,
       db_lock = Unlocked\<rparr> = Some (w', db', res) \<and> res_ok res \<and> next_id db' = INT_MAX"
proof -
  let ?tree = "\<lparr>root = BpNode 1 True 1 (2147483646 # replicate 30 0) (replicate 32 Null) (replicate 31 0) 0, tree_size = 1\<rparr>"
  let ?db = "\<lparr>data_path = ''d.csv'', records = [Some \<lparr>rec_id = 2147483646, rec_name = ''Kim'', rec_age = 30\<rparr>],
       db_count = 1, capacity = 1, next_id = INT_MAX, index = ?tree, db_lock = Unlocked\<rparr>"
  have tree: "bptree_inv ?tree" by (simp add: bptree_inv_def arrays_ok_def)
  have rows: "rows_of ?db = [\<lparr>rec_id = 2147483646, rec_name = ''Kim'', rec_age = 30\<rparr>]" by (simp add: rows_of_def)
  have search: "bptree_search ?tree = index_of [\<lparr>rec_id = 2147483646, rec_name = ''Kim'', rec_age = 30\<rparr>]"
    using bp.search_contents [OF tree] by (simp add: index_of_def fun_eq_iff)
  have ixd: "db_indexed ?db" unfolding db_indexed_def rows using search by simp
  have inv: "db_inv ?db" unfolding db_inv_def rows
    using tree search by (simp add: store_ok_def row_ok_def INT_MAX_def name_is_valid_def next_of_def next_step_def)
  show ?thesis
    using db_insert_repeats_last_id [OF inv, of "''Lee''" 20 calm_world] calm_world_never_fails ixd
    by (auto simp: DB_ROWS_MAX_def insert_args_def INT_MAX_def name_is_valid_def)
qed

subsection \<open>Selection\<close>

text \<open>
  C14: a selection in which no call fails returns, in insertion order and as a JSON array with the
  columns of the projection, exactly the rows the condition holds for; the lookup of an id
  through the B+ tree gives the same as a scan of the whole table. The engine is not changed and
  \<open>index_used\<close> tells which way was taken.
\<close>

theorem db_select_is_filter:
  assumes "db_inv db" "db_lock db = Unlocked" "db_count db < DB_ROWS_MAX" "proj_ok p" "never_fails w"
    and "db_indexed db" "distinct (map rec_id (rows_of db))"
  shows "\<exists>w' res. db_select_projected flt p w db = Some (w', db, res) \<and> res_ok res \<and>
    holds_rows res (columns_of (effective p)) (filter (row_matches flt) (rows_of db)) \<and>
    (index_used res \<longleftrightarrow> filter_type flt = DB_FILTER_ID) \<and> files w' = files w"
proof -
  obtain w' res where r: "db_select_projected flt p w db = Some (w', db, res)" "keeps_files w w'"
      "granted w w' \<longrightarrow> res_ok res"
      "res_ok res \<longrightarrow> holds_rows res (columns_of (effective p)) (selected flt db) \<and>
        (index_used res \<longleftrightarrow> filter_type flt = DB_FILTER_ID) \<and>
        res_message res = snprintf_str 128 (''selected '' @ dec_digits (length (selected flt db)) @ '' row(s)'')"
    using db_select_projected_ok [OF assms(1,3,4,2), of flt w] by blast
  have "selected flt db = filter (row_matches flt) (rows_of db)" by (rule selected_is_filter [OF assms(6,7)])
  moreover have "granted w w'" by (rule never_fails_granted [OF assms(5)])
  ultimately show ?thesis using r by (auto simp: keeps_files_def)
qed

lemma db_select_is_filter_witness:
  "\<exists>w' res. db_select_projected \<lparr>filter_type = DB_FILTER_ID, filter_id = 3, filter_name = []\<rparr> all_columns_projection
     calm_world (empty_engine ''d.csv'') = Some (w', empty_engine ''d.csv'', res) \<and> res_ok res \<and> index_used res"
  using db_select_is_filter [OF empty_engine_inv(1) _ _ all_columns_ok(1) calm_world_never_fails empty_engine_inv(2), of "''d.csv''"
      "\<lparr>filter_type = DB_FILTER_ID, filter_id = 3, filter_name = []\<rparr>"]
  by (auto simp: DB_ROWS_MAX_def empty_engine_inv(3))

text \<open>
  C15: whatever calls fail, a selection returns without touching memory outside its arrays, leaves
  the engine as it was with the lock released, and when it reports success the rows are exactly
  those of the index or the scan.
\<close>

theorem db_select_any_oracle:
  assumes "db_inv db" "db_lock db = Unlocked" "db_count db < DB_ROWS_MAX" "proj_ok p"
  shows "\<exists>w' res. db_select_projected flt p w db = Some (w', db, res) \<and> files w' = files w \<and>
    (res_ok res \<longrightarrow> holds_rows res (columns_of (effective p)) (selected flt db))"
  using db_select_projected_ok [OF assms(1,3,4,2), of flt w] by (auto simp: keeps_files_def)

lemma db_select_any_oracle_witness:
  "\<exists>w' res. db_select_projected \<lparr>filter_type = DB_FILTER_ALL, filter_id = 0, filter_name = []\<rparr> all_columns_projection
     (calm_world\<lparr>grant := (\<lambda>_. False)\<rparr>) (empty_engine ''d.csv'') = Some (w', empty_engine ''d.csv'', res)"
  using db_select_any_oracle [OF empty_engine_inv(1) _ _ all_columns_ok(1), of "''d.csv''"
      "\<lparr>filter_type = DB_FILTER_ALL, filter_id = 0, filter_name = []\<rparr>" "calm_world\<lparr>grant := (\<lambda>_. False)\<rparr>"]
  by (auto simp: DB_ROWS_MAX_def)

subsection \<open>Restart\<close>

text \<open>
  C16: durability: when no call fails, an accepted insertion into an engine whose file holds its
  table is read back by the next \<open>db_init\<close>: same rows in the same order, same index, same next
  id. (Ids below \<open>INT_MAX\<close>; the theorem on the last id says what happens otherwise.)
\<close>

theorem db_insert_survives_restart:
  assumes "db_inv db" "db_lock db = Unlocked" "Suc (db_count db) < DB_ROWS_MAX" "insert_args i name age"
    and "never_fails w" "\<not> insert_refused has_id i name age db" "db_indexed db"
    and "file_text w (data_path db) = table_text (rows_of db)" "length (data_path db) < DB_PATH_MAX"
    and "\<forall>r\<in>set (rows_of db @ [new_record has_id i name age db]). rec_id r < INT_MAX"
  shows "\<exists>w1 db1 res w2 db2. db_insert_internal has_id i name age w db = Some (w1, db1, res) \<and> res_ok res \<and>
    db_init (data_path db) w1 = Some (w2, Inr db2) \<and>
    rows_of db2 = rows_of db @ [new_record has_id i name age db] \<and> rows_of db2 = rows_of db1 \<and>
    bptree_search (index db2) = bptree_search (index db1) \<and> next_id db2 = next_id db1"
proof -
  let ?r = "new_record has_id i name age db"
  have few: "db_count db < DB_ROWS_MAX" using assms(3) by simp
  obtain w1 db1 res where r: "db_insert_internal has_id i name age w db = Some (w1, db1, res)"
      "insert_outcome ?r w db w1 db1 res"
    using db_insert_internal_ok [OF assms(1) few assms(4,2), of has_id w] assms(6) by auto
  have g: "granted w w1" by (rule never_fails_granted [OF assms(5)])
  have o: "rows_of db1 = rows_of db @ [?r]" "file_text w1 (data_path db) = table_text (rows_of db1)" "db_inv db1"
      "db_indexed db1" "res_ok res" "goes_to w w1"
    using r(2) g assms(7,8) by (auto simp: insert_outcome_def)
  have len: "length (rows_of db1) < DB_ROWS_MAX" using o(1) assms(1,3) by (simp add: db_inv_def)
  have rows: "\<forall>r\<in>set (rows_of db1). row_ok r \<and> rec_id r < INT_MAX" using o(1,3) assms(10) by (simp add: db_inv_def)
  obtain w2 db2 where i: "db_init (data_path db) w1 = Some (w2, Inr db2)" "rows_of db2 = rows_of db1" "db_inv db2" "db_indexed db2"
    using db_init_table [OF never_fails_goes_to [OF assms(5) o(6)] assms(9) o(2) rows len] by blast
  moreover have "bptree_search (index db2) = bptree_search (index db1)" "next_id db2 = next_id db1"
    using i(2-4) o(3,4) by (simp_all add: db_indexed_def db_inv_def)
  ultimately show ?thesis using r(1) o(1,5) by auto
qed

lemma db_insert_survives_restart_witness:
  "\<exists>w1 db1 res w2 db2. db_insert_internal False 0 ''Kim'' 30 calm_world (empty_engine ''d.csv'') = Some (w1, db1, res) \<and>
    db_init ''d.csv'' w1 = Some (w2, Inr db2) \<and> rows_of db2 = [\<lparr>rec_id = 1, rec_name = ''Kim'', rec_age = 30\<rparr>]"
proof -
  have new: "new_record False 0 ''Kim'' 30 (empty_engine ''d.csv'') = \<lparr>rec_id = 1, rec_name = ''Kim'', rec_age = 30\<rparr>"
    by (simp add: new_record_def)
  have f: "file_text calm_world ''d.csv'' = table_text []" by (simp add: file_text_def calm_world_def)
  show ?thesis
    using db_insert_survives_restart [OF empty_engine_inv(1) _ _ _ calm_world_never_fails _ empty_engine_inv(2), of "''d.csv''" 0 "''Kim''" 30 False] f
    by (auto simp: DB_ROWS_MAX_def insert_args_def INT_MAX_def insert_refused_def name_is_valid_def empty_engine_inv(3) new)
qed

text \<open>
  Whatever the data file holds and whatever calls fail, an engine that \<open>db_init\<close> returns has
  the invariant: only valid rows, a well-formed index that finds no wrong row, a free lock.
\<close>

theorem db_init_establishes_invariant:
  assumes "db_init path w = Some (w', Inr db)" "length (file_text w path) < DB_ROWS_MAX"
  shows "db_inv db \<and> db_lock db = Unlocked \<and> data_path db = path \<and> db_count db < DB_ROWS_MAX"
  using db_init_inv [OF assms] assms(2) by simp

lemma db_init_establishes_invariant_witness:
  "\<exists>w' db. db_init ''d.csv'' calm_world = Some (w', Inr db) \<and> db_inv db"
proof -
  have f: "file_text calm_world ''d.csv'' = table_text []" by (simp add: file_text_def calm_world_def)
  obtain w' db where r: "db_init ''d.csv'' calm_world = Some (w', Inr db)"
    using db_init_table [OF calm_world_never_fails _ f] by (auto simp: DB_ROWS_MAX_def)
  from db_init_establishes_invariant [OF r] r f show ?thesis by (auto simp: DB_ROWS_MAX_def)
qed

text \<open>
  C17: a data file with the id \<open>INT_MAX\<close>, which \<open>db_insert_with_id\<close> accepts and writes, makes the
  next start undefined: \<open>load_record\<close> computes \<open>INT_MAX + 1\<close> in \<open>int\<close>.
\<close>

theorem db_init_overflows_on_last_id:
  assumes "never_fails w" "length path < DB_PATH_MAX" "row_ok r" "rec_id r = INT_MAX"
    and "file_text w path = table_text (rs @ [r])" "\<forall>q\<in>set rs. row_ok q \<and> rec_id q < INT_MAX" "Suc (length rs) < DB_ROWS_MAX"
  shows "db_init path w = None"
proof -
  obtain w1 where w1: "sys_call w = (True, w1)" "never_fails w1" using never_fails_sys_call [OF assms(1)] by blast
  obtain w2 where w2: "fopen_append path w1 = (True, w2)" "never_fails w2" using never_fails_fopen [OF w1(2)] by blast
  have t2: "file_text w2 path = table_text rs @ record_line r"
    using fopen_append_ok(3) [OF w2(1)] keeps_files_text [OF keeps_files_sys_call [OF w1(1)]] assms(5) by simp
  have "db_load_loop (table_text rs @ record_line r) w2 (empty_engine path) = None"
    by (rule db_load_overflow) (use assms w2(2) empty_engine_inv(1) in simp_all)
  then show ?thesis using db_init_cases [OF assms(2) w1(1) w2(1)] t2 by simp
qed

lemma db_init_overflows_on_last_id_witness:
  "db_init ''d.csv'' (calm_world\<lparr>files := [''d.csv'' \<mapsto> ''2147483647,Kim,30'' @ [CHR 0x0A]]\<rparr>) = None"
proof (rule db_init_overflows_on_last_id [where r = "\<lparr>rec_id = INT_MAX, rec_name = ''Kim'', rec_age = 30\<rparr>" and rs = "[]"])
  show "row_ok \<lparr>rec_id = INT_MAX, rec_name = ''Kim'', rec_age = 30\<rparr>"
    by (simp add: row_ok_def INT_MAX_def name_is_valid_def)
  have "record_line \<lparr>rec_id = INT_MAX, rec_name = ''Kim'', rec_age = 30\<rparr> = ''2147483647,Kim,30'' @ [CHR 0x0A]"
    by (simp add: record_line_def dec_int_def INT_MAX_def dec_digits.simps digit_char_def char_of_def bit_0)
  then show "file_text (calm_world\<lparr>files := [''d.csv'' \<mapsto> ''2147483647,Kim,30'' @ [CHR 0x0A]]\<rparr>) ''d.csv'' =
      table_text ([] @ [\<lparr>rec_id = INT_MAX, rec_name = ''Kim'', rec_age = 30\<rparr>])"
    by (simp add: file_text_def table_text_def)
qed (simp_all add: calm_world_def never_fails_def DB_ROWS_MAX_def)






end
