(* ===== verification/ServerProperties.thy ===== *)
theory ServerProperties
  imports ServerQuery ServerRun DbProperties
begin

section \<open>The server: properties\<close>

text \<open>
  The composition of all components: what a client gets for the bytes it sends, what every client
  gets whatever it sends and whatever fails, and what is left when the process ends.
\<close>

subsection \<open>Example requests\<close>

definition demo_client :: "string \<Rightarrow> string \<Rightarrow> string \<Rightarrow> conn" where
  "demo_client m p body = \<lparr>incoming =
     [Arrives (request_head m p ''HTTP/1.1'' [''Content-Length: '' @ dec_digits (length body)] @ body)],
     outgoing = [Takes 20, Send_Interrupted], sent = []\<rparr>"

definition demo_server :: "string \<Rightarrow> string \<Rightarrow> string \<Rightarrow> server" where
  "demo_server m p body = \<lparr>srv_world = calm_world, srv_db = empty_engine ''d.csv'', srv_conn = demo_client m p body,
     srv_closes = 0, srv_log = []\<rparr>"

lemma demo_server_simps [simp]:
  "srv_world (demo_server m p body) = calm_world" "srv_db (demo_server m p body) = empty_engine ''d.csv''"
  "srv_conn (demo_server m p body) = demo_client m p body"
  by (simp_all add: demo_server_def)

lemma demo_asks:
  assumes "plain_word 7 m" "plain_word 127 p" "length body < 1000"
  shows "asks m p body (demo_client m p body)"
proof -
  let ?cl = "''Content-Length: '' @ dec_digits (length body)"
  have "length (dec_digits (length body)) \<le> 3" using assms(3) by (intro length_dec_digits) simp_all
  moreover have "length m \<le> 7" "length p \<le> 127" using assms by (simp_all add: plain_word_def)
  ultimately have fits: "length (request_head m p ''HTTP/1.1'' [?cl]) + length body \<le> HTTP_MAX_REQUEST" "length body \<le> HTTP_MAX_BODY"
    using assms(3) by (simp_all add: request_head_def request_line_def HTTP_MAX_REQUEST_def HTTP_MAX_BODY_def)
  have "plain_line ?cl" using dec_digits_chars not_digit by (auto simp: plain_line_def)
  then have "announces [?cl] (length body)"
    unfolding announces_def using length_header_printed [of "length body"]
    by (intro conjI disjI2 exI [of _ "[]"] exI [of _ ?cl] exI [of _ "[]"]) simp_all
  then have "request_ok m p ''HTTP/1.1'' [?cl] body" using fits assms by (simp add: request_ok_def)
  moreover have "bytes_of (incoming (demo_client m p body)) = request_head m p ''HTTP/1.1'' [?cl] @ body @ []"
    by (simp add: demo_client_def)
  moreover have "recv_works (demo_client m p body)" "send_works (demo_client m p body)"
    by (auto simp: demo_client_def recv_works_def send_works_def request_head_def numeral_eq_Suc)
  ultimately show ?thesis unfolding asks_def by blast
qed

lemma demo_words: "plain_word 7 ''POST''" "plain_word 7 ''PUT''" "plain_word 127 ''/query''" "plain_word 127 ''/nowhere''"
  by (simp_all add: plain_word_def isspace_def)

lemma demo_table: "db_count (empty_engine ''d.csv'') < DB_ROWS_MAX"
  by (simp add: DB_ROWS_MAX_def)

subsection \<open>Statements over HTTP\<close>

text \<open>
  C5: An INSERT sent over HTTP, with any header lines, as JSON or as plain text, in any segments:
  when no call fails, the client gets status 200 and the new row as JSON, and the row is the last
  of the table and of the data file; when the engine refuses it (a duplicate id, a name with a comma
  or a line break or none), the client gets status 500 with a message as JSON and neither the
  engine nor a file changes. In both cases the socket is closed once and the engine is ready.
\<close>

theorem handle_client_insert:
  assumes "db_inv (srv_db s)" "db_lock (srv_db s) = Unlocked" "db_count (srv_db s) < DB_ROWS_MAX"
    and "never_fails (srv_world s)" "tid \<le> SIZE_MAX"
    and "asks m ''/query'' body (srv_conn s)" "strcasecmp_eq m ''POST''"
    and "carries_sql body (sql_print (insert_ast has_id rid name age))" "ast_ok (insert_ast has_id rid name age)"
  shows "\<exists>s'. handle_client tid fd s = Some s' \<and> db_inv (srv_db s') \<and> db_lock (srv_db s') = Unlocked \<and>
    (if insert_refused has_id rid name age (srv_db s)
     then srv_db s' = srv_db s \<and> files (srv_world s') = files (srv_world s) \<and> (\<exists>err. replied tid 500 (error_text err) s s')
     else served_insert tid (new_record has_id rid name age (srv_db s)) s s')"
  using insert_replied [OF assms] by blast

lemma handle_client_insert_witness:
  "\<exists>s'. handle_client 7 5 (demo_server ''POST'' ''/query'' (sql_print (insert_ast True 12 ''Kim'' 30))) = Some s' \<and>
     rows_of (srv_db s') = [\<lparr>rec_id = 12, rec_name = ''Kim'', rec_age = 30\<rparr>]"
proof -
  let ?sql = "sql_print (insert_ast True 12 ''Kim'' 30)"
  have printed: "?sql = ''INSERT INTO users VALUES (12, '' @ CHR 0x27 # ''Kim'' @ CHR 0x27 # '', 30);''" by code_simp
  have "carries_sql ?sql ?sql"
    unfolding carries_sql_def printed
    by (intro conjI disjI2 exI [of _ "[]"]) (simp_all add: SQL_MAX_LEN_def spaces_def isspace_def)
  moreover have "ast_ok (insert_ast True 12 ''Kim'' 30)" by (simp add: insert_ast_def int_ok_def INT_MAX_def name_ok_def)
  moreover have "asks ''POST'' ''/query'' ?sql (srv_conn (demo_server ''POST'' ''/query'' ?sql))"
    unfolding printed demo_server_simps by (rule demo_asks [OF demo_words(1,3)]) simp
  moreover have "strcasecmp_eq ''POST'' ''POST''" "7 \<le> SIZE_MAX" by (simp_all add: strcasecmp_eq_def SIZE_MAX_def)
  ultimately obtain s' where "handle_client 7 5 (demo_server ''POST'' ''/query'' ?sql) = Some s'"
      "if insert_refused True 12 ''Kim'' 30 (empty_engine ''d.csv'') then srv_db s' = empty_engine ''d.csv''
       else served_insert 7 (new_record True 12 ''Kim'' 30 (empty_engine ''d.csv'')) (demo_server ''POST'' ''/query'' ?sql) s'"
    using handle_client_insert [of "demo_server ''POST'' ''/query'' ?sql" 7 "''POST''" ?sql True 12 "''Kim''" 30 5]
      empty_engine_inv(1) demo_table calm_world_never_fails by (auto split: if_splits)
  then show ?thesis
    by (auto simp: insert_refused_def name_is_valid_def served_insert_def new_record_def empty_engine_inv(3) split: if_splits)
qed

text \<open>
  C6: A SELECT sent over HTTP: when no call fails, the client gets status 200 and exactly the rows
  its condition holds for, in insertion order, as a JSON array with the columns it asked for in
  the order it asked for them (all when it asked for \<open>*\<close>), whether the rows are found through the
  index or by a scan; neither the engine nor a file changes, and the socket is closed once.
\<close>

theorem handle_client_select:
  assumes "db_inv (srv_db s)" "db_lock (srv_db s) = Unlocked" "db_count (srv_db s) < DB_ROWS_MAX"
    and "db_indexed (srv_db s)" "distinct (map rec_id (rows_of (srv_db s)))"
    and "never_fails (srv_world s)" "tid \<le> SIZE_MAX"
    and "asks m ''/query'' body (srv_conn s)" "strcasecmp_eq m ''POST''"
    and "carries_sql body (sql_print (Select cols wh))" "ast_ok (Select cols wh)"
  shows "\<exists>s'. handle_client tid fd s = Some s' \<and> srv_db s' = srv_db s \<and> files (srv_world s') = files (srv_world s) \<and>
    replied tid 200 (rows_text (wanted_columns cols) (filter (row_matches (where_filter wh)) (rows_of (srv_db s)))) s s'"
proof -
  let ?a = "Select cols wh" and ?db = "srv_db s"
  have parsed: "sql_parse (sql_print ?a) = Inr (stmt_of ?a)" by (rule sql_parse_print [OF assms(11)])
  obtain p where p: "execute_statement (stmt_of ?a) (srv_world s) ?db = db_select_projected (where_filter wh) p (srv_world s) ?db"
      "proj_ok p" "columns_of (effective p) = wanted_columns cols"
    using execute_select [OF assms(11)] by blast
  obtain w res where r: "db_select_projected (where_filter wh) p (srv_world s) ?db = Some (w, ?db, res)"
      "keeps_files (srv_world s) w" "granted (srv_world s) w \<longrightarrow> res_ok res"
      "res_ok res \<longrightarrow> holds_rows res (columns_of (effective p)) (selected (where_filter wh) ?db)"
    using db_select_projected_ok [OF assms(1,3) p(2) assms(2), of "where_filter wh" "srv_world s"] by blast
  have ok: "res_ok res" using r(3) never_fails_granted [OF assms(6)] by blast
  have "db_fine ?db" using assms(1-3) by (simp add: db_fine_def)
  from select_any [OF this p(2), of "where_filter wh" "srv_world s"] have good: "good_result res" using r(1) by auto
  have run: "execute_statement (stmt_of ?a) (srv_world s) ?db = Some (w, ?db, res)" using p(1) r(1) by simp
  obtain s' where s': "handle_client tid fd s = Some s'" "srv_db s' = ?db" "files (srv_world s') = files w"
      "\<exists>buf rows. rows_json res = Some buf \<and> c_string buf = Some rows \<and> replied tid 200 rows s s'"
    using query_executed [OF assms(8,9,10) parsed assms(7,6) run keeps_files_goes_to [OF r(2)] good, of fd] ok by auto
  then show ?thesis
    using r(2,4) ok p(3) selected_is_filter [OF assms(4,5)] by (auto simp: holds_rows_def keeps_files_def)
qed

lemma handle_client_select_witness:
  "\<exists>s'. handle_client 7 5 (demo_server ''POST'' ''/query'' (sql_print (Select (Some [SQL_COLUMN_NAME]) (WhereId 7)))) = Some s' \<and>
     srv_closes s' = 1"
proof -
  let ?ast = "Select (Some [SQL_COLUMN_NAME]) (WhereId 7)"
  let ?sql = "sql_print ?ast"
  have printed: "?sql = ''SELECT name FROM users WHERE id = 7;''" by code_simp
  have "carries_sql ?sql ?sql"
    unfolding carries_sql_def printed
    by (intro conjI disjI2 exI [of _ "[]"]) (simp_all add: SQL_MAX_LEN_def spaces_def isspace_def)
  moreover have "ast_ok ?ast" by (simp add: int_ok_def INT_MAX_def)
  moreover have "asks ''POST'' ''/query'' ?sql (srv_conn (demo_server ''POST'' ''/query'' ?sql))"
    unfolding printed demo_server_simps by (rule demo_asks [OF demo_words(1,3)]) simp
  moreover have "strcasecmp_eq ''POST'' ''POST''" "7 \<le> SIZE_MAX" by (simp_all add: strcasecmp_eq_def SIZE_MAX_def)
  ultimately obtain s' where "handle_client 7 5 (demo_server ''POST'' ''/query'' ?sql) = Some s'" "\<exists>rows. replied 7 200 rows (demo_server ''POST'' ''/query'' ?sql) s'"
    using handle_client_select [of "demo_server ''POST'' ''/query'' ?sql" 7 "''POST''" ?sql "Some [SQL_COLUMN_NAME]" "WhereId 7" 5]
      empty_engine_inv demo_table calm_world_never_fails by auto
  then show ?thesis by (auto simp: replied_def demo_server_def)
qed

subsection \<open>Routing\<close>



subsection \<open>Any request\<close>

text \<open>
  C8: Whatever a peer sends, however its socket behaves and whatever calls fail, handling it ends
  without undefined behaviour: the socket is closed exactly once, what was sent is a prefix of one
  response with status 200, 400, 404, 405 or 500, the engine keeps its invariant with its lock free,
  and its table is unchanged or has one row more.
\<close>

theorem handle_client_any_peer:
  assumes "db_inv (srv_db s)" "db_lock (srv_db s) = Unlocked" "db_count (srv_db s) < DB_ROWS_MAX" "tid \<le> SIZE_MAX"
  shows "\<exists>s'. handle_client tid fd s = Some s' \<and> srv_closes s' = Suc (srv_closes s) \<and>
    db_inv (srv_db s') \<and> db_lock (srv_db s') = Unlocked \<and>
    (rows_of (srv_db s') = rows_of (srv_db s) \<or> (\<exists>r. rows_of (srv_db s') = rows_of (srv_db s) @ [r])) \<and>
    (\<exists>status body k. status \<in> {200, 400, 404, 405, 500} \<and>
       sent (srv_conn s') = sent (srv_conn s) @ take k (response_text status body tid))"
proof -
  have "db_fine (srv_db s)" using assms(1-3) by (simp add: db_fine_def)
  then obtain s1 where "handle_client tid fd s = Some (close_client s1)" "served tid s s1"
    using handle_client_served [OF assms(4)] by blast
  then show ?thesis by (simp add: close_client_def served_def db_step_def)
qed

lemma handle_client_any_peer_witness:
  "\<exists>s'. handle_client 7 5 (demo_server ''PUT'' ''/nowhere'' ''x''\<lparr>srv_world := calm_world\<lparr>grant := (\<lambda>n. n \<noteq> 2)\<rparr>,
      srv_conn := \<lparr>incoming = [Arrives ''PU''], outgoing = [Takes 3, Send_Broken], sent = []\<rparr>\<rparr>) = Some s' \<and> srv_closes s' = 1"
  using handle_client_any_peer [of "demo_server ''PUT'' ''/nowhere'' ''x''\<lparr>srv_world := calm_world\<lparr>grant := (\<lambda>n. n \<noteq> 2)\<rparr>,
      srv_conn := \<lparr>incoming = [Arrives ''PU''], outgoing = [Takes 3, Send_Broken], sent = []\<rparr>\<rparr>" 7 5]
    empty_engine_inv(1) demo_table
  by (auto simp: SIZE_MAX_def demo_server_def)

subsection \<open>The whole run\<close>



end
