(* ===== verification/ConcurrencyProperties.thy ===== *)
theory ConcurrencyProperties
  imports ConcurrencyAny ServerTable ServerProperties
begin

section \<open>The server as a whole: properties\<close>

text \<open>
  The strongest statements about the composition of all components: clients handled side by side
  are served as if one after the other, and what a run of the process did is what the next one
  starts from.
\<close>

subsection \<open>An example\<close>

abbreviation demo_insert :: sql_ast where
  "demo_insert \<equiv> InsertId 12 ''Kim'' 30"

lemma demo_insert_text:
  "sql_print demo_insert = ''INSERT INTO users VALUES (12, '' @ CHR 0x27 # ''Kim'' @ CHR 0x27 # '', 30);''"
  by code_simp

lemma demo_asks_insert: "asks_statement demo_insert (demo_client ''POST'' ''/query'' (sql_print demo_insert))"
proof -
  have "carries_sql (sql_print demo_insert) (sql_print demo_insert)"
    unfolding carries_sql_def demo_insert_text
    by (intro conjI disjI2 exI [of _ "[]"]) (simp_all add: SQL_MAX_LEN_def spaces_def isspace_def)
  moreover have "asks ''POST'' ''/query'' (sql_print demo_insert) (demo_client ''POST'' ''/query'' (sql_print demo_insert))"
    unfolding demo_insert_text by (rule demo_asks [OF demo_words(1,3)]) simp
  moreover have "ast_ok demo_insert" "strcasecmp_eq ''POST'' ''POST''"
    by (simp_all add: int_ok_def INT_MAX_def name_ok_def strcasecmp_eq_def)
  ultimately show ?thesis unfolding asks_statement_def by blast
qed

lemma demo_sent: "sent (demo_client m p body) = []"
  by (simp add: demo_client_def)


subsection \<open>All clients\<close>



subsection \<open>All clients, all failures\<close>



subsection \<open>A whole run and the next one\<close>

text \<open>
  C3: What the clients were told is what the next run knows: from a data file that holds a table, a
  run of \<open>main\<close> in which no call fails answers the accepted clients as the table does, in the
  order of the jobs, and ends with exit status 0 and with the table after all statements in the
  file; \<open>db_init\<close> of the next run then succeeds with exactly this table, its index complete.
  (Rows with the id \<open>INT_MAX\<close> are excluded: a file that has one makes the start undefined.)
\<close>

theorem server_run_survives_restart:
  assumes "never_fails w" "length (cfg_data_path (main_config argv)) < DB_PATH_MAX"
    and "file_text w (cfg_data_path (main_config argv)) = table_text rs0"
    and "\<forall>r\<in>set rs0. row_ok r \<and> rec_id r < INT_MAX" "length rs0 + length asts < DB_ROWS_MAX"
    and "accept_loop evs (install_signal_handlers signals_at_start) = Some (queued, closed, True)"
    and "list_all2 (\<lambda>(tid, fd, c) a. asks_statement a c \<and> sent c = [] \<and> tid \<le> SIZE_MAX) (schedule queued) asts"
    and "\<forall>r\<in>set (snd (table_run asts rs0)). rec_id r < INT_MAX"
  shows "\<exists>e w' w'' db. server_run (main_config argv) evs schedule w = Some (Some (e, w')) \<and> exit_status e = 0 \<and>
    list_all2 (\<lambda>(tid, fd, c) (reply, fd', closes, out). fd' = fd \<and> closes = 1 \<and> reply_text tid reply out)
      (schedule queued) (zip (fst (table_run asts rs0)) (run_served e)) \<and>
    file_text w' (cfg_data_path (main_config argv)) = table_text (snd (table_run asts rs0)) \<and>
    db_init (cfg_data_path (main_config argv)) w' = Some (w'', Inr db) \<and>
    engine_holds (cfg_data_path (main_config argv)) (snd (table_run asts rs0)) w'' db"
proof -
  let ?path = "cfg_data_path (main_config argv)" and ?rs = "snd (table_run asts rs0)"
  have threads: "0 < cfg_thread_count (main_config argv)" using main_config_range by blast
  then obtain e w' db where r: "server_run (main_config argv) evs schedule w = Some (Some (e, w'))" "exit_status e = 0"
      "never_fails w'" "engine_holds ?path ?rs w' db"
      "list_all2 (\<lambda>(tid, fd, c) (reply, fd', closes, out). fd' = fd \<and> closes = 1 \<and> reply_text tid reply out)
        (schedule queued) (zip (fst (table_run asts rs0)) (run_served e))"
    using server_run_follows_table [where schedule = schedule and queued = queued, OF assms(1-5) threads assms(6,7)] by blast
  have disk: "file_text w' ?path = table_text ?rs" using r(4) by (simp add: engine_holds_def)
  have "\<forall>r\<in>set ?rs. row_ok r \<and> rec_id r < INT_MAX" using engine_holds_rows [OF r(4)] assms(8) by blast
  moreover have "length ?rs < DB_ROWS_MAX" using table_run_length [of asts rs0] assms(5) by linarith
  ultimately obtain w'' db' where "db_init ?path w' = Some (w'', Inr db')" "engine_holds ?path ?rs w'' db'"
    using db_init_holds [OF r(3) assms(2) disk] by blast
  then show ?thesis using r(1,2,5) disk by blast
qed

lemma server_run_survives_restart_witness:
  "\<exists>e w' w'' db. server_run (main_config [''server'', ''8080'', ''2'', ''d.csv''])
      [([], Accepted 5 (demo_client ''POST'' ''/query'' (sql_print demo_insert)) True, [SIGPIPE]), ([SIGINT], Accept_Interrupted, [])]
      (map (\<lambda>q. (7, q))) calm_world = Some (Some (e, w')) \<and>
    db_init ''d.csv'' w' = Some (w'', Inr db) \<and> rows_of db = [\<lparr>rec_id = 12, rec_name = ''Kim'', rec_age = 30\<rparr>]"
proof -
  let ?argv = "[''server'', ''8080'', ''2'', ''d.csv'']" and ?c = "demo_client ''POST'' ''/query'' (sql_print demo_insert)"
  let ?evs = "[([], Accepted 5 ?c True, [SIGPIPE]), ([SIGINT], Accept_Interrupted, [])]"
  have path: "cfg_data_path (main_config ?argv) = ''d.csv''" by (simp add: main_config_def Let_def)
  have f: "file_text calm_world ''d.csv'' = table_text []" by (simp add: file_text_def calm_world_def)
  have acc: "accept_loop ?evs (install_signal_handlers signals_at_start) = Some ([(5, ?c)], [], True)"
    by (simp add: install_signal_handlers_def signals_at_start_def deliver_def handle_signal_def)
  have jobs: "list_all2 (\<lambda>(tid, fd, c) a. asks_statement a c \<and> sent c = [] \<and> tid \<le> SIZE_MAX)
      (map (\<lambda>q. (7, q)) [(5 :: int, ?c)]) [demo_insert]"
    using demo_asks_insert by (simp add: demo_sent SIZE_MAX_def)
  have run: "snd (table_run [demo_insert] []) = [\<lparr>rec_id = 12, rec_name = ''Kim'', rec_age = 30\<rparr>]"
    by (simp add: table_insert_def name_is_valid_def)
  have "\<forall>r\<in>set (snd (table_run [demo_insert] [])). rec_id r < INT_MAX" unfolding run by (simp add: INT_MAX_def)
  from server_run_survives_restart [where schedule = "map (\<lambda>q. (7, q))" and queued = "[(5, ?c)]" and argv = ?argv,
      OF calm_world_never_fails _ _ _ _ acc jobs this, unfolded path, OF _ f]
  show ?thesis unfolding run by (fastforce simp: DB_ROWS_MAX_def engine_holds_def)
qed

subsection \<open>One client\<close>


end
