(* ===== verification/PoolProgress.thy ===== *)
theory PoolProgress
  imports PoolCorrect
begin

section \<open>Progress and shutdown of the thread pool\<close>

text \<open>
  From every state with something to do, a thread can take a step (no deadlock, no lost wake-up);
  once the main thread is in \<open>thread_pool_shutdown\<close>, \<open>shutdown_work\<close> bounds the steps that
  remain.
\<close>

subsection \<open>A thread can always go on\<close>

lemma check_can_step:
  assumes inv: "pool_inv s" and pc: "wpc s i = W_Check"
  shows "\<exists>s'. worker_step i s s' \<and> (mpc s = M_Idle \<longrightarrow> mpc s' = M_Idle)"
proof -
  have live: "mpc s \<noteq> M_Finished" using worker_alive(1) [OF inv, of i] pc by simp
  show ?thesis
  proof (cases "pool_count (pool s) = 0")
    case True
    show ?thesis
    proof (cases "stopping (pool s)")
      case stop: True
      show ?thesis by (rule exI, rule conjI, rule w_exit [OF pc stop True]) simp
    next
      case False
      show ?thesis by (rule exI, rule conjI, rule w_wait [OF pc False True]) simp
    qed
  next
    case False
    then have "ring_ok (pool s)" "pool_contents (pool s) \<noteq> []" using live_pool [OF inv live] by auto
    from pq.get_some [OF this] obtain fd p where take: "pool_take (pool s) = Some (fd, p)" by blast
    show ?thesis by (rule exI, rule conjI, rule w_take [OF pc False take]) (simp add: wake_main_def)
  qed
qed

lemma submit_can_step:
  assumes inv: "pool_inv s" and pc: "mpc s = M_Check fd"
  shows "\<exists>s'. main_step s s'"
proof -
  have live: "mpc s \<noteq> M_Finished" using pc by simp
  have run: "\<not> stopping (pool s)" using live_pool [OF inv live] pc by simp
  show ?thesis
  proof (cases "pool_count (pool s) = pool_capacity (pool s)")
    case True
    show ?thesis by (rule exI, rule m_wait [OF pc run True])
  next
    case False
    then have "ring_ok (pool s)" "length (pool_contents (pool s)) < pool_capacity (pool s)"
      using live_pool [OF inv live] by (auto simp: ring_ok_def)
    from pq.put_law [OF this, of fd] obtain p where put: "pool_put fd (pool s) = Some p" by blast
    show ?thesis
    proof (cases "\<exists>j. wpc s j = W_Wait")
      case True
      then obtain j where "wpc s j = W_Wait" ..
      from m_put_wake [OF pc run False put this] show ?thesis ..
    next
      case no: False
      then have "\<forall>j. wpc s j \<noteq> W_Wait" by blast
      from m_put_none [OF pc run False put this] show ?thesis ..
    qed
  qed
qed

lemma quiet_main_can_step:
  assumes inv: "pool_inv s" and free: "mutex s = None" and quiet: "\<And>i. wpc s i \<in> {W_Unborn, W_Wait, W_Done}"
    and m: "mpc s \<noteq> M_Idle" "mpc s \<noteq> M_Finished"
  shows "\<exists>s'. main_step s s'"
proof -
  have sp: "spawned s \<le> requested s" "\<And>i. wpc s i = W_Unborn \<longleftrightarrow> spawned s \<le> i"
    using pool_invD(3) [OF inv] unfolding spawn_inv_def by blast+
  have slots: "thread_slot (pool s) k" if "k < requested s" for k
    using pool_invD(1) [OF inv] m(2) that by (auto simp: memory_inv_def thread_slot_def)
  have tc: "thread_count (pool s) = spawned s" and cap: "0 < pool_capacity (pool s)"
    using pool_invD(1) [OF inv] m(2) by (auto simp: memory_inv_def ring_ok_def)
  have none: "\<not> in_section (mpc s)" using pool_invD(2) [OF inv] free by (simp add: lock_inv_def)
  have "\<not> will_check (wpc s i)" for i using quiet [of i] by (auto simp: will_check_def)
  then have empty: "pool_contents (pool s) = []" using pool_invD(5) [OF inv] by (auto simp: wake_inv_def)
  show ?thesis
  proof (cases "mpc s")
    case (M_Create k)
    show ?thesis
    proof (cases "k < requested s")
      case True
      from m_create [OF M_Create True slots [OF True]] show ?thesis ..
    next
      case False
      from m_created [OF M_Create False] show ?thesis ..
    qed
  next
    case (M_Lock fd)
    then have "mpc s \<in> {M_Lock fd, M_Relock fd}" by simp
    from m_lock [OF this free] show ?thesis ..
  next
    case (M_Relock fd)
    then have "mpc s \<in> {M_Lock fd, M_Relock fd}" by simp
    from m_lock [OF this free] show ?thesis ..
  next
    case (M_Wait fd)
    then have "length (pool_contents (pool s)) = pool_capacity (pool s)"
      using pool_invD(5) [OF inv] by (simp add: wake_inv_def)
    with empty cap show ?thesis by simp
  next
    case M_Down_Lock
    from m_down_lock [OF M_Down_Lock free] show ?thesis ..
  next
    case (M_Join k)
    show ?thesis
    proof (cases "k < thread_count (pool s)")
      case True
      have "wpc s k \<noteq> W_Wait" using pool_invD(4) [OF inv] M_Join by (simp add: join_inv_def)
      moreover have "wpc s k \<noteq> W_Unborn" using True tc sp(2) [of k] by simp
      ultimately have "wpc s k = W_Done" using quiet [of k] by simp
      moreover have "thread_slot (pool s) k" using True tc sp(1) by (intro slots) simp
      ultimately have "\<exists>s'. main_step s s'" using m_join [OF M_Join True] by blast
      then show ?thesis .
    next
      case False
      from m_free [OF M_Join False] show ?thesis ..
    qed
  qed (use m none in simp_all)
qed

lemma in_progress_handle: "in_progress s \<noteq> {#} \<Longrightarrow> \<exists>i fd. wpc s i = W_Handle fd"
proof (rule ccontr)
  assume "in_progress s \<noteq> {#}" and "\<nexists>i fd. wpc s i = W_Handle fd"
  then have "in_hand (wpc s i) = {#}" for i by (cases "wpc s i") auto
  with \<open>in_progress s \<noteq> {#}\<close> show False by (simp add: in_progress_def)
qed

lemma pool_can_step:
  assumes inv: "pool_inv s" and live: "mpc s \<noteq> M_Finished"
    and work: "mpc s \<noteq> M_Idle \<or> pool_contents (pool s) \<noteq> [] \<or> in_progress s \<noteq> {#}"
  shows "\<exists>s'. program_step s s' \<and> (mpc s = M_Idle \<longrightarrow> mpc s' = M_Idle)"
proof (cases "\<exists>i. wpc s i = W_Check")
  case True
  then obtain i where "wpc s i = W_Check" ..
  from check_can_step [OF inv this] show ?thesis by (auto simp: program_step_def)
next
  case nochk: False
  show ?thesis
  proof (cases "\<exists>i fd. wpc s i = W_Handle fd")
    case True
    then obtain i fd where "wpc s i = W_Handle fd" by blast
    from w_handled [OF this] show ?thesis by (fastforce simp: program_step_def)
  next
    case nohand: False
    show ?thesis
    proof (cases "in_section (mpc s)")
      case True
      then have "\<exists>s'. main_step s s'"
        using submit_can_step [OF inv] m_down [of s] by (cases "mpc s"; simp; blast)
      with True show ?thesis by (auto simp: program_step_def)
    next
      case False
      then have free: "mutex s = None"
        using pool_invD(2) [OF inv] nochk unfolding lock_inv_def by (cases "mutex s"; metis thread.exhaust)
      show ?thesis
      proof (cases "\<exists>i. wpc s i \<in> {W_Lock, W_Relock}")
        case True
        then obtain i where "wpc s i \<in> {W_Lock, W_Relock}" ..
        from w_lock [OF this free] show ?thesis by (fastforce simp: program_step_def)
      next
        case False
        have quiet: "wpc s i \<in> {W_Unborn, W_Wait, W_Done}" for i
          using False nochk nohand by (cases "wpc s i") auto
        have "\<not> will_check (wpc s i)" for i using quiet [of i] by (auto simp: will_check_def)
        then have "pool_contents (pool s) = []" using pool_invD(5) [OF inv] by (auto simp: wake_inv_def)
        moreover have "in_progress s = {#}" using in_progress_handle nohand by blast
        ultimately have "mpc s \<noteq> M_Idle" using work by blast
        with quiet_main_can_step [OF inv free quiet this live] show ?thesis by (auto simp: program_step_def)
      qed
    qed
  qed
qed

subsection \<open>Shutdown ends\<close>

fun shutting :: "main_pc \<Rightarrow> bool" where
  "shutting M_Down_Lock = True"
| "shutting M_Down = True"
| "shutting (M_Join k) = True"
| "shutting M_Finished = True"
| "shutting _ = False"

fun worker_weight :: "worker_pc \<Rightarrow> nat" where
  "worker_weight W_Lock = 2"
| "worker_weight W_Relock = 2"
| "worker_weight W_Check = 1"
| "worker_weight (W_Handle fd) = 3"
| "worker_weight _ = 0"

fun main_weight :: "nat \<Rightarrow> main_pc \<Rightarrow> nat" where
  "main_weight n M_Down_Lock = 3 * n + 3"
| "main_weight n M_Down = 3 * n + 2"
| "main_weight n (M_Join k) = n - k + 1"
| "main_weight n _ = 0"

text \<open>
  Every accepted socket costs three steps more (take, handle, lock again), every worker at most
  the steps to its exit, the main thread one step per thread it joins.
\<close>

definition shutdown_work :: "pool_sys \<Rightarrow> nat" where
  "shutdown_work s = 3 * pool_count (pool s) + (\<Sum>i<spawned s. worker_weight (wpc s i)) +
     main_weight (spawned s) (mpc s)"

lemma weight_move:
  assumes "i < spawned s"
  shows "(\<Sum>j<spawned s. worker_weight (((wpc s)(i := pc)) j)) + worker_weight (wpc s i) =
    (\<Sum>j<spawned s. worker_weight (wpc s j)) + worker_weight pc"
  using sum_move [OF assms, of worker_weight "wpc s" pc] .

lemma worker_step_work:
  assumes inv: "pool_inv s" and step: "worker_step i s s'" and sh: "shutting (mpc s)"
  shows "shutdown_work s' < shutdown_work s" "shutting (mpc s')"
proof -
  note live = worker_step_alive(1) [OF inv step] and sp = worker_step_alive(2) [OF inv step]
  have wm: "wake_main (mpc s) = mpc s" using sh by (cases "mpc s") (simp_all add: wake_main_def)
  note mv = weight_move [OF sp]
  from step have "shutdown_work s' < shutdown_work s \<and> mpc s' = mpc s"
  proof cases
    case w_lock
    have "worker_weight (wpc s i) = 2" using w_lock(2) by auto
    with mv [of W_Check] show ?thesis by (simp add: shutdown_work_def w_lock(1) del: fun_upd_apply)
  next
    case w_wait
    show ?thesis using mv [of W_Wait] w_wait(2) by (simp add: shutdown_work_def w_wait(1) del: fun_upd_apply)
  next
    case w_exit
    show ?thesis using mv [of W_Done] w_exit(2) by (simp add: shutdown_work_def w_exit(1) del: fun_upd_apply)
  next
    case (w_take fd p)
    note take = pool_take_inv [OF inv live w_take(3,4)]
    have "pool_count (pool s) = Suc (pool_count p)"
      using live_pool [OF inv live] take(1,2) length_pool_contents [OF take(1)] by simp
    then show ?thesis using mv [of "W_Handle fd"] w_take(2)
      by (simp add: shutdown_work_def w_take(1) wm del: fun_upd_apply)
  next
    case (w_handled fd)
    show ?thesis using mv [of W_Lock] w_handled(2) by (simp add: shutdown_work_def w_handled(1) del: fun_upd_apply)
  qed
  then show "shutdown_work s' < shutdown_work s" "shutting (mpc s')" using sh by simp_all
qed

lemma main_step_work:
  assumes inv: "pool_inv s" and step: "main_step s s'" and sh: "shutting (mpc s)"
  shows "shutdown_work s' < shutdown_work s" "shutting (mpc s')"
proof -
  have tc: "thread_count (pool s) = spawned s"
    using pool_invD(1) [OF inv] main_step_alive [OF step] by (auto simp: memory_inv_def)
  from step sh have "shutdown_work s' < shutdown_work s \<and> shutting (mpc s')"
  proof cases
    case m_down
    have "worker_weight (wake_all (wpc s) i) \<le> worker_weight (wpc s i) + 2" for i
      by (simp add: wake_all_def)
    then have "(\<Sum>i<spawned s. worker_weight (wake_all (wpc s) i)) \<le> (\<Sum>i<spawned s. worker_weight (wpc s i) + 2)"
      by (intro sum_mono) auto
    also have "\<dots> = (\<Sum>i<spawned s. worker_weight (wpc s i)) + 2 * spawned s"
      by (simp only: sum.distrib) simp
    finally show ?thesis using m_down(2) by (simp add: shutdown_work_def m_down(1))
  next
    case (m_join k)
    then show ?thesis using tc by (simp add: shutdown_work_def)
  next
    case (m_free k)
    then show ?thesis by (simp add: shutdown_work_def zero_pool_def)
  next
    case m_down_lock
    then show ?thesis by (simp add: shutdown_work_def)
  next
    case (m_lock fd)
    then show ?thesis using sh by auto
  qed (use sh in simp_all)
  then show "shutdown_work s' < shutdown_work s" "shutting (mpc s')" by simp_all
qed

lemma program_step_work:
  "pool_inv s \<Longrightarrow> program_step s s' \<Longrightarrow> shutting (mpc s) \<Longrightarrow>
   shutdown_work s' < shutdown_work s \<and> shutting (mpc s')"
  using worker_step_work main_step_work by (auto simp: program_step_def)

lemma shutdown_run:
  "(program_step ^^ m) s s' \<Longrightarrow> pool_inv s \<Longrightarrow> shutting (mpc s) \<Longrightarrow>
   m + shutdown_work s' \<le> shutdown_work s \<and> pool_inv s' \<and> shutting (mpc s')"
proof (induction m arbitrary: s')
  case 0
  then show ?case by simp
next
  case (Suc m)
  from Suc.prems(1) obtain t where t: "(program_step ^^ m) s t" "program_step t s'" by auto
  from Suc.IH [OF t(1) Suc.prems(2,3)] have ih: "m + shutdown_work t \<le> shutdown_work s" "pool_inv t" "shutting (mpc t)"
    by auto
  from program_step_work [OF ih(2) t(2) ih(3)] program_step_inv [OF ih(2) t(2)] ih(1) show ?case by auto
qed

lemma finished_handled:
  assumes inv: "pool_inv s" and fin: "mpc s = M_Finished"
  shows "mset (handled s) = mset (accepted s)" "taken s = accepted s"
proof -
  have "wpc s i = W_Done" if "i < spawned s" for i
    using pool_invD(4) [OF inv] fin that by (simp add: join_inv_def)
  then have "in_progress s = {#}" by (simp add: in_progress_def)
  moreover have "pool s = zero_pool" using pool_invD(1) [OF inv] fin by (auto simp: memory_inv_def)
  ultimately show "mset (handled s) = mset (accepted s)" "taken s = accepted s"
    using pool_invD(6) [OF inv] by (simp_all add: socket_inv_def)
qed

lemma stuck_finished:
  assumes inv: "pool_inv s" and sh: "shutting (mpc s)" and stuck: "\<nexists>s'. program_step s s'"
  shows "mpc s = M_Finished"
proof (rule ccontr)
  assume "mpc s \<noteq> M_Finished"
  moreover have "mpc s \<noteq> M_Idle" using sh by auto
  ultimately show False using pool_can_step [OF inv] stuck by blast
qed

subsection \<open>The capacity is fixed until the pool is released\<close>

lemma pool_step_capacity:
  assumes "pool_step s s'" "mpc s' \<noteq> M_Finished"
  shows "mpc s \<noteq> M_Finished \<and> pool_capacity (pool s') = pool_capacity (pool s)"
proof -
  have put: "pool_put x p = Some p' \<Longrightarrow> pool_capacity p' = pool_capacity p" for x p p'
    by (auto simp: pool_put_def split: option.splits)
  have take: "pool_take p = Some (x, p') \<Longrightarrow> pool_capacity p' = pool_capacity p" for x p p'
    by (auto simp: pool_take_def split: option.splits)
  have "mpc s' \<noteq> M_Finished \<longrightarrow> pool_capacity (pool s') = pool_capacity (pool s)" if "main_step s s'"
    using that by cases (simp_all add: put)
  moreover have "pool_capacity (pool s') = pool_capacity (pool s) \<and> (mpc s = M_Finished \<longrightarrow> mpc s' = M_Finished)"
    if "worker_step i s s'" for i
    using that by cases (auto dest: take)
  ultimately have prog: "mpc s \<noteq> M_Finished \<and> pool_capacity (pool s') = pool_capacity (pool s)" if "program_step s s'"
    using that assms(2) main_step_alive [of s s'] by (auto simp: program_step_def)
  from assms(1) show ?thesis by cases (use prog assms(2) in auto)
qed

lemma reachable_capacity:
  "reachable s0 s \<Longrightarrow> pool_inv s0 \<Longrightarrow> mpc s \<noteq> M_Finished \<Longrightarrow> pool_capacity (pool s) = pool_capacity (pool s0)"
  by (induction rule: reachable.induct) (auto dest: pool_step_capacity)

end
