(* ===== verification/PoolProperties.thy ===== *)
theory PoolProperties
  imports PoolProgress
begin

section \<open>Properties of the thread pool\<close>

text \<open>
  The properties of \<open>src/src/thread_pool.c\<close>; each is a few steps over \<open>pool_inv\<close> (PoolCorrect),
  progress and the shutdown bound (PoolProgress) and the queue facts \<open>pq\<close> (PoolQueue). The sizes
  are below \<open>2 ^ 60\<close>, so that the products given to \<open>malloc\<close> do not wrap; the server uses a
  capacity of 128 and at most 65535 threads.
\<close>

text \<open>A small pool for the witnesses: two threads, three slots.\<close>

definition calm :: os where
  "calm = \<lparr>calls = 0, grant = (\<lambda>_. True)\<rparr>"

definition small_pool :: ThreadPool where
  "small_pool = zero_pool\<lparr>fds := Some (fresh_block 3), threads := Some 2, pool_capacity := 3\<rparr>"

lemma small_pool_prepared:
  "thread_pool_prepare 2 3 calm = ([Fds, Threads, Mutex, NotEmpty, NotFull], [], Some small_pool, calm\<lparr>calls := 5\<rparr>)"
  by (simp add: thread_pool_prepare_def calm_def sys_call_def small_pool_def size_mul_def SIZE_MAX_def)

text \<open>The states of a run that creates both threads, submits 7 and starts the shutdown.\<close>

definition demo_wpc :: "nat \<Rightarrow> worker_pc" where
  "demo_wpc = (\<lambda>_. W_Unborn)(0 := W_Lock, 1 := W_Lock)"

definition demo_idle :: pool_sys where
  "demo_idle = \<lparr>pool = small_pool\<lparr>thread_count := 2\<rparr>, mutex = None, wpc = demo_wpc, mpc = M_Idle,
     requested = 2, spawned = 2, accepted = [], taken = [], handled = []\<rparr>"

lemma reachable_main: "reachable s0 s \<Longrightarrow> main_step s s' \<Longrightarrow> reachable s0 s'"
  by (rule reachable.step) (auto intro: pool_step.program simp: program_step_def)

lemma demo_idle_reachable: "reachable (pool_start 2 small_pool) demo_idle"
proof -
  let ?s0 = "pool_start 2 small_pool"
  let ?s1 = "?s0\<lparr>wpc := (wpc ?s0)(0 := W_Lock), mpc := M_Create 1, spawned := 1,
      pool := (pool ?s0)\<lparr>thread_count := 1\<rparr>\<rparr>"
  let ?s2 = "?s1\<lparr>wpc := (wpc ?s1)(1 := W_Lock), mpc := M_Create 2, spawned := 2,
      pool := (pool ?s1)\<lparr>thread_count := 2\<rparr>\<rparr>"
  have s1: "main_step ?s0 ?s1"
    using m_create [of ?s0 0] by (simp add: pool_start_def thread_slot_def small_pool_def zero_pool_def)
  have s2: "main_step ?s1 ?s2"
    using m_create [of ?s1 1] by (simp add: pool_start_def thread_slot_def small_pool_def zero_pool_def numeral_2_eq_2)
  have s3: "main_step ?s2 (?s2\<lparr>mpc := M_Idle\<rparr>)"
    using m_created [of ?s2 2] by (simp add: pool_start_def)
  have "?s2\<lparr>mpc := M_Idle\<rparr> = demo_idle"
    by (simp add: demo_idle_def pool_start_def demo_wpc_def)
  with reachable_main [OF reachable_main [OF reachable_main [OF reachable.start s1] s2] s3] show ?thesis by simp
qed

lemma demo_idle_steps:
  "main_step demo_idle (demo_idle\<lparr>mpc := M_Lock 7\<rparr>)" "main_step demo_idle (demo_idle\<lparr>mpc := M_Down_Lock\<rparr>)"
  using m_submit [of demo_idle 7] m_shutdown [of demo_idle]
  by (simp_all add: demo_idle_def nothing_to_shut_def small_pool_def)

text \<open>The socket 7 is in the queue and worker 0 has the mutex.\<close>

definition demo_busy :: pool_sys where
  "demo_busy = \<lparr>pool = small_pool\<lparr>thread_count := 2, fds := Some [Some 7, None, None], tail := 1, pool_count := 1\<rparr>,
     mutex = Some (Worker 0), wpc = demo_wpc(0 := W_Check), mpc = M_Idle,
     requested = 2, spawned = 2, accepted = [7], taken = [], handled = []\<rparr>"

lemma demo_busy_reachable: "reachable (pool_start 2 small_pool) demo_busy"
proof -
  let ?s1 = "demo_idle\<lparr>mpc := M_Lock 7\<rparr>"
  let ?s2 = "?s1\<lparr>mutex := Some Main, mpc := M_Check 7\<rparr>"
  let ?p = "(pool demo_idle)\<lparr>fds := Some [Some 7, None, None], tail := 1, pool_count := 1\<rparr>"
  let ?s3 = "?s2\<lparr>pool := ?p, mutex := None, mpc := M_Idle, accepted := accepted ?s2 @ [7]\<rparr>"
  have "size_add 0 1 = 1" by (rule trans [OF size_add_exact]) (simp_all add: SIZE_MAX_def)
  moreover have "fresh_block 3 = [None :: int option, None, None]" by (simp add: fresh_block_def numeral_3_eq_3)
  ultimately have put: "pool_put 7 (pool ?s2) = Some ?p"
    by (simp add: pool_put_def demo_idle_def small_pool_def zero_pool_def write_at_def)
  have s2: "main_step ?s1 ?s2"
    using m_lock [of ?s1 7] by (simp add: demo_idle_def)
  have s3: "main_step ?s2 ?s3"
    using m_put_none [of ?s2 7 ?p] put by (simp add: demo_idle_def small_pool_def zero_pool_def demo_wpc_def)
  have s4: "pool_step ?s3 (?s3\<lparr>mutex := Some (Worker 0), wpc := (wpc ?s3)(0 := W_Check)\<rparr>)"
  proof (rule pool_step.program)
    have "worker_step 0 ?s3 (?s3\<lparr>mutex := Some (Worker 0), wpc := (wpc ?s3)(0 := W_Check)\<rparr>)"
      by (rule w_lock) (simp_all add: demo_idle_def demo_wpc_def)
    then show "program_step ?s3 (?s3\<lparr>mutex := Some (Worker 0), wpc := (wpc ?s3)(0 := W_Check)\<rparr>)"
      unfolding program_step_def by blast
  qed
  have "?s3\<lparr>mutex := Some (Worker 0), wpc := (wpc ?s3)(0 := W_Check)\<rparr> = demo_busy"
    by (simp add: demo_idle_def demo_busy_def)
  with reachable.step [OF reachable_main [OF reachable_main [OF reachable_main
      [OF demo_idle_reachable demo_idle_steps(1)] s2] s3] s4]
  show ?thesis by simp
qed

text \<open>No thread could be created, and the main thread shuts the pool down again.\<close>

definition demo_failed :: pool_sys where
  "demo_failed = (pool_start 2 small_pool)\<lparr>mpc := M_Down_Lock\<rparr>"

definition demo_finished :: pool_sys where
  "demo_finished = demo_failed\<lparr>pool := zero_pool, mpc := M_Finished\<rparr>"

lemma demo_failed_reachable: "reachable (pool_start 2 small_pool) demo_failed"
proof -
  have "main_step (pool_start 2 small_pool) demo_failed"
    using m_create_failed [of "pool_start 2 small_pool" 0]
    by (simp add: pool_start_def demo_failed_def thread_slot_def small_pool_def)
  from reachable_main [OF reachable.start this] show ?thesis .
qed

lemma demo_failed_run: "(program_step ^^ 3) demo_failed demo_finished"
proof -
  let ?s1 = "demo_failed\<lparr>mutex := Some Main, mpc := M_Down\<rparr>"
  let ?s2 = "?s1\<lparr>pool := (pool ?s1)\<lparr>stopping := True\<rparr>, mutex := None, wpc := wake_all (wpc ?s1), mpc := M_Join 0\<rparr>"
  have "program_step demo_failed ?s1"
    using m_down_lock [of demo_failed] by (simp add: program_step_def demo_failed_def pool_start_def)
  moreover have "program_step ?s1 ?s2"
    using m_down [of ?s1] by (simp add: program_step_def)
  moreover have "program_step ?s2 (?s2\<lparr>pool := zero_pool, mpc := M_Finished\<rparr>)"
    using m_free [of ?s2 0] by (simp add: program_step_def demo_failed_def pool_start_def small_pool_def zero_pool_def)
  moreover have "?s2\<lparr>pool := zero_pool, mpc := M_Finished\<rparr> = demo_finished"
    by (simp add: demo_finished_def demo_failed_def pool_start_def wake_all_def)
  ultimately show ?thesis by (auto simp: numeral_3_eq_3 relcompp_apply)
qed

lemma demo_finished_stuck: "\<nexists>s. program_step demo_finished s"
proof -
  have "\<not> main_step demo_finished s" for s
    using main_step_alive [of demo_finished s] by (auto simp: demo_finished_def)
  moreover have "\<not> worker_step i demo_finished s" for i s
    by (auto simp: demo_finished_def demo_failed_def pool_start_def elim: worker_stepE)
  ultimately show ?thesis by (simp add: program_step_def)
qed

subsection \<open>Initialisation\<close>

text \<open>
  Initialisation is all or nothing. Whatever calls fail, if \<open>thread_pool_init\<close> fails before it
  creates threads, it has released exactly the blocks and synchronisation objects it had acquired,
  each once; if it does not fail, nothing is released, all five are held, and they are exactly what
  \<open>thread_pool_shutdown\<close> releases. It fails only for a zero argument or a failed call.
\<close>

theorem thread_pool_prepare_all_or_nothing:
  "case thread_pool_prepare n cap os of (acquired, released, result, os') \<Rightarrow>
     distinct acquired \<and> distinct released \<and> runs_to os os' \<and>
     (result = None \<longrightarrow> mset released = mset acquired \<and> (n = 0 \<or> cap = 0 \<or> \<not> granted os os')) \<and>
     (result \<noteq> None \<longrightarrow> released = [] \<and> mset acquired = mset shutdown_releases \<and> granted os os')"
proof -
  have same: "os\<lparr>calls := calls os\<rparr> = os" by simp
  have "granted os (os\<lparr>calls := Suc m\<rparr>) \<longleftrightarrow> granted os (os\<lparr>calls := m\<rparr>) \<and> grant os m" if "calls os \<le> m" for m
    using that by (auto simp: granted_def less_Suc_eq)
  moreover have "granted os os" by (auto simp: granted_def)
  ultimately show ?thesis
    by (simp add: thread_pool_prepare_def sys_call_def Let_def shutdown_releases_def prepare_fail_def runs_to_def)
qed

lemma thread_pool_prepare_all_or_nothing_witness:
  "case thread_pool_prepare 2 3 (calm\<lparr>grant := (\<lambda>i. i \<noteq> 3)\<rparr>) of (acquired, released, result, os') \<Rightarrow>
     result = None \<and> acquired = [Fds, Threads, Mutex] \<and> mset released = mset acquired"
proof -
  let ?os = "calm\<lparr>grant := (\<lambda>i. i \<noteq> 3)\<rparr>"
  have run: "thread_pool_prepare 2 3 ?os = ([Fds, Threads, Mutex], [Mutex, Fds, Threads], None, ?os\<lparr>calls := 4\<rparr>)"
    by (simp add: thread_pool_prepare_def prepare_fail_def calm_def sys_call_def Let_def)
  from thread_pool_prepare_all_or_nothing [where n = 2 and cap = 3 and os = ?os] show ?thesis unfolding run by simp
qed

subsection \<open>The queue\<close>

text \<open>
  C19: The ring buffer of a fresh pool is a first-in first-out queue of the configured capacity:
  every sequence of submissions and takes that respects the bounds (a submission only when fewer
  than \<open>queue_capacity\<close> sockets wait, a take only when one waits) runs without an access outside
  the buffer or to an unwritten cell, and the sockets taken followed by those still waiting are
  exactly the sockets submitted, in that order.
\<close>

theorem pool_queue_fifo:
  assumes "thread_pool_prepare n cap os = (acq, rel, Some p, os')" "n < 2 ^ 60" "cap < 2 ^ 60"
    and "fits cap 0 ops"
  shows "\<exists>xs p'. queue_run pool_put pool_take ops p = Some (xs, p') \<and> puts_of ops = xs @ pool_contents p'"
  using pq.run_fifo [of p ops] prepared_pool [OF assms(1-3)] assms(4) by auto

corollary pool_queue_fifo_witness:
  "\<exists>xs p'. queue_run pool_put pool_take [Put 5, Put 6, Take, Put 7, Put 8, Take, Put 9] small_pool = Some (xs, p') \<and>
     [5, 6, 7, 8, 9] = xs @ pool_contents p'"
  using pool_queue_fifo [OF small_pool_prepared, of "[Put 5, Put 6, Take, Put 7, Put 8, Take, Put 9]"] by simp

subsection \<open>Threads\<close>

text \<open>
  C20: Mutual exclusion and memory safety, for every schedule: of all threads at most one is
  between lock and unlock, and a thread that is there finds the buffer allocated (never freed by a
  shutdown that overtook it) with its indices in range, so taking from a non-empty queue and
  putting into one that is not full succeed.
\<close>

theorem pool_critical_section_safe:
  assumes "thread_pool_prepare n cap os = (acq, rel, Some p, os')" "n < 2 ^ 60" "cap < 2 ^ 60"
    and "reachable (pool_start n p) s"
  shows "(wpc s i = W_Check \<longrightarrow> \<not> in_section (mpc s) \<and> (\<forall>j. wpc s j = W_Check \<longrightarrow> j = i)) \<and>
    (wpc s i = W_Check \<and> pool_count (pool s) \<noteq> 0 \<longrightarrow> pool_take (pool s) \<noteq> None) \<and>
    (mpc s = M_Check fd \<and> pool_count (pool s) \<noteq> pool_capacity (pool s) \<longrightarrow> pool_put fd (pool s) \<noteq> None)"
proof -
  note inv = pool_reachable_inv [OF assms]
  have one: "\<not> in_section (mpc s)" "\<forall>j. wpc s j = W_Check \<longrightarrow> j = i" if "wpc s i = W_Check"
    using pool_invD(2) [OF inv] that unfolding lock_inv_def by (metis option.inject thread.inject thread.distinct(1))+
  have "pool_take (pool s) \<noteq> None" if "wpc s i = W_Check" "pool_count (pool s) \<noteq> 0"
  proof -
    have "mpc s \<noteq> M_Finished" using worker_alive(1) [OF inv, of i] that(1) by simp
    then have "ring_ok (pool s)" "pool_contents (pool s) \<noteq> []" using live_pool [OF inv] that(2) by auto
    from pq.get_some [OF this] show ?thesis by auto
  qed
  moreover have "pool_put fd (pool s) \<noteq> None" if "mpc s = M_Check fd" "pool_count (pool s) \<noteq> pool_capacity (pool s)"
  proof -
    have "ring_ok (pool s)" "length (pool_contents (pool s)) < pool_capacity (pool s)"
      using live_pool [OF inv] that by (auto simp: ring_ok_def)
    from pq.put_law [OF this, of fd] show ?thesis by auto
  qed
  ultimately show ?thesis using one by blast
qed

corollary pool_critical_section_safe_witness:
  "\<not> in_section (mpc demo_busy) \<and> wpc demo_busy 1 \<noteq> W_Check \<and> pool_take (pool demo_busy) \<noteq> None"
proof -
  have "wpc demo_busy 0 = W_Check" "pool_count (pool demo_busy) \<noteq> 0" by (simp_all add: demo_busy_def)
  with pool_critical_section_safe [OF small_pool_prepared _ _ demo_busy_reachable, where i = 0] show ?thesis by auto
qed

text \<open>
  C21: No socket is lost, duplicated or reordered: in every reachable state the sockets accepted by
  \<open>thread_pool_submit\<close> are, in order, those taken by workers followed by those in the queue, and
  as a multiset those handled, those in the hands of a worker and those in the queue; the queue
  never exceeds its capacity.
\<close>

theorem pool_no_socket_lost:
  assumes "thread_pool_prepare n cap os = (acq, rel, Some p, os')" "n < 2 ^ 60" "cap < 2 ^ 60"
    and "reachable (pool_start n p) s"
  shows "accepted s = taken s @ pool_contents (pool s) \<and>
    mset (accepted s) = mset (handled s) + in_progress s + mset (pool_contents (pool s)) \<and>
    length (pool_contents (pool s)) \<le> cap"
proof -
  note inv = pool_reachable_inv [OF assms]
  have "pool_capacity (pool s) = cap" if "mpc s \<noteq> M_Finished"
    using reachable_capacity [OF assms(4) pool_inv_start [OF assms(1-3)] that] prepared_pool(3) [OF assms(1-3)]
    by (simp add: pool_start_def)
  then have "length (pool_contents (pool s)) \<le> cap"
    using pool_invD(1) [OF inv] length_pool_contents by (auto simp: memory_inv_def ring_ok_def)
  with pool_invD(6) [OF inv] show ?thesis by (simp add: socket_inv_def)
qed

corollary pool_no_socket_lost_witness:
  "[7] = pool_contents (pool demo_busy) \<and> {#7#} = in_progress demo_busy + mset (pool_contents (pool demo_busy))"
  using pool_no_socket_lost [OF small_pool_prepared _ _ demo_busy_reachable] by (simp add: demo_busy_def)

text \<open>
  C22: No deadlock and no lost wake-up: in every reachable state before the pool is released in
  which the main thread is inside \<open>thread_pool_init\<close>, \<open>thread_pool_submit\<close> or
  \<open>thread_pool_shutdown\<close>, or a socket waits in the queue, or a worker holds one, some thread can
  take a step without a spurious wake-up and without a new submission; and whenever a socket waits
  some worker is awake and on its way to the queue.
\<close>

theorem pool_makes_progress:
  assumes "thread_pool_prepare n cap os = (acq, rel, Some p, os')" "n < 2 ^ 60" "cap < 2 ^ 60"
    and "reachable (pool_start n p) s" "mpc s \<noteq> M_Finished"
    and "mpc s \<noteq> M_Idle \<or> pool_contents (pool s) \<noteq> [] \<or> in_progress s \<noteq> {#}"
  shows "(\<exists>s'. program_step s s' \<and> (mpc s = M_Idle \<longrightarrow> mpc s' = M_Idle)) \<and>
    (pool_contents (pool s) \<noteq> [] \<longrightarrow> (\<exists>i. will_check (wpc s i)))"
  using pool_can_step [OF pool_reachable_inv [OF assms(1-4)] assms(5,6)]
    pool_invD(5) [OF pool_reachable_inv [OF assms(1-4)]]
  by (simp add: wake_inv_def)

corollary pool_makes_progress_witness:
  "(\<exists>s'. program_step demo_busy s' \<and> mpc s' = M_Idle) \<and> (\<exists>i. will_check (wpc demo_busy i))"
proof -
  have "pool_contents (pool demo_busy) \<noteq> []" "mpc demo_busy = M_Idle"
    by (simp_all add: demo_busy_def pool_contents_def small_pool_def)
  with pool_makes_progress [OF small_pool_prepared _ _ demo_busy_reachable] show ?thesis by simp
qed

text \<open>
  C23: Shutdown ends and drains. Once the main thread is in \<open>thread_pool_shutdown\<close> (called by the
  server or after a failed \<open>pthread_create\<close>), every run of the threads has at most
  \<open>shutdown_work\<close> steps, and a run that cannot be continued has released the pool (all fields
  zero) with every thread ended and every accepted socket handled exactly once.
\<close>

theorem pool_shutdown_drains:
  assumes "thread_pool_prepare n cap os = (acq, rel, Some p, os')" "n < 2 ^ 60" "cap < 2 ^ 60"
    and "reachable (pool_start n p) s" "shutting (mpc s)" "(program_step ^^ m) s s'"
  shows "m \<le> shutdown_work s \<and>
    ((\<nexists>s''. program_step s' s'') \<longrightarrow> mpc s' = M_Finished \<and> pool s' = zero_pool \<and>
       (\<forall>i<spawned s'. wpc s' i = W_Done) \<and> mset (handled s') = mset (accepted s') \<and> taken s' = accepted s')"
proof -
  from shutdown_run [OF assms(6) pool_reachable_inv [OF assms(1-4)] assms(5)]
  have run: "m \<le> shutdown_work s" "pool_inv s'" "shutting (mpc s')" by auto
  have "mpc s' = M_Finished" if "\<nexists>s''. program_step s' s''" using stuck_finished [OF run(2,3) that] .
  moreover have "pool s' = zero_pool" "\<forall>i<spawned s'. wpc s' i = W_Done" if "mpc s' = M_Finished"
    using pool_invD(1,4) [OF run(2)] that by (auto simp: memory_inv_def join_inv_def)
  ultimately show ?thesis using run(1) finished_handled [OF run(2)] by blast
qed

corollary pool_shutdown_drains_witness:
  "3 \<le> shutdown_work demo_failed \<and> mpc demo_finished = M_Finished \<and> pool demo_finished = zero_pool \<and>
   mset (handled demo_finished) = mset (accepted demo_finished)"
proof -
  have "shutting (mpc demo_failed)" by (simp add: demo_failed_def)
  from pool_shutdown_drains [OF small_pool_prepared _ _ demo_failed_reachable this demo_failed_run] demo_finished_stuck
  show ?thesis by simp
qed

end
