(* ===== verification/BpMemory.thy ===== *)
theory BpMemory
  imports BpIndex "HOL-Library.Multiset"
begin

section \<open>The B+ tree: node addresses and the leaf chain\<close>

text \<open>
  What insertion does to the memory of the tree when no allocation fails: the nodes of the new
  tree are those of the old one and the ones allocated by the call, so \<open>bptree_destroy\<close> frees
  every node exactly once; and the \<open>next\<close> links, which no operation of the program follows,
  chain the leaves from left to right.
\<close>

fun leaf_links :: "bpnode \<Rightarrow> (nat \<times> nat) list" where
  "leaf_links Null = []"
| "leaf_links (BpNode a leaf n ks cs vs nx) =
     (if leaf then [(a, nx)] else concat (map leaf_links (take (Suc n) cs)))"

text \<open>Each leaf's \<open>next\<close> is the address of the following leaf, the last one's is \<open>z\<close>.\<close>

fun chained :: "nat \<Rightarrow> (nat \<times> nat) list \<Rightarrow> bool" where
  "chained z [] \<longleftrightarrow> True"
| "chained z [p] \<longleftrightarrow> snd p = z"
| "chained z (p # q # ps) \<longleftrightarrow> snd p = fst q \<and> chained z (q # ps)"

definition link_step :: "(nat \<times> nat) list \<Rightarrow> (nat \<times> nat) list \<Rightarrow> bool" where
  "link_step l l' \<longleftrightarrow> l' = l \<or>
     (\<exists>pre a nx post r. l = pre @ (a, nx) # post \<and> l' = pre @ (a, r) # (r, nx) # post)"

lemma link_step_refl [simp]: "link_step l l"
  by (simp add: link_step_def)

lemma link_step_one [simp]: "link_step [(a, nx)] [(a, r), (r, nx)]"
  unfolding link_step_def
  by (rule disjI2) (intro exI [of _ "[]"] exI [of _ a] exI [of _ nx] exI [of _ r], simp)

lemma link_step_context: "link_step l l' \<Longrightarrow> link_step (xs @ l @ ys) (xs @ l' @ ys)"
  unfolding link_step_def by (metis append.assoc append_Cons)

lemma chained_insert: "chained z (pre @ (a, nx) # post) \<Longrightarrow> chained z (pre @ (a, r) # (r, nx) # post)"
proof (induction pre)
  case Nil
  then show ?case by (cases post) auto
next
  case (Cons p pre)
  then show ?case by (cases pre) auto
qed

lemma chained_step: "link_step l l' \<Longrightarrow> chained z l \<Longrightarrow> chained z l'"
  using chained_insert by (auto simp: link_step_def)

definition whole :: "(bpnode \<Rightarrow> 'b list) \<Rightarrow> bpnode \<Rightarrow> InsertResult \<Rightarrow> 'b list" where
  "whole f t res = f t @ (if split res then f (right res) else [])"

lemma links_inner:
  "\<not> is_Null t \<Longrightarrow> \<not> is_leaf t \<Longrightarrow> leaf_links t = concat (map leaf_links (live_children t))"
  by (cases t) auto

lemma destroy_inner:
  "\<not> is_Null t \<Longrightarrow> \<not> is_leaf t \<Longrightarrow>
   node_destroy t = concat (map node_destroy (live_children t)) @ [node_addr t]"
  by (cases t) auto

lemma concat_map_replace:
  "i < length C \<Longrightarrow> concat (map f (C[i := c])) =
    concat (map f (take i C)) @ f c @ concat (map f (drop (Suc i) C))"
  by (simp add: upd_conv_take_nth_drop)

lemma concat_map_link:
  assumes "i < length C"
  shows "concat (map f (ins_at (Suc i) r (C[i := c]))) =
    concat (map f (take i C)) @ (f c @ f r) @ concat (map f (drop (Suc i) C))"
proof -
  have "take (Suc i) (C[i := c]) = take i C @ [c]"
    using assms by (simp add: upd_conv_take_nth_drop)
  then show ?thesis by (simp add: ins_at_def)
qed

lemma concat_map_cut: "i < length C \<Longrightarrow> concat (map f C) =
    concat (map f (take i C)) @ f (C ! i) @ concat (map f (drop (Suc i) C))"
  by (subst id_take_nth_drop [of i C]) auto

lemma granted_create:
  assumes "node_create lf os = (t, os')" "granted os os'"
  shows "t = BpNode (Suc (calls os)) lf 0 (replicate 31 0) (replicate 32 Null) (replicate 31 0) 0"
    and "calls os' = Suc (calls os)"
  using assms by (auto simp: node_create_def alloc_def sys_call_def granted_def
      split: option.splits prod.splits if_splits)

lemma leaf_insert_memory:
  assumes "leaf_insert os (BpNode a True n ks cs vs nx) key v = (os', t', res)" "granted os os'"
  shows "link_step [(a, nx)] (whole leaf_links t' res) \<and>
    mset (whole node_destroy t' res) = mset (a # [Suc (calls os)..<Suc (calls os')])"
proof -
  define r where "r = fst (node_create True os)"
  define os1 where "os1 = snd (node_create True os)"
  have nc: "node_create True os = (r, os1)" by (simp add: r_def os1_def)
  show ?thesis
  proof (cases "os' = os1 \<and> granted os os1")
    case True
    then have "r = BpNode (Suc (calls os)) True 0 (replicate 31 0) (replicate 32 Null) (replicate 31 0) 0"
      "calls os1 = Suc (calls os)" using granted_create [OF nc] by auto
    then show ?thesis using assms nc
      by (auto simp: leaf_insert_def Let_def whole_def no_split_def split: if_splits)
  next
    case False
    then have "os' = os" "\<not> split res" "is_leaf t'" "\<not> is_Null t'" "node_addr t' = a" "next_addr t' = nx"
      using assms nc by (auto simp: leaf_insert_def Let_def no_split_def split: if_splits bpnode.splits)
    then show ?thesis by (cases t') (auto simp: whole_def)
  qed
qed

lemma node_link_shape:
  assumes "arrays_ok (BpNode a False n ks cs vs nx)" "i \<le> n"
    and C: "C = ins_at (Suc i) (right cr) (take (Suc n) cs)"
    and run: "node_link os (BpNode a False n ks cs vs nx) i cr = (os', t', res)" and g: "granted os os'"
  shows "\<not> is_Null t' \<and> \<not> is_leaf t' \<and> node_addr t' = a \<and>
    (if split res
     then \<not> is_Null (right res) \<and> \<not> is_leaf (right res) \<and> node_addr (right res) = Suc (calls os) \<and>
       calls os' = Suc (calls os) \<and> live_children t' @ live_children (right res) = C
     else os' = os \<and> live_children t' = C)"
proof (cases "n < 31")
  case True
  then show ?thesis using assms
    by (auto simp: node_link_def Let_def no_split_def arrays_ok_def take_shift_right_store)
next
  case False
  define r where "r = fst (node_create False os)"
  define os1 where "os1 = snd (node_create False os)"
  have nc: "node_create False os = (r, os1)" by (simp add: r_def os1_def)
  have len: "n = 31" "length cs = 32" "length C = 33" using False assms by (auto simp: arrays_ok_def)
  have "os' = os1" using run nc len by (auto simp: node_link_def Let_def split: bpnode.splits)
  with g have r: "r = BpNode (Suc (calls os)) False 0 (replicate 31 0) (replicate 32 Null) (replicate 31 0) 0"
      "calls os1 = Suc (calls os)" using granted_create [OF nc] by auto
  have temp: "build_temp (Null # replicate 32 Null) cs (right cr) (Suc i) 33 = C"
    using len assms(2) C by (simp add: build_temp_eq)
  show ?thesis using run nc r len temp \<open>os' = os1\<close>
    by (auto simp: node_link_def Let_def copy_block_eq fill_block_eq)
qed

lemma upt_cut: "runs_to a b \<Longrightarrow> runs_to b c \<Longrightarrow>
    mset [Suc (calls a)..<Suc (calls c)] = mset [Suc (calls a)..<Suc (calls b)] + mset [Suc (calls b)..<Suc (calls c)]"
proof -
  assume "runs_to a b" "runs_to b c"
  then have "[Suc (calls a)..<Suc (calls c)] =
      [Suc (calls a)..<Suc (calls b)] @ [Suc (calls b)..<Suc (calls c)]"
    using upt_add_eq_append [of "Suc (calls a)" "Suc (calls b)" "calls c - calls b"]
    by (simp add: runs_to_def del: upt_Suc)
  then show ?thesis by (simp only: mset_append)
qed

lemma node_insert_memory:
  assumes "bp_wf ml mi h t" "ml \<le> 16" "mi \<le> 15"
    and "node_insert os t key v = Some (os', t', res)" "granted os os'"
  shows "link_step (leaf_links t) (whole leaf_links t' res) \<and>
    mset (whole node_destroy t' res) = mset (node_destroy t) + mset [Suc (calls os)..<Suc (calls os')]"
  using assms
proof (induction h arbitrary: ml mi t os' t' res)
  case 0
  then obtain a n ks cs vs nx where t: "t = BpNode a True n ks cs vs nx"
    by (cases t) (auto simp: arrays_ok_def)
  then have "leaf_insert os (BpNode a True n ks cs vs nx) key v = (os', t', res)"
    using "0.prems"(4) by (simp add: Let_def)
  from leaf_insert_memory [OF this "0.prems"(5)] show ?case by (simp add: t del: upt_Suc)
next
  case (Suc h)
  obtain a n ks cs vs nx where t: "t = BpNode a False n ks cs vs nx"
    using Suc.prems by (cases t) (auto simp: arrays_ok_def)
  define C i where C: "C = take (Suc n) cs" and i: "i = child_index_for_key t key"
  have arr: "arrays_ok t" "length cs = 32" "length C = Suc n" "n \<le> 31"
    and ok: "inner_ok (bp_wf 16 15 h) (take n ks) C"
    using Suc.prems(1) by (auto simp: t C arrays_ok_def)
  have idx: "i < length C" "i \<le> n" "child_at cs i = C ! i"
    using inner_ok_index [OF ok, of key] child_index_eq [OF arr(1)] arr
    by (auto simp: C i t child_at_def)
  have wfc: "bp_wf 16 15 h (C ! i)" using ok idx(1) by (simp add: inner_ok_def)
  obtain os1 c cr where rec: "node_insert os (C ! i) key v = Some (os1, c, cr)" "runs_to os os1"
    using node_insert_correct [OF wfc, of os key v] by auto
  define t1 where "t1 = BpNode a False n ks (cs[i := c]) vs nx"
  have step: "(if split cr then node_link os1 t1 i cr else (os1, t1, cr)) = (os', t', res)"
    using Suc.prems(4) rec(1) idx(3) by (auto simp: t t1_def Let_def i split: if_splits)
  have arr1: "arrays_ok t1" using arr by (auto simp: t t1_def arrays_ok_def)
  have live1: "take (Suc n) (cs[i := c]) = C[i := c]"
    using idx by (auto simp: C take_update_swap)
  have IH: "link_step (leaf_links (C ! i)) (whole leaf_links c cr) \<and>
    mset (whole node_destroy c cr) =
      mset (node_destroy (C ! i)) + mset [Suc (calls os)..<Suc (calls os1)]" if "granted os os1"
    using Suc.IH [OF wfc _ _ rec(1) that] by simp
  have t_links: "leaf_links t = concat (map leaf_links (take i C)) @ leaf_links (C ! i) @
      concat (map leaf_links (drop (Suc i) C))"
    and t_nodes: "node_destroy t = (concat (map node_destroy (take i C)) @ node_destroy (C ! i) @
      concat (map node_destroy (drop (Suc i) C))) @ [a]"
    using concat_map_cut [OF idx(1), of leaf_links] concat_map_cut [OF idx(1), of node_destroy]
    by (simp_all add: t C)
  show ?case
  proof (cases "split cr")
    case False
    then have r: "os' = os1" "t' = t1" "res = cr" using step by auto
    have "whole leaf_links t1 cr = concat (map leaf_links (take i C)) @ whole leaf_links c cr @
        concat (map leaf_links (drop (Suc i) C))"
      and "whole node_destroy t1 cr = (concat (map node_destroy (take i C)) @ whole node_destroy c cr @
        concat (map node_destroy (drop (Suc i) C))) @ [a]"
      using False concat_map_replace [OF idx(1), of leaf_links c] concat_map_replace [OF idx(1), of node_destroy c]
      by (simp_all add: whole_def t1_def live1)
    then show ?thesis
      using IH Suc.prems(5) unfolding r t_links t_nodes by (simp add: link_step_context del: upt_Suc)
  next
    case True
    then have nl: "node_link os1 t1 i cr = (os', t', res)" using step by simp
    have g: "granted os os1" "granted os1 os'" and rt: "runs_to os1 os'"
    proof -
      show rt: "runs_to os1 os'" using nl node_create_cases [of False os1]
        by (auto simp: node_link_def t1_def Let_def split: if_splits prod.splits bpnode.splits)
      show "granted os os1" "granted os1 os'"
        using Suc.prems(5) rt rec(2) granted_left granted_right by blast+
    qed
    define C' where "C' = ins_at (Suc i) (right cr) (C[i := c])"
    have shape: "\<not> is_Null t' \<and> \<not> is_leaf t' \<and> node_addr t' = a \<and>
      (if split res
       then \<not> is_Null (right res) \<and> \<not> is_leaf (right res) \<and> node_addr (right res) = Suc (calls os1) \<and>
         calls os' = Suc (calls os1) \<and> live_children t' @ live_children (right res) = C'
       else os' = os1 \<and> live_children t' = C')"
      using node_link_shape [OF arr1 [unfolded t1_def] idx(2) _ nl [unfolded t1_def] g(2), of C']
      by (simp add: C'_def live1)
    have "whole leaf_links t' res = concat (map leaf_links C')"
      "mset (whole node_destroy t' res) =
        mset (concat (map node_destroy C')) + mset (a # [Suc (calls os1)..<Suc (calls os')])"
      using shape links_inner [of t'] links_inner [of "right res"] destroy_inner [of t'] destroy_inner [of "right res"]
      by (auto simp: whole_def split: if_splits)
    moreover have "concat (map leaf_links C') = concat (map leaf_links (take i C)) @ whole leaf_links c cr @
        concat (map leaf_links (drop (Suc i) C))"
      "concat (map node_destroy C') = concat (map node_destroy (take i C)) @ whole node_destroy c cr @
        concat (map node_destroy (drop (Suc i) C))"
      using True by (simp_all add: C'_def concat_map_link [OF idx(1)] whole_def)
    ultimately show ?thesis
      using IH [OF g(1)] upt_cut [OF rec(2) rt] unfolding t_links t_nodes
      by (simp add: link_step_context ac_simps del: upt_Suc)
  qed
qed

lemma granted_insert_from_root:
  assumes wf: "bp_wf 0 1 h (root tree)" and run: "insert_from_root os tree key v = Some (os', tree', ok)"
    and g: "granted os os'"
  shows "link_step (leaf_links (root tree)) (leaf_links (root tree')) \<and>
    mset (node_destroy (root tree')) = mset (node_destroy (root tree)) + mset [Suc (calls os)..<Suc (calls os')]"
proof -
  obtain os1 root1 r where ni: "node_insert os (root tree) key v = Some (os1, root1, r)" and rt1: "runs_to os os1"
    using node_insert_correct [OF wf, of os key v] by auto
  obtain nr os2 where nc: "node_create False os1 = (nr, os2)" by fastforce
  have os': "os' = (if split r then os2 else os1)"
    using run ni nc by (auto simp: insert_from_root_def Let_def split: if_splits bpnode.splits)
  have rt2: "runs_to os1 os'" using node_create_cases [OF nc] by (simp add: os')
  have g1: "granted os os1" "granted os1 os'" using g rt1 rt2 granted_left granted_right by blast+
  note mem = node_insert_memory [OF wf _ _ ni g1(1)]
  show ?thesis
  proof (cases "split r")
    case False
    then have "root tree' = root1" using run ni by (auto simp: insert_from_root_def Let_def)
    then show ?thesis using mem False os' by (simp add: whole_def del: upt_Suc)
  next
    case True
    then have new: "nr = BpNode (Suc (calls os1)) False 0 (replicate 31 0) (replicate 32 Null) (replicate 31 0) 0"
      "calls os' = Suc (calls os1)"
      using granted_create [OF nc] g1(2) os' by auto
    have upd: "take (Suc (Suc 0)) ((replicate 32 Null)[0 := x, Suc 0 := y]) = [x, y]" for x y :: bpnode
      by (simp add: numeral_eq_Suc)
    have "leaf_links (root tree') = whole leaf_links root1 r"
      "node_destroy (root tree') = whole node_destroy root1 r @ [Suc (calls os1)]"
      using run ni nc new True by (auto simp: insert_from_root_def Let_def whole_def upd)
    then show ?thesis using mem upt_cut [OF rt1 rt2] new(2) by simp
  qed
qed

lemma bptree_insert_memory:
  assumes inv: "bptree_inv tree" and run: "bptree_insert os tree key v = Some (os', tree', ok)"
    and g: "granted os os'"
  shows "(chained 0 (leaf_links (root tree)) \<longrightarrow> chained 0 (leaf_links (root tree'))) \<and>
    mset (node_destroy (root tree')) = mset (node_destroy (root tree)) + mset [Suc (calls os)..<Suc (calls os')]"
proof (cases "is_Null (root tree)")
  case False
  then show ?thesis using run g inv granted_insert_from_root [of "height (root tree)" tree os key v os' tree' ok]
    by (auto simp: bptree_insert_def bptree_inv_def intro: chained_step simp del: upt_Suc)
next
  case True
  obtain r os0 where nc: "node_create True os = (r, os0)" by fastforce
  have rt: "runs_to os os0" using node_create_cases [OF nc] by simp
  obtain tree0 where t0: "tree0 = tree\<lparr>root := r\<rparr>" by simp
  have rn: "\<not> is_Null r"
  proof
    assume "is_Null r"
    then have "os' = os0" using run True nc by (simp add: bptree_insert_def)
    then show False using node_create_cases [OF nc] \<open>is_Null r\<close> g by (cases r) auto
  qed
  then have run0: "insert_from_root os0 tree0 key v = Some (os', tree', ok)"
    using run True nc t0 by (simp add: bptree_insert_def)
  have r: "r = BpNode (Suc (calls os)) True 0 (replicate 31 0) (replicate 32 Null) (replicate 31 0) 0"
    using node_create_cases [OF nc] rn by auto
  then have wf0: "bp_wf 0 1 0 (root tree0)" by (simp add: t0 arrays_ok_def)
  have rt0: "runs_to os0 os'" using insert_from_root_correct [OF wf0, of os0 key v] run0 by auto
  have g0: "granted os0 os'" using granted_right [OF g rt] .
  have c0: "calls os0 = Suc (calls os)" using nc rn
    by (auto simp: node_create_def alloc_def sys_call_def split: option.splits prod.splits if_splits)
  have "chained 0 (leaf_links (root tree0))" by (simp add: t0 r)
  then show ?thesis
    using granted_insert_from_root [OF wf0 run0 g0] chained_step upt_cut [OF rt rt0] True r c0
    by (cases "root tree") (auto simp: t0)
qed

text \<open>The memory of a tree grown by a run of insertions in which no allocation fails.\<close>

definition tree_memory :: "'w os_scheme \<Rightarrow> 'w os_scheme \<Rightarrow> BPlusTree \<Rightarrow> bool" where
  "tree_memory os os' tree \<longleftrightarrow> runs_to os os' \<and> chained 0 (leaf_links (root tree)) \<and>
     mset (node_destroy (root tree)) = mset [Suc (calls os)..<Suc (calls os')]"

lemma tree_memory_init: "tree_memory os os bptree_init"
  by (simp add: tree_memory_def bptree_init_def)

lemma tree_memory_insert:
  assumes "bptree_inv tree" "bptree_insert os1 tree key v = Some (os2, tree', ok)" "granted os1 os2"
    "tree_memory os os1 tree"
  shows "tree_memory os os2 tree'"
proof -
  have "runs_to os1 os2" by (rule bp.insert_later [OF assms(1,2)])
  then show ?thesis
    using assms(4) bptree_insert_memory [OF assms(1-3)] upt_cut [of os os1 os2] runs_to_trans
    unfolding tree_memory_def by metis
qed

lemma tree_memory_run:
  "bptree_inv tree \<Longrightarrow> insert_all bptree_insert os1 tree kvs = Some (os2, tree') \<Longrightarrow> never_fails os1 \<Longrightarrow>
   tree_memory os os1 tree \<Longrightarrow> tree_memory os os2 tree'"
proof (induction kvs arbitrary: os1 tree)
  case Nil
  then show ?case by simp
next
  case (Cons kv kvs)
  obtain k v where kv: "kv = (k, v)" by fastforce
  obtain os3 tree3 where ins: "bptree_insert os1 tree k v = Some (os3, tree3, True)"
      "insert_all bptree_insert os3 tree3 kvs = Some (os2, tree')"
    using Cons.prems(2) by (auto simp: kv split: option.splits if_splits)
  have "runs_to os1 os3" by (rule bp.insert_later [OF Cons.prems(1) ins(1)])
  then show ?case
    using Cons.IH [OF bp.insert_inv [OF Cons.prems(1) ins(1)] ins(2)] Cons.prems
      tree_memory_insert [OF Cons.prems(1) ins(1)] never_fails_granted never_fails_runs_to by blast
qed

lemma bptree_run_exists: "never_fails os \<Longrightarrow> \<exists>os' tree. insert_all bptree_insert os bptree_init kvs = Some (os', tree)"
  using bp.insert_all_correct [OF bp.empty_inv, of os kvs] never_fails_granted
  by (auto simp: bp.empty_count bp.empty_contents)

end
