(* ===== verification/BpProperties.thy ===== *)
theory BpProperties
  imports BpMemory
begin

section \<open>The B+ tree: properties\<close>

text \<open>
  What \<open>bptree_insert\<close>, \<open>bptree_search\<close> and \<open>bptree_destroy\<close> promise their client, the DB
  engine, from the facts of the interpretation \<open>bp\<close> of the index interface and the memory lemmas.
\<close>

definition all_granted :: os where
  "all_granted = \<lparr>calls = 0, grant = (\<lambda>_. True)\<rparr>"

lemma all_granted_never_fails: "never_fails all_granted"
  by (simp add: all_granted_def never_fails_def)

subsection \<open>Insertion and search\<close>

text \<open>
  C24: when no allocation fails, \<open>bptree_insert\<close> on a well-formed tree reports success, the new
  tree is well formed (sorted arrays of the declared lengths, separators that route, all leaves
  at one depth, every node but the root at least half full) and \<open>bptree_search\<close> answers as the
  old search with the one key rebound, for every key; the size grows iff the key is new.
\<close>

theorem bptree_insert_updates_search:
  assumes "bptree_inv tree" "never_fails os"
  shows "\<exists>os' tree'. bptree_insert os tree key v = Some (os', tree', True) \<and> bptree_inv tree' \<and>
    bptree_search tree' = (bptree_search tree)(key \<mapsto> v) \<and>
    tree_size tree' = (if bptree_search tree key = None then Suc (tree_size tree) else tree_size tree)"
proof -
  obtain os' tree' ok where r: "bptree_insert os tree key v = Some (os', tree', ok)"
      "runs_to os os'" "bptree_inv tree'"
    using bp.insert_returns [OF assms(1)] by blast
  note q = never_fails_granted [OF assms(2), of os']
  show ?thesis
    using r bp.search_insert [OF assms(1) r(1) q] bp.insert_contents [OF assms(1) r(1) q]
      bp.search_contents [OF assms(1), of key] by (auto simp: map_of_eq_None_iff)
qed

lemma bptree_insert_updates_search_witness:
  "\<exists>os' tree'. bptree_insert all_granted
      \<lparr>root = BpNode 1 True 2 ([10, 20] @ replicate 29 0) (replicate 32 Null) ([0, 1] @ replicate 29 0) 0,
       tree_size = 2\<rparr> 15 7 = Some (os', tree', True) \<and> bptree_search tree' 15 = Some 7 \<and> bptree_search tree' 20 = Some 1"
proof -
  let ?t = "\<lparr>root = BpNode 1 True 2 ([10, 20] @ replicate 29 0) (replicate 32 Null) ([0, 1] @ replicate 29 0) 0,
       tree_size = 2\<rparr>"
  have inv: "bptree_inv ?t" by (simp add: bptree_inv_def arrays_ok_def)
  have "bptree_search ?t 20 = Some 1"
    using bp.search_contents [OF inv, of 20] by simp
  then show ?thesis
    using bptree_insert_updates_search [OF inv all_granted_never_fails, of 15 7] by auto
qed

text \<open>
  C25: whatever allocations fail, \<open>bptree_insert\<close> on a well-formed tree returns without following
  a \<open>NULL\<close> child, leaves a well-formed tree, and no search then returns a wrong value: it finds
  a binding of the old tree or the new one, or nothing.
\<close>

theorem bptree_insert_any_oracle:
  assumes "bptree_inv tree"
  shows "\<exists>os' tree' ok. bptree_insert os tree key v = Some (os', tree', ok) \<and> bptree_inv tree' \<and>
    bptree_search tree' \<subseteq>\<^sub>m (bptree_search tree)(key \<mapsto> v)"
  using bp.insert_returns [OF assms, of os key v] bp.search_insert_sound [OF assms] by blast

lemma bptree_insert_any_oracle_witness:
  "\<exists>os' tree' ok. bptree_insert \<lparr>calls = 0, grant = (\<lambda>_. False)\<rparr> bptree_init 4 9 = Some (os', tree', ok) \<and>
    bptree_search tree' \<subseteq>\<^sub>m [4 \<mapsto> 9]"
proof -
  have "bptree_search bptree_init = Map.empty" using bp.search_empty by auto
  then show ?thesis
    using bptree_insert_any_oracle [OF bp.empty_inv, of "\<lparr>calls = 0, grant = (\<lambda>_. False)\<rparr>" 4 9] by auto
qed

text \<open>
  C26: a run of insertions from the empty tree in which no allocation fails succeeds, and the tree
  it builds is the map of the inserted bindings, the last binding of a key winning; \<open>size\<close> is the
  number of distinct keys.
\<close>

theorem bptree_run_is_map:
  assumes "never_fails os"
  shows "\<exists>os' tree. insert_all bptree_insert os bptree_init kvs = Some (os', tree) \<and> bptree_inv tree \<and>
    bptree_search tree = map_of (rev kvs) \<and> tree_size tree = card (fst ` set kvs)"
proof -
  obtain os' tree where r: "insert_all bptree_insert os bptree_init kvs = Some (os', tree)" "bptree_inv tree"
      "bptree_search tree = bptree_search bptree_init ++ map_of (rev kvs)" "tree_size tree = length (tree_entries tree)"
    using bp.insert_all_correct [OF bp.empty_inv, of os kvs] never_fails_granted [OF assms]
    by (auto simp: bp.empty_count bp.empty_contents)
  moreover have "bptree_search bptree_init = Map.empty" using bp.search_empty by auto
  ultimately show ?thesis using bp.count_keys [OF r(2,4)]
    by (auto simp: dom_map_of_conv_image_fst)
qed

lemma bptree_run_is_map_witness:
  "\<exists>os' tree. insert_all bptree_insert all_granted bptree_init (map (\<lambda>i. (int i mod 40, i)) [0..<100]) = Some (os', tree) \<and>
    bptree_search tree 3 = Some 83"
proof -
  have "map_of (rev (map (\<lambda>i. (int i mod 40, i)) [0..<100])) 3 = Some (83 :: nat)" by code_simp
  then show ?thesis
    using bptree_run_is_map [OF all_granted_never_fails, of "map (\<lambda>i. (int i mod 40, i)) [0..<100]"] by metis
qed

text \<open>
  C27: search is logarithmic: a well-formed tree in which the search descends through \<open>h + 1\<close>
  inner nodes holds at least \<open>2 * 16 ^ (h + 1)\<close> entries.
\<close>

theorem bptree_height:
  assumes "bptree_inv tree" "height (root tree) = Suc h"
  shows "2 * 16 ^ Suc h \<le> card (dom (bptree_search tree))"
proof -
  have "card (dom (bptree_search tree)) = length (tree_entries tree)"
    using distinct_card [OF kv_sorted_distinct [OF bptree_inv_sorted [OF assms(1)]]]
      bp.search_contents [OF assms(1)] by (simp add: dom_def map_of_eq_None_iff)
  then show ?thesis using tree_height_bound [OF assms] by simp
qed

lemma bptree_height_witness:
  "2 * 16 ^ Suc 0 \<le> card (dom (bptree_search
     \<lparr>root = BpNode 3 False 1 (16 # replicate 30 0)
        (BpNode 1 True 16 (map int [0..<16] @ replicate 15 0) (replicate 32 Null) (replicate 31 0) 2 #
         BpNode 2 True 16 (map int [16..<32] @ replicate 15 0) (replicate 32 Null) (replicate 31 0) 0 #
         replicate 30 Null) (replicate 31 0) 0, tree_size = 32\<rparr>))"
  by (rule bptree_height) code_simp+



subsection \<open>Memory\<close>

text \<open>
  C29: \<open>bptree_destroy\<close> of a tree grown from empty, no allocation having failed, frees every node
  that was allocated, each exactly once, and nothing else.
\<close>

theorem bptree_destroy_frees_each_node_once:
  assumes "never_fails os" "insert_all bptree_insert os bptree_init kvs = Some (os', tree)"
  shows "distinct (fst (bptree_destroy tree)) \<and>
    set (fst (bptree_destroy tree)) = {Suc (calls os)..calls os'} \<and> snd (bptree_destroy tree) = bptree_init"
proof -
  have m: "mset (node_destroy (root tree)) = mset [Suc (calls os)..<Suc (calls os')]"
    using tree_memory_run [OF bp.empty_inv assms(2,1) tree_memory_init] unfolding tree_memory_def by blast
  have "distinct (node_destroy (root tree))"
    unfolding mset_eq_imp_distinct_iff [OF m] by (rule distinct_upt)
  moreover have "set (node_destroy (root tree)) = {Suc (calls os)..calls os'}"
    unfolding mset_eq_setD [OF m] set_upt by auto
  ultimately show ?thesis by (simp add: bptree_destroy_def bptree_init_def)
qed

lemma bptree_destroy_frees_each_node_once_witness:
  "\<exists>os' tree. insert_all bptree_insert all_granted bptree_init (map (\<lambda>i. (int i, i)) [0..<40]) = Some (os', tree) \<and>
    distinct (fst (bptree_destroy tree))"
proof -
  obtain os' tree where r: "insert_all bptree_insert all_granted bptree_init (map (\<lambda>i. (int i, i)) [0..<40]) = Some (os', tree)"
    using bptree_run_exists [OF all_granted_never_fails] by blast
  show ?thesis using bptree_destroy_frees_each_node_once [OF all_granted_never_fails r] r by blast
qed

text \<open>
  in such a tree the \<open>next\<close> pointers chain the leaves from left to right, each leaf once, and
  the last one is \<open>NULL\<close>.
\<close>

theorem bptree_leaf_chain:
  assumes "never_fails os" "insert_all bptree_insert os bptree_init kvs = Some (os', tree)"
  shows "chained 0 (leaf_links (root tree))"
  using tree_memory_run [OF bp.empty_inv assms(2,1) tree_memory_init] unfolding tree_memory_def by blast

lemma bptree_leaf_chain_witness:
  "\<exists>os' tree. insert_all bptree_insert all_granted bptree_init (map (\<lambda>i. (int i, i)) [0..<40]) = Some (os', tree) \<and>
    chained 0 (leaf_links (root tree))"
proof -
  obtain os' tree where r: "insert_all bptree_insert all_granted bptree_init (map (\<lambda>i. (int i, i)) [0..<40]) = Some (os', tree)"
    using bptree_run_exists [OF all_granted_never_fails] by blast
  show ?thesis using bptree_leaf_chain [OF all_granted_never_fails r] r by blast
qed

end
