(* ===== verification/HttpProperties.thy ===== *)
theory HttpProperties
  imports HttpRead HttpBody
begin

section \<open>The HTTP layer: properties\<close>

text \<open>
  What \<open>src/src/http.c\<close> promises the server: reading is safe for every peer and exact for
  well-formed requests, a response is written whole or reported as failed and announces its own
  length, and the SQL text of a body is what the client put there.
\<close>

subsection \<open>Requests\<close>

text \<open>
  C30: \<open>http_read_request\<close> returns whatever the peer sends and however \<open>recv\<close> behaves, without an
  access outside its buffer and without sending anything; a request it accepts fits the arrays of
  \<open>HttpRequest\<close>, with a body of exactly \<open>body_len\<close> bytes, at most \<open>HTTP_MAX_BODY\<close>.
\<close>

theorem http_read_request_any_peer:
  "\<exists>r c'. http_read_request c = Some (r, c') \<and> outgoing c' = outgoing c \<and> sent c' = sent c \<and>
    (\<forall>req. r = Inr req \<longrightarrow> length (req_method req) < 8 \<and> length (req_path req) < 128 \<and>
       length (req_body req) = req_body_len req \<and> req_body_len req \<le> HTTP_MAX_BODY)"
  using http_read_request_returns [of c] unfolding same_out_def request_bounds_def by blast

lemma http_read_request_any_peer_witness:
  "\<exists>r c'. http_read_request \<lparr>incoming = [Arrives ''GET'', Recv_Broken], outgoing = [], sent = []\<rparr> = Some (r, c') \<and> sent c' = []"
  using http_read_request_any_peer [of "\<lparr>incoming = [Arrives ''GET'', Recv_Broken], outgoing = [], sent = []\<rparr>"] by auto

text \<open>
  C31: A well-formed request (a method of at most 7 and a path of at most 127 characters, header
  lines of which the first \<open>Content-Length\<close>, in any case, gives the length of the body, within the
  limits) is read exactly, into whatever segments the network cuts it, with interrupted calls in
  between, and whatever bytes follow the body.
\<close>

theorem http_read_request_segments:
  assumes "request_ok m p v hs body" "recv_works c"
    and "bytes_of (incoming c) = request_head m p v hs @ body @ extra"
  shows "\<exists>c'. http_read_request c =
    Some (Inr \<lparr>req_method = m, req_path = p, req_body = body, req_body_len = length body\<rparr>, c') \<and> sent c' = sent c"
  using http_read_request_reads [OF assms] by (auto simp: same_out_def)

definition demo_conn :: conn where
  "demo_conn = \<lparr>incoming = [Arrives ''POST /qu'', Recv_Interrupted,
      Arrives (''ery HTTP/1.1'' @ CRLF @ ''Host: x'' @ CRLF @ ''content-length: 2'' @ CRLF @ CRLF @ ''h''), Arrives ''i''],
     outgoing = [], sent = []\<rparr>"

lemma demo_request_ok: "request_ok ''POST'' ''/query'' ''HTTP/1.1'' [''Host: x'', ''content-length: 2''] ''hi''"
proof -
  have "length_header ''content-length: 2'' 2"
    unfolding length_header_def
    by (intro exI [of _ "''content-length:''"] exI [of _ "'' ''"])
      (simp add: strcasecmp_eq_def tolower_def isupper_def blank_def dec_digits.simps digit_char_def
        char_of_def bit_0)
  moreover have "\<not> is_content_length ''Host: x''" by (simp add: is_content_length_def)
  ultimately have "announces [''Host: x'', ''content-length: 2''] 2"
    unfolding announces_def using length_header_plain(1) [of "''content-length: 2''" 2]
    by (intro conjI disjI2 exI [of _ "[''Host: x'']"] exI [of _ "''content-length: 2''"] exI [of _ "[]"])
      (simp_all add: plain_line_def)
  then show ?thesis
    by (simp add: request_ok_def plain_word_def isspace_def HTTP_MAX_BODY_def HTTP_MAX_REQUEST_def
        request_head_def request_line_def numeral_2_eq_2)
qed

lemma http_read_request_segments_witness:
  "\<exists>c'. http_read_request demo_conn =
    Some (Inr \<lparr>req_method = ''POST'', req_path = ''/query'', req_body = ''hi'', req_body_len = 2\<rparr>, c')"
proof -
  have "recv_works demo_conn" by (simp add: recv_works_def demo_conn_def)
  moreover have "bytes_of (incoming demo_conn) =
      request_head ''POST'' ''/query'' ''HTTP/1.1'' [''Host: x'', ''content-length: 2''] @ ''hi'' @ []"
    by (simp add: demo_conn_def request_head_def request_line_def)
  ultimately show ?thesis
    using http_read_request_segments [OF demo_request_ok, of demo_conn] by (auto simp: numeral_2_eq_2)
qed

subsection \<open>Responses\<close>

text \<open>
  C32: \<open>http_send_json_with_thread\<close> sends its response whole, header, body and a final newline where
  the body has none, and reports success, or reports failure after a proper prefix of it; partial
  and interrupted \<open>send\<close> calls are no failure. It succeeds whenever \<open>snprintf\<close> and the socket
  work: the header always fits its buffer.
\<close>

theorem http_send_json_whole_or_failed:
  assumes "tid \<le> SIZE_MAX" "length body < SIZE_MAX" "\<bar>status\<bar> < 10 ^ 10"
    and "http_send_json_with_thread status body tid (os, c) = (ok, os', c')"
  shows "(ok \<longrightarrow> sent c' = sent c @ response_text status body tid) \<and>
    (\<not> ok \<longrightarrow> (\<exists>k < length (response_text status body tid). sent c' = sent c @ take k (response_text status body tid))) \<and>
    (granted os os' \<and> send_works c \<longrightarrow> ok)"
  using http_send_json_writes [OF assms(1-3), of os c] assms(4) by (auto simp: writes_def)

lemma http_send_json_whole_or_failed_witness:
  "\<exists>os' c'. http_send_json_with_thread 200 ''[]'' 7 (\<lparr>calls = 0, grant = (\<lambda>_. True)\<rparr>,
      \<lparr>incoming = [], outgoing = [Takes 5, Send_Interrupted, Takes 1], sent = []\<rparr>) = (True, os', c') \<and>
    sent c' = response_text 200 ''[]'' 7"
proof -
  let ?os = "\<lparr>calls = 0, grant = (\<lambda>_. True)\<rparr>" and ?c = "\<lparr>incoming = [], outgoing = [Takes 5, Send_Interrupted, Takes 1], sent = []\<rparr>"
  obtain ok os' c' where r: "http_send_json_with_thread 200 ''[]'' 7 (?os, ?c) = (ok, os', c')" by (metis prod_cases3)
  have "send_works ?c" by (auto simp: send_works_def numeral_eq_Suc)
  moreover have "granted ?os os'" by (simp add: granted_def)
  ultimately show ?thesis
    using http_send_json_whole_or_failed [OF _ _ _ r] r by (auto simp: SIZE_MAX_def)
qed

definition response_lines :: "int \<Rightarrow> nat \<Rightarrow> nat \<Rightarrow> string list" where
  "response_lines status tid n =
     (''HTTP/1.1 '' @ dec_int status @ '' '' @ reason status) # ''Content-Type: application/json'' #
     (if tid \<noteq> 0 then [''X-Worker-Thread-Id: '' @ dec_digits tid] else []) @
     [''Content-Length: '' @ dec_digits n, ''Connection: close'']"

lemma response_header_lines: "response_header status (thread_header tid) n = lines_text (response_lines status tid n) @ CRLF"
  by (simp add: response_header_def response_lines_def thread_header_def)

lemma digits_plain: "CHR 0x0D \<notin> set (dec_digits n)" "CHR 0x00 \<notin> set (dec_digits n)"
  using dec_digits_chars not_digit by blast+

lemma response_lines_plain: "\<forall>h\<in>set (response_lines status tid n). plain_line h"
proof -
  have "CHR 0x0D \<notin> set (dec_int status)" "CHR 0x00 \<notin> set (dec_int status)"
    using digits_plain by (simp_all add: dec_int_def)
  moreover have "CHR 0x0D \<notin> set (reason status)" "CHR 0x00 \<notin> set (reason status)" by (simp_all add: reason_def)
  ultimately show ?thesis using digits_plain by (simp add: response_lines_def plain_line_def)
qed

lemma response_announces: "announces (tl (response_lines status tid n)) n"
proof -
  note cl = length_header_printed [of n]
  have "\<not> is_content_length ''Content-Type: application/json''"
    by (simp add: is_content_length_def strncasecmp_eq_def strcasecmp_eq_def tolower_def isupper_def)
  moreover have "\<not> is_content_length (''X-Worker-Thread-Id: '' @ dec_digits tid)"
    by (simp add: is_content_length_def strncasecmp_eq_def strcasecmp_eq_def tolower_def isupper_def)
  ultimately show ?thesis
    using response_lines_plain [of status tid n] cl unfolding announces_def
    by (intro conjI disjI2 exI [of _ "''Content-Type: application/json'' #
        (if tid \<noteq> 0 then [''X-Worker-Thread-Id: '' @ dec_digits tid] else [])"]
        exI [of _ "''Content-Length: '' @ dec_digits n"] exI [of _ "[''Connection: close'']"])
      (auto simp: response_lines_def)
qed

text \<open>
  C33: Every response announces its own length: read by the header parser of \<open>http.c\<close> itself, its
  head ends at the first empty line and gives as \<open>Content-Length\<close> the number of bytes that follow
  it, for every status code and body.
\<close>

theorem http_response_length_read_back:
  assumes "length (payload body) \<le> SIZE_MAX"
  shows "\<exists>headers_end. strstr (response_text status body tid) (CRLF @ CRLF) = Some headers_end \<and>
    parse_content_length (response_text status body tid) headers_end = Some (length (drop 4 headers_end)) \<and>
    drop 4 headers_end = payload body"
proof -
  let ?ls = "response_lines status tid (length (payload body))"
  have whole: "response_text status body tid = lines_text ?ls @ CRLF @ payload body"
    by (simp add: response_text_def response_header_lines)
  obtain l hs where ls: "?ls = l # hs" by (simp add: response_lines_def)
  have "strstr (response_text status body tid) (CRLF @ CRLF) = Some (CRLF @ CRLF @ payload body)"
    unfolding whole by (rule find_head_end [OF response_lines_plain]) (simp add: ls)
  moreover have "plain_line l" using response_lines_plain [of status tid "length (payload body)"] ls by simp
  moreover have "announces hs (length (payload body))"
    using response_announces [of status tid "length (payload body)"] ls by simp
  ultimately show ?thesis
    using parse_content_length_head [of l hs "length (payload body)" "payload body"] assms
    by (auto simp: whole ls)
qed

lemma http_response_length_read_back_witness:
  "\<exists>headers_end. parse_content_length (response_text 404 ''{}'' 9) headers_end = Some 3"
proof -
  have p: "payload ''{}'' = ''{}'' @ [CHR 0x0A]" by (simp add: payload_def needs_newline_def)
  then have "length (payload ''{}'') \<le> SIZE_MAX" by (simp add: SIZE_MAX_def)
  from http_response_length_read_back [OF this, of 404 9] obtain he where
    "parse_content_length (response_text 404 ''{}'' 9) he = Some (length (drop 4 he))" "drop 4 he = payload ''{}''" by blast
  then have "parse_content_length (response_text 404 ''{}'' 9) he = Some (length (payload ''{}''))" by (simp only:)
  then show ?thesis by (auto simp: p numeral_3_eq_3)
qed

subsection \<open>Bodies\<close>

text \<open>
  C34: What a client escapes is what the server parses: from a JSON object whose first member is
  \<open>sql\<close>, with any blanks and anything after the value, \<open>http_extract_sql\<close> returns exactly the text
  whose escape the value is, unless that is too long for the buffer; from a plain body it returns
  the text between the blanks at its ends.
\<close>

theorem http_extract_sql_decodes:
  assumes "spaces ws1" "spaces ws2" "spaces ws3" "spaces ws4" "length sql < room" "room \<le> SIZE_MAX"
  shows "((\<forall>c\<in>set sql. json_plain c) \<longrightarrow>
      http_extract_sql (json_object ws1 ws2 ws3 ws4 (json_escape sql) rest) room = Inr sql) \<and>
    (sql \<noteq> [] \<and> \<not> isspace (hd sql) \<and> \<not> isspace (last sql) \<and> hd sql \<noteq> CHR ''{'' \<longrightarrow>
      http_extract_sql (ws1 @ sql @ ws2) room = Inr sql)"
  using http_extract_json [OF assms(1-4) _ assms(5)] http_extract_raw [OF assms(1,2) _ _ _ _ assms(5,6)] by blast

lemma http_extract_sql_decodes_witness:
  "http_extract_sql (json_object [] [] [] '' '' (json_escape (''a'' @ [DQUOTE] @ ''b'')) ''}'') 4096 = Inr (''a'' @ [DQUOTE] @ ''b'') \<and>
   http_extract_sql ('' '' @ ''SELECT'' @ []) 4096 = Inr ''SELECT''"
  using http_extract_sql_decodes [of "[]" "[]" "[]" "'' ''" "''a'' @ [DQUOTE] @ ''b''" 4096 "''}''"]
    http_extract_sql_decodes [of "'' ''" "[]" "[]" "[]" "''SELECT''" 4096 "[]"]
  by (simp add: spaces_def isspace_def json_plain_def SIZE_MAX_def)

text \<open>
  C35: The text \<open>http_extract_sql\<close> stores, with its NUL, fits the buffer it is given, for every body,
  and it has no NUL inside.
\<close>

theorem http_extract_sql_bounds:
  assumes "http_extract_sql (cstr body) sql_size = Inr sql" "0 < sql_size" "length body < SIZE_MAX"
  shows "length sql + 1 \<le> sql_size \<and> CHR 0x00 \<notin> set sql"
proof -
  have "CHR 0x00 \<notin> set (cstr body)" unfolding cstr_def by (auto dest: set_takeWhileD)
  moreover have "length (cstr body) < SIZE_MAX"
    using assms(3) length_takeWhile_le [of _ body] unfolding cstr_def by (meson le_less_trans)
  ultimately show ?thesis using http_extract_sql_ok [OF assms(1,2)] by simp
qed

lemma http_extract_sql_bounds_witness:
  "length ''ab'' + 1 \<le> (3::nat) \<and> CHR 0x00 \<notin> set ''ab''"
proof (rule http_extract_sql_bounds)
  show "http_extract_sql (cstr '' ab '') 3 = Inr ''ab''"
    by (simp add: http_extract_sql_def cstr_def isspace_def copy_raw_sql_def trim_end_def size_add_exact SIZE_MAX_def)
qed (simp_all add: SIZE_MAX_def)

lemma key_is_not_sql:
  assumes "DQUOTE \<notin> set k" "k \<noteq> ''sql''"
  shows "take (length ''\"sql\"'') (DQUOTE # k @ DQUOTE # s) \<noteq> ''\"sql\"''"
proof -
  consider "length k \<le> 3" | a b c d t where "k = a # b # c # d # t"
    by (cases k rule: list.exhaust; cases "tl k"; cases "tl (tl k)"; cases "tl (tl (tl k))") auto
  then show ?thesis
  proof cases
    case 1
    then show ?thesis using assms
      by (cases k; cases "tl k"; cases "tl (tl k)"; cases "tl (tl (tl k))") auto
  next
    case 2
    then show ?thesis using assms(1) by auto
  qed
qed

text \<open>
  C36: Two kinds of valid JSON bodies are refused. A text with a control character other than
  newline, carriage return and tab, escaped as JSON demands, ends in an unsupported escape; and an
  object in which the string "sql" is the value of an earlier member ends in the complaint that no
  colon follows the key, although a proper member \<open>sql\<close> comes later.
\<close>

theorem http_extract_sql_refuses_valid_json:
  assumes "\<forall>c\<in>set pre. json_plain c" "\<not> json_plain ctl" "length pre < room" "DQUOTE \<notin> set k" "k \<noteq> ''sql''"
  shows "http_extract_sql (json_object [] [] [] [] (json_escape (pre @ ctl # post)) ''}'') room =
      Inl ''unsupported JSON escape in sql value'' \<and>
    http_extract_sql (''{'' @ DQUOTE # k @ DQUOTE # '':'' @ ''\"sql\"'' @ '','' @ ''\"sql\":'' @ val) room =
      Inl ''expected ':' after sql key''"
proof
  have sp: "spaces []" by (simp add: spaces_def)
  show "http_extract_sql (json_object [] [] [] [] (json_escape (pre @ ctl # post)) ''}'') room =
      Inl ''unsupported JSON escape in sql value''"
    using http_extract_json_control [OF sp sp sp sp assms(1-3)] by simp
  let ?key = "''\"sql\"''" and ?t = "'','' @ ''\"sql\":'' @ val"
  let ?b = "''{'' @ DQUOTE # k @ DQUOTE # '':'' @ ?key @ ?t"
  have "strstr ?b ?key = strstr (DQUOTE # k @ DQUOTE # '':'' @ ?key @ ?t) ?key"
    using strstr_step [of ?key "CHR ''{''" "DQUOTE # k @ DQUOTE # '':'' @ ?key @ ?t"] by simp
  also have "\<dots> = strstr (k @ DQUOTE # '':'' @ ?key @ ?t) ?key"
    by (rule strstr_step [OF key_is_not_sql [OF assms(4,5)]])
  also have "\<dots> = strstr (DQUOTE # '':'' @ ?key @ ?t) ?key"
    using strstr_skip [OF assms(4), of "DQUOTE # '':'' @ ?key @ ?t" "''sql\"''"] by simp
  also have "\<dots> = strstr ('':'' @ ?key @ ?t) ?key"
    using strstr_step [of ?key DQUOTE "'':'' @ ?key @ ?t"] by simp
  also have "\<dots> = Some (?key @ ?t)" by (rule find_sql_key) simp
  finally have key: "strstr ?b ?key = Some (?key @ ?t)" .
  have "http_extract_sql ?b room = extract_json_sql ?b room"
    by (simp add: http_extract_sql_def isspace_def)
  also have "\<dots> = Inl ''expected ':' after sql key''"
    unfolding extract_json_sql_def key by (simp add: isspace_def)
  finally show "http_extract_sql ?b room = Inl ''expected ':' after sql key''" .
qed

lemma http_extract_sql_refuses_valid_json_witness:
  "http_extract_sql (json_object [] [] [] [] (json_escape ([] @ CHR 0x01 # [])) ''}'') 4096 =
      Inl ''unsupported JSON escape in sql value'' \<and>
    http_extract_sql (''{'' @ DQUOTE # ''kind'' @ DQUOTE # '':'' @ ''\"sql\"'' @ '','' @ ''\"sql\":'' @ ''\"SELECT * FROM users\"}'') 4096 =
      Inl ''expected ':' after sql key''"
  by (rule http_extract_sql_refuses_valid_json) (simp_all add: json_plain_def)

end
