(* ===== verification/SqlProperties.thy ===== *)
theory SqlProperties
  imports SqlCorrect
begin

section \<open>The SQL parser: properties\<close>

text \<open>
  What the server may rely on when \<open>sql_parse\<close> accepts a text, and which texts it must accept.
\<close>

text \<open>
  C37: every statement \<open>sql_parse\<close> returns is the exact image of a well-formed abstract statement:
  one of the two INSERT forms with a positive id (when given), a name below 128 bytes with no
  quote and a non-negative 32-bit age, or a SELECT of all or of distinct known columns with no
  condition, an id or a name condition; no field is left over from another form.
\<close>

theorem sql_parse_accepts_only_statements:
  "sql_parse s = Inr stmt \<Longrightarrow> \<exists>a. ast_ok a \<and> stmt = stmt_of a"
  by (rule sql_parse_sound)

lemma sql_parse_accepts_only_statements_witness:
  "\<exists>a. ast_ok a \<and>
    stmt_of a = zero_stmt\<lparr>stmt_type := SQL_SELECT, table := ''users'',
      select_columns := [SQL_COLUMN_AGE, SQL_COLUMN_ID, SQL_COLUMN_ID], select_column_count := 1,
      where_type := SQL_WHERE_ID, where_id := 7\<rparr>"
proof -
  have "sql_parse ''select  AGE from Users where id=7 ;'' = Inr (zero_stmt\<lparr>stmt_type := SQL_SELECT, table := ''users'',
      select_columns := [SQL_COLUMN_AGE, SQL_COLUMN_ID, SQL_COLUMN_ID], select_column_count := 1,
      where_type := SQL_WHERE_ID, where_id := 7\<rparr>)"
    by code_simp
  from sql_parse_accepts_only_statements [OF this] show ?thesis by metis
qed

text \<open>
  C38: parsing is complete for the grammar of the README: the printed text of every well-formed
  abstract statement parses to exactly the statement it stands for, so what a client writes in a
  name, commas, parentheses and keywords included, comes back unchanged.
\<close>

theorem sql_parse_inverts_print:
  "ast_ok a \<Longrightarrow> sql_parse (sql_print a) = Inr (stmt_of a)"
  by (rule sql_parse_print)

lemma sql_parse_inverts_print_witness:
  "sql_parse (sql_print (InsertId 12 ''Kim, Lee) VALUES'' 30)) =
     Inr (stmt_of (InsertId 12 ''Kim, Lee) VALUES'' 30))"
  by (rule sql_parse_inverts_print) (simp add: int_ok_def INT_MAX_def name_ok_def)

text \<open>
  The C arrays of a parsed statement are respected: at most 3 columns are stored in the
  3-element array and they are distinct, every name fits its 128-byte buffer with its NUL, every
  number fits an \<open>int\<close> and the table is always \<open>users\<close>.
\<close>

theorem sql_parse_bounds:
  assumes "sql_parse s = Inr stmt"
  shows "length (select_columns stmt) = SQL_MAX_SELECT_COLUMNS \<and>
    select_column_count stmt \<le> SQL_MAX_SELECT_COLUMNS \<and>
    distinct (take (select_column_count stmt) (select_columns stmt)) \<and>
    length (insert_name stmt) < DB_NAME_MAX \<and> length (where_name stmt) < DB_NAME_MAX \<and>
    int_ok (insert_id stmt) \<and> int_ok (insert_age stmt) \<and> int_ok (where_id stmt) \<and> table stmt = ''users''"
proof -
  obtain a where a: "ast_ok a" "stmt = stmt_of a" using sql_parse_sound [OF assms] by blast
  have zero: "int_ok 0" by (simp add: int_ok_def INT_MAX_def)
  show ?thesis
  proof (cases a)
    case (Select cols w)
    have "select_columns stmt = column_array (case cols of None \<Rightarrow> [] | Some cs \<Rightarrow> cs)"
      "select_column_count stmt = length (case cols of None \<Rightarrow> [] | Some cs \<Rightarrow> cs)"
      by (cases cols; cases w; simp add: a(2) Select zero_stmt_def column_array_def)+
    moreover have "distinct (case cols of None \<Rightarrow> [] | Some cs \<Rightarrow> cs)"
      using a(1) Select by (auto split: option.splits)
    moreover have "length (insert_name stmt) < DB_NAME_MAX" "length (where_name stmt) < DB_NAME_MAX"
      "int_ok (insert_id stmt)" "int_ok (insert_age stmt)" "int_ok (where_id stmt)" "table stmt = ''users''"
      using a(1) by (cases cols; cases w; simp add: a(2) Select zero_stmt_def zero name_ok_def)+
    ultimately show ?thesis using columns_at_most_3 [of "case cols of None \<Rightarrow> [] | Some cs \<Rightarrow> cs"]
      by (simp add: column_array_def)
  qed (use a zero in \<open>auto simp: zero_stmt_def name_ok_def\<close>)
qed

lemma sql_parse_bounds_witness:
  "distinct (take (select_column_count (stmt_of (Select (Some [SQL_COLUMN_NAME, SQL_COLUMN_ID]) WhereNone)))
     (select_columns (stmt_of (Select (Some [SQL_COLUMN_NAME, SQL_COLUMN_ID]) WhereNone))))"
proof -
  have "sql_parse ''SELECT name, id FROM users'' = Inr (stmt_of (Select (Some [SQL_COLUMN_NAME, SQL_COLUMN_ID]) WhereNone))"
    by code_simp
  from sql_parse_bounds [OF this] show ?thesis by blast
qed

end
