(* ===== verification/JsonProperties.thy ===== *)
theory JsonProperties
  imports JsonCorrect
begin

section \<open>The JSON builder: properties\<close>

text \<open>
  The promises of \<open>src/util.c\<close> to the code that writes responses. The contract \<open>jb_appends\<close>
  excludes any access outside the builder's block and any endless loop, for every pattern of
  failing calls.
\<close>

text \<open>
  C39: \<open>json_builder_append\<close>, \<open>json_builder_appendf\<close> and \<open>json_builder_append_string\<close> are memory
  safe whatever calls fail, and when they report success the builder holds the old text followed
  by the new text, the formatted text, or the escaped text in quotes.
\<close>

theorem json_builder_operations_append:
  assumes "length t < JSON_MAX" "6 * length u < JSON_MAX"
  shows "jb_appends (json_builder_append s) s \<and> jb_appends (json_builder_appendf t) t \<and>
    jb_appends (json_builder_append_string u) (json_quote u)"
  using json_builder_append_appends json_builder_appendf_appends [OF assms(1)]
    json_builder_append_string_appends [OF assms(2)] by blast

lemma json_builder_operations_append_witness:
  "jb_appends (json_builder_append ''['') ''['' \<and> jb_appends (json_builder_appendf ''42'') ''42'' \<and>
    jb_appends (json_builder_append_string ''a'') (json_quote ''a'')"
  by (rule json_builder_operations_append) (simp_all add: JSON_MAX_def)

text \<open>
  C40: \<open>json_escape_dup\<close> writes inside its block of \<open>6 * len + 1\<close> bytes for every input, and
  the string it returns decodes, by the rules of JSON strings, to exactly the input; it contains
  no raw control character.
\<close>

theorem json_escape_dup_decodes:
  assumes "length input < JSON_MAX"
  shows "\<exists>os' r. json_escape_dup input os = Some (os', r) \<and>
    (\<forall>out. r = Some out \<longrightarrow> (\<exists>escaped. c_string out = Some escaped \<and>
       json_unescape escaped = Some input \<and> (\<forall>c\<in>set escaped. 32 \<le> code c)))"
  using json_escape_dup_ok [OF assms, of os] json_unescape_escape json_escape_printable by metis

lemma json_escape_dup_decodes_witness:
  "\<exists>os' r. json_escape_dup (DQUOTE # CHR 0x01 # ''x'') \<lparr>calls = 0, grant = (\<lambda>_. True)\<rparr> = Some (os', r) \<and>
    (\<forall>out. r = Some out \<longrightarrow> (\<exists>escaped. c_string out = Some escaped \<and>
       json_unescape escaped = Some (DQUOTE # CHR 0x01 # ''x'') \<and> (\<forall>c\<in>set escaped. 32 \<le> code c)))"
  by (rule json_escape_dup_decodes) (simp add: JSON_MAX_def)

text \<open>
  The growth loop of \<open>json_builder_reserve\<close> always ends, with a capacity that is large
  enough and not smaller than before, or with the overflow refusal, which only requests beyond
  half of the address space get.
\<close>

theorem grow_cap_ends:
  assumes "0 < cap" "cap \<le> SIZE_MAX"
  shows "\<exists>r. grow_cap cap needed = Some r \<and> (\<forall>c. r = Some c \<longrightarrow> needed \<le> c \<and> cap \<le> c \<and> c \<le> SIZE_MAX) \<and>
    (r = None \<longrightarrow> SIZE_MAX div 2 < needed - 1)"
  using grow_cap_returns [OF assms, of needed] by fastforce

lemma grow_cap_ends_witness:
  "\<exists>r. grow_cap 256 1000 = Some r \<and> (\<forall>c. r = Some c \<longrightarrow> 1000 \<le> c)"
  using grow_cap_ends [of 256 1000] by (auto simp: SIZE_MAX_def)

end
