(* ===== verification/Spec2Isabelle.thy ===== *)
theory Spec2Isabelle
  imports ConcurrencyProperties ServerProperties DbProperties PoolProperties BpProperties HttpProperties
    SqlProperties JsonProperties
begin

text \<open>
  \<^bold>\<open>TRYO, a small database server in C.\<close> The program answers HTTP requests that carry one SQL
  statement each. The main thread accepts connections and puts the sockets into the ring buffer of
  a thread pool; a worker takes a socket, reads the request, takes the SQL text out of its body,
  parses it and calls the database engine; the engine keeps the table in an array, an index from
  ids to array positions in a B+ tree and every inserted row as a line of a data file, which is
  read again at the next start; the result goes back as JSON. The development models all of this
  from the sources in \<open>src/src\<close> and \<open>src/include\<close>.

  \<^bold>\<open>The environment.\<close> \<open>Libc\<close> has the outside world as a record that is passed along: an oracle
  \<open>grant\<close> says of every call (by number) whether it succeeds, so a statement about every oracle is
  one about every pattern of failing allocations, files, locks, threads and sockets. \<open>never_fails\<close>
  and \<open>granted\<close> speak of the good case, \<open>goes_to\<close> and \<open>runs_to\<close> of what a run may change.
  \<open>DbEngine\<close> extends the record by files, short writes and the clock; a connection (\<open>Http\<close>) is a
  pair of scripts of what \<open>recv\<close> and \<open>send\<close> do. \<open>None\<close> is undefined behaviour: an access outside
  a block or to memory never written, a signed overflow, an access of \<open>NULL\<close>. Errors the code
  reports are values. \<open>size_t\<close> arithmetic wraps (\<open>size_add\<close>, \<open>size_mul\<close>), \<open>int\<close> values are
  checked for overflow where the code computes with them. \<open>CString\<close> has the library functions on
  strings, \<open>Prelude\<close> what all theories share: loops over arrays, error chaining, automation.

  \<^bold>\<open>Components\<close>, each with the theory of its definitions first and that of its properties last.

  \<^descr>[B+ tree, \<open>bptree.c\<close>] \<open>BpTree\<close> models every function on the level of the arrays, with
  addresses, the leaf chain and failing allocations. \<open>KvList\<close> has association lists sorted by key,
  \<open>BpInvariant\<close> the shape of a tree and its contents, \<open>BpInsert\<close> insertion with its splits,
  \<open>BpIndex\<close> the interface \<open>ordered_index\<close> (a locale, interpreted on the functions of the code) and
  the height, \<open>BpMemory\<close> allocation, release and the leaf chain, \<open>BpProperties\<close> the properties.
  \<^descr>[SQL, \<open>sql.c\<close>] \<open>Sql\<close> models the parser, \<open>SqlCorrect\<close> has an abstract syntax (\<open>sql_ast\<close>), its
  printed form and the two directions of the correspondence, \<open>SqlChars\<close> where the characters of a
  statement come from, \<open>SqlProperties\<close> the properties.
  \<^descr>[JSON, \<open>util.c\<close>] \<open>JsonUtil\<close> models the growing buffer and the escaping in memory blocks,
  \<open>JsonCorrect\<close> proves the contract of an append operation and composes such contracts,
  \<open>JsonProperties\<close> the properties.
  \<^descr>[Engine, \<open>db.c\<close>] \<open>DbEngine\<close> models loading, inserting and selecting with file, index and lock;
  \<open>DbJson\<close> is the JSON of rows, \<open>DbCorrect\<close> the invariant \<open>db_inv\<close> and insertion, \<open>DbSelect\<close>
  selection, \<open>DbLoad\<close> the start and the file format, \<open>DbProperties\<close> the properties.
  \<^descr>[Thread pool, \<open>thread_pool.c\<close>] \<open>ThreadPool\<close> has the data operations as functions and the threads
  as a step relation with one rule for every stretch of code between two points where mutex,
  condition variables or the scheduler decide, spurious wake-ups included. \<open>PoolQueue\<close> has the
  interface \<open>bounded_queue\<close> and its interpretation, \<open>PoolCorrect\<close> the invariant of all reachable
  states, \<open>PoolProgress\<close> progress and the bound of the shutdown, \<open>PoolProperties\<close> the properties.
  \<^descr>[HTTP, \<open>http.c\<close>] \<open>Http\<close> models reading a request, writing a response and taking the SQL text out
  of a body. \<open>HttpCorrect\<close> has sending, receiving and the response, \<open>HttpText\<close> header lines,
  \<open>HttpRead\<close> whole requests, \<open>HttpBody\<close> bodies, \<open>HttpProperties\<close> the properties.
  \<^descr>[Server, \<open>server.c\<close> and \<open>main.c\<close>] \<open>Server\<close> models request handling, the accept loop, the life of
  the process with its signals and the command line. \<open>ServerCorrect\<close>, \<open>Messages\<close> and \<open>ServerHandle\<close> show what every
  request gets whatever fails, \<open>ServerQuery\<close> what a well-formed request gets when nothing fails,
  \<open>ServerRun\<close> the run from start to exit, with the contract between pool and handler as the
  locale \<open>task_handler\<close>; \<open>ServerProperties\<close> has the properties.
  \<^descr>[The whole] \<open>Table\<close> is the abstract specification: a table is a list of rows, a statement gives a
  reply and the next table; the engine is shown to follow it. \<open>Phases\<close> cuts \<open>handle_client\<close> where
  workers touch shared state, \<open>Concurrency\<close> interleaves any number of clients and shows that they
  are served as by the table, one after the other; \<open>ConcurrencyAny\<close> shows what is left of this
  when peers and calls may fail: the engine's invariant, its rows, and an end for every client;
  \<open>ServerTable\<close> carries this through a run of the
  process; \<open>ConcurrencyProperties\<close> has the properties.

  \<^bold>\<open>Bounds and loops.\<close> Loops are recursive functions with a termination proof, the growth of the
  JSON buffer included; the loops over \<open>recv\<close> and \<open>send\<close> end because a script is finite. A peer
  that stays connected and never sends again is no finite script: the code would wait for ever.
  \<open>DB_ROWS_MAX\<close> (2 to the 40 rows), \<open>JSON_MAX\<close> and 2 to the 60 for the sizes of the pool are
  hypotheses far beyond what memory holds; they keep \<open>size_t\<close> sums and products from wrapping.
  The step relations have no bound on the number of threads or clients.

  \<^bold>\<open>Atomicity.\<close> An engine operation is one step: it holds the read-write lock of the engine from
  before its first access to after its last, insertions exclusively; selections, which may overlap,
  do not change the engine. In the thread pool the handler is one step that ends, which the
  properties of \<open>handle_client\<close> justify for every peer that sends or closes.

  \<^bold>\<open>Not modelled.\<close> The banner on standard output and the lines of \<open>perror\<close>; the release of heap
  blocks outside the tree and the pool, which are values here; \<open>memset\<close> of structures no one reads again; the
  contents of output arguments after a failure when no caller reads them; the test driver in
  \<open>src/tests\<close>, the shell scripts, the Makefile and the documents, which hold no logic of the
  server. The kernel, the C library and the threads are modelled as far as the code uses them, by
  their documented behaviour: the read-write lock by a field of the engine, mutex and condition
  variables by the step relation.

  \<^bold>\<open>What does not hold.\<close> Where a promise fails the failure is a theorem: an index entry is lost
  without an error when memory runs out while a leaf is split; the id \<open>INT_MAX\<close> makes the next
  start undefined and automatic ids repeat; a partial write corrupts the row after it; some valid
  JSON bodies are refused.
\<close>

end
